(* ===== verification/Prelude.thy ===== *)
theory Prelude
  imports Main "HOL-Library.Word" "HOL-Library.Char_ord"
begin

text \<open>
  Shared vocabulary of the development: names for the machine integers of the Rust sources,
  the standard-library operations the components use (iterator searches, slices, splitting
  and trimming of strings, big-endian byte order), the collections of rewrite rules the
  component proofs draw on, and the locale of encoders paired with decoders.

  A Rust byte string or \<^verbatim>\<open>&str\<close> is a \<open>string\<close> (a \<open>char\<close> is exactly one
  byte, so \<open>length\<close> is Rust's \<^verbatim>\<open>len()\<close>, which counts bytes); binary data is a list of
  \<open>8 word\<close>.  \<^verbatim>\<open>usize\<close> indices and lengths, and millisecond clocks, are \<open>nat\<close>.
\<close>

unbundle bit_operations_syntax

named_theorems rust_simps \<open>rewrite rules for the modelled standard-library operations\<close>
named_theorems inv_intros \<open>an operation keeps its component's invariant\<close>

section \<open>Machine integers\<close>

type_synonym u8 = "8 word"
type_synonym u16 = "16 word"
type_synonym u32 = "32 word"
type_synonym u64 = "64 word"

lemma unat_u8: "unat (w :: u8) < 256"
  using unsigned_less [of w] by simp

lemma unat_u16: "unat (w :: u16) < 65536"
  using unsigned_less [of w] by simp

lemma unat_u32: "unat (w :: u32) < 2 ^ 32"
  using unsigned_less [of w] by simp

text \<open>\<^verbatim>\<open>u64::checked_add\<close> and \<^verbatim>\<open>u64::saturating_add\<close> on the values of 64-bit numbers.\<close>

definition checked_add64 :: "nat \<Rightarrow> nat \<Rightarrow> nat option" where
  "checked_add64 a b = (if a + b < 2 ^ 64 then Some (a + b) else None)"

definition saturating_add64 :: "nat \<Rightarrow> nat \<Rightarrow> nat" where
  "saturating_add64 a b = min (a + b) (2 ^ 64 - 1)"

lemma checked_add64_Some [rust_simps]:
  "checked_add64 a b = Some c \<longleftrightarrow> a + b < 2 ^ 64 \<and> c = a + b"
  by (auto simp: checked_add64_def)

lemma checked_add64_None [rust_simps]: "checked_add64 a b = None \<longleftrightarrow> 2 ^ 64 \<le> a + b"
  by (auto simp: checked_add64_def)

text \<open>\<^verbatim>\<open>div_ceil\<close> and rounding up to a multiple.\<close>

definition div_ceil :: "nat \<Rightarrow> nat \<Rightarrow> nat" where
  "div_ceil a b = (a + b - 1) div b"

lemma div_ceil_le_iff: "0 < b \<Longrightarrow> div_ceil a b \<le> q \<longleftrightarrow> a \<le> q * b"
proof -
  assume b: "0 < b"
  have "div_ceil a b \<le> q \<longleftrightarrow> (a + b - 1) div b < Suc q"
    by (simp only: div_ceil_def less_Suc_eq_le)
  also have "\<dots> \<longleftrightarrow> a + b - 1 < Suc q * b"
    using b by (rule div_less_iff_less_mult)
  also have "\<dots> \<longleftrightarrow> a \<le> q * b"
    using b unfolding mult_Suc by linarith
  finally show ?thesis .
qed

lemma div_ceil_mult_ge: "0 < b \<Longrightarrow> a \<le> div_ceil a b * b"
  using div_ceil_le_iff by blast

lemma less_div_ceil_iff: "0 < b \<Longrightarrow> q < div_ceil a b \<longleftrightarrow> q * b < a"
  using div_ceil_le_iff [of b a q] by linarith

section \<open>Big-endian byte order\<close>

definition be16 :: "u16 \<Rightarrow> u8 list" where
  "be16 w = [ucast (drop_bit 8 w), ucast w]"

definition of_be16 :: "u8 \<Rightarrow> u8 \<Rightarrow> u16" where
  "of_be16 a b = push_bit 8 (ucast a) OR ucast b"

definition be32 :: "u32 \<Rightarrow> u8 list" where
  "be32 w = [ucast (drop_bit 24 w), ucast (drop_bit 16 w), ucast (drop_bit 8 w), ucast w]"

definition of_be32 :: "u8 \<Rightarrow> u8 \<Rightarrow> u8 \<Rightarrow> u8 \<Rightarrow> u32" where
  "of_be32 a b c d =
     push_bit 24 (ucast a) OR push_bit 16 (ucast b) OR push_bit 8 (ucast c) OR ucast d"

lemma length_be16 [simp]: "length (be16 w) = 2"
  by (simp add: be16_def)

lemma length_be32 [simp]: "length (be32 w) = 4"
  by (simp add: be32_def)

lemma of_be16_be16 [simp]: "of_be16 (ucast (drop_bit 8 w)) (ucast w) = w"
  unfolding of_be16_def
  by (rule bit_word_eqI) (auto simp: bit_simps)

lemma of_be32_be32 [simp]:
  "of_be32 (ucast (drop_bit 24 w)) (ucast (drop_bit 16 w)) (ucast (drop_bit 8 w)) (ucast w) = w"
  unfolding of_be32_def
proof (rule bit_word_eqI)
  fix n
  assume "n < LENGTH(32)"
  then have n: "n < 32" by simp
  consider "n < 8" | "8 \<le> n" "n < 16" | "16 \<le> n" "n < 24" | "24 \<le> n"
    by linarith
  then show "bit (push_bit 24 (ucast (ucast (drop_bit 24 w) :: u8)) OR
      push_bit 16 (ucast (ucast (drop_bit 16 w) :: u8)) OR
      push_bit 8 (ucast (ucast (drop_bit 8 w) :: u8)) OR ucast (ucast w :: u8) :: u32) n = bit w n"
    using n by cases (simp_all add: bit_simps less_diff_conv2)
qed

lemma be16_of_be16 [simp]: "be16 (of_be16 a b) = [a, b]"
  unfolding be16_def of_be16_def
  by (auto intro!: bit_word_eqI simp: bit_simps) (auto dest!: bit_imp_le_length)

lemma be32_of_be32 [simp]: "be32 (of_be32 a b c d) = [a, b, c, d]"
  unfolding be32_def of_be32_def
  by (auto intro!: bit_word_eqI simp: bit_simps) (auto dest!: bit_imp_le_length)

section \<open>Iterator searches and slices\<close>

text \<open>\<^verbatim>\<open>iter().position(p)\<close>: the index of the first element that satisfies \<open>p\<close>.\<close>

fun position :: "('a \<Rightarrow> bool) \<Rightarrow> 'a list \<Rightarrow> nat option" where
  "position p [] = None"
| "position p (x # xs) = (if p x then Some 0 else map_option Suc (position p xs))"

lemma position_None_iff [rust_simps]: "position p xs = None \<longleftrightarrow> (\<forall>x\<in>set xs. \<not> p x)"
  by (induction xs) auto

lemma position_SomeD:
  "position p xs = Some i \<Longrightarrow> i < length xs \<and> p (xs ! i) \<and> (\<forall>j<i. \<not> p (xs ! j))"
proof (induction xs arbitrary: i)
  case (Cons x xs)
  then show ?case by (auto simp: less_Suc_eq_0_disj split: if_splits)
qed simp

lemma position_append:
  "position p (xs @ ys) =
     (case position p xs of Some i \<Rightarrow> Some i | None \<Rightarrow> map_option ((+) (length xs)) (position p ys))"
proof (induction xs)
  case Nil
  then show ?case by (cases "position p ys") simp_all
next
  case (Cons x xs)
  then show ?case by (cases "position p xs"; cases "position p ys") simp_all
qed

text \<open>The first index of a range that satisfies \<open>p\<close> (\<^verbatim>\<open>(a..b).find(p)\<close>).\<close>

definition find_range :: "(nat \<Rightarrow> bool) \<Rightarrow> nat \<Rightarrow> nat \<Rightarrow> nat option" where
  "find_range p a b = find p [a..<b]"

lemma find_range_Some:
  "find_range p a b = Some i \<longleftrightarrow> a \<le> i \<and> i < b \<and> p i \<and> (\<forall>j. a \<le> j \<and> j < i \<longrightarrow> \<not> p j)"
proof
  assume "find_range p a b = Some i"
  then obtain k where k: "k < length [a..<b]" "p ([a..<b] ! k)" "i = [a..<b] ! k"
    "\<forall>j<k. \<not> p ([a..<b] ! j)"
    by (auto simp: find_range_def find_Some_iff)
  have "\<not> p j" if "a \<le> j" "j < i" for j
    using k that by (auto dest: spec [where x = "j - a"])
  then show "a \<le> i \<and> i < b \<and> p i \<and> (\<forall>j. a \<le> j \<and> j < i \<longrightarrow> \<not> p j)"
    using k by auto
next
  assume *: "a \<le> i \<and> i < b \<and> p i \<and> (\<forall>j. a \<le> j \<and> j < i \<longrightarrow> \<not> p j)"
  then show "find_range p a b = Some i"
    unfolding find_range_def find_Some_iff
    by (intro exI [where x = "i - a"]) auto
qed

lemma find_range_None: "find_range p a b = None \<longleftrightarrow> (\<forall>i. a \<le> i \<and> i < b \<longrightarrow> \<not> p i)"
  by (auto simp: find_range_def find_None_iff)

lemma find_SomeD: "find p xs = Some x \<Longrightarrow> x \<in> set xs \<and> p x"
  by (auto simp: find_Some_iff)

text \<open>\<^verbatim>\<open>iter().min_by_key(f)\<close>: the first of the elements with the least key.\<close>

fun min_by_key :: "('a \<Rightarrow> 'b :: linorder) \<Rightarrow> 'a list \<Rightarrow> 'a option" where
  "min_by_key f [] = None"
| "min_by_key f (x # xs) =
     (case min_by_key f xs of None \<Rightarrow> Some x | Some y \<Rightarrow> Some (if f x \<le> f y then x else y))"

lemma min_by_key_None_iff [rust_simps]: "min_by_key f xs = None \<longleftrightarrow> xs = []"
  by (cases xs) (auto split: option.splits)

lemma min_by_key_Some:
  "min_by_key f xs = Some x \<Longrightarrow> x \<in> set xs \<and> (\<forall>y\<in>set xs. f x \<le> f y)"
  by (induction xs arbitrary: x) (auto split: option.splits if_splits simp: min_by_key_None_iff)

text \<open>\<^verbatim>\<open>&xs[a..b]\<close>, for bounds the caller has checked.\<close>

definition subrange :: "nat \<Rightarrow> nat \<Rightarrow> 'a list \<Rightarrow> 'a list" where
  "subrange a b xs = take (b - a) (drop a xs)"

text \<open>\<^verbatim>\<open>xs[at..at + ys.len()].copy_from_slice(ys)\<close>, for a range inside \<open>xs\<close>.\<close>

definition blit :: "nat \<Rightarrow> 'a list \<Rightarrow> 'a list \<Rightarrow> 'a list" where
  "blit at ys xs = take at xs @ ys @ drop (at + length ys) xs"

lemma length_subrange [simp]: "length (subrange a b xs) = min (b - a) (length xs - a)"
  by (simp add: subrange_def min.commute)

lemma length_blit [simp]:
  "at + length ys \<le> length xs \<Longrightarrow> length (blit at ys xs) = length xs"
  by (simp add: blit_def)

lemma nth_blit:
  "at + length ys \<le> length xs \<Longrightarrow> i < length xs \<Longrightarrow>
   blit at ys xs ! i = (if at \<le> i \<and> i < at + length ys then ys ! (i - at) else xs ! i)"
  by (auto simp: blit_def nth_append min_def)

section \<open>Strings\<close>

text \<open>\<^verbatim>\<open>str::split(sep)\<close>: \<open>n\<close> separators give \<open>n + 1\<close> parts, empty ones included.\<close>

fun split_on :: "char \<Rightarrow> string \<Rightarrow> string list" where
  "split_on d [] = [[]]"
| "split_on d (c # cs) =
     (if c = d then [] # split_on d cs
      else (case split_on d cs of [] \<Rightarrow> [[c]] | w # ws \<Rightarrow> (c # w) # ws))"

lemma split_on_not_Nil [simp]: "split_on d s \<noteq> []"
  by (cases s) (auto split: list.splits)

lemma split_on_no_sep: "d \<notin> set s \<Longrightarrow> split_on d s = [s]"
  by (induction s) auto

lemma split_on_append_sep:
  "d \<notin> set w \<Longrightarrow> split_on d (w @ d # s) = w # split_on d s"
  by (induction w) auto

lemma split_on_parts: "w \<in> set (split_on d s) \<Longrightarrow> d \<notin> set w"
proof (induction s arbitrary: w)
  case (Cons c cs)
  then show ?case by (cases "split_on d cs") (auto split: if_splits)
qed simp

lemma split_on_parts_subset: "w \<in> set (split_on d s) \<Longrightarrow> set w \<subseteq> set s"
proof (induction s arbitrary: w)
  case (Cons c cs)
  then show ?case
    by (cases "split_on d cs") (fastforce split: if_splits)+
qed simp

lemma split_on_part_length: "w \<in> set (split_on d s) \<Longrightarrow> length w \<le> length s"
proof (induction s arbitrary: w)
  case (Cons c cs)
  then show ?case
    by (cases "split_on d cs") (fastforce split: if_splits simp: le_SucI)+
qed simp

text \<open>\<^verbatim>\<open>str::strip_prefix\<close> and \<^verbatim>\<open>str::starts_with\<close>.\<close>

fun strip_prefix :: "'a list \<Rightarrow> 'a list \<Rightarrow> 'a list option" where
  "strip_prefix [] s = Some s"
| "strip_prefix (p # ps) [] = None"
| "strip_prefix (p # ps) (c # cs) = (if p = c then strip_prefix ps cs else None)"

lemma strip_prefix_append [simp]: "strip_prefix p (p @ s) = Some s"
  by (induction p) auto

lemma strip_prefix_Some: "strip_prefix p s = Some t \<longleftrightarrow> s = p @ t"
  by (induction p s rule: strip_prefix.induct) auto

lemma option_eqI: "(\<And>x. a = Some x \<longleftrightarrow> b = Some x) \<Longrightarrow> a = b"
  by (cases a; cases b) auto

section \<open>Step relations\<close>

lemma rtranclp_invariant:
  assumes "step\<^sup>*\<^sup>* x y" and "\<And>p q. step p q \<Longrightarrow> I p \<Longrightarrow> I q" and "I x"
  shows "I y"
  using assms by (induction rule: rtranclp_induct) auto

section \<open>Encoders and decoders\<close>

text \<open>
  The contract every wire or disk format of the program keeps: what was written reads back as
  the value that was written, at least for the values of \<open>ok\<close>.  Two values with one
  encoding are then one value.
\<close>

locale codec =
  fixes encode :: "'a \<Rightarrow> 'b"
    and decode :: "'b \<Rightarrow> 'a option"
    and ok :: "'a \<Rightarrow> bool"
  assumes decode_encode: "ok x \<Longrightarrow> decode (encode x) = Some x"
begin

lemma encode_inj: "ok x \<Longrightarrow> ok y \<Longrightarrow> encode x = encode y \<Longrightarrow> x = y"
  using decode_encode by (metis option.inject)

lemma decode_total: "ok x \<Longrightarrow> \<exists>y. decode (encode x) = Some y \<and> ok y"
  using decode_encode by blast

end

end
