(* ===== verification/Text.thy ===== *)
theory Text
  imports Prelude
begin

text \<open>
  The text handling of the Rust standard library that the parsers of the program rely on:
  validation of UTF-8, the lines of a string, trimming of Unicode white space, splitting at
  the first separator, and reading unsigned numbers in a given radix.  Strings are their UTF-8
  bytes.
\<close>

definition code :: "char \<Rightarrow> nat" where
  "code c = of_char c"

lemma code_less: "code c < 256"
  by (simp add: code_def)

definition is_ascii :: "string \<Rightarrow> bool" where
  "is_ascii s \<longleftrightarrow> list_all (\<lambda>c. code c < 128) s"

lemma is_ascii_Nil [simp]: "is_ascii []"
  by (simp add: is_ascii_def)

lemma is_ascii_Cons [simp]: "is_ascii (c # s) \<longleftrightarrow> code c < 128 \<and> is_ascii s"
  by (simp add: is_ascii_def)

lemma is_ascii_append [simp]: "is_ascii (s @ t) \<longleftrightarrow> is_ascii s \<and> is_ascii t"
  by (simp add: is_ascii_def)

section \<open>UTF-8 validation\<close>

definition cont :: "nat \<Rightarrow> nat \<Rightarrow> char \<Rightarrow> bool" where
  "cont lo hi c \<longleftrightarrow> lo \<le> code c \<and> code c \<le> hi"

text \<open>The ranges a second byte may take after a given first byte of three or four.\<close>

definition second_range :: "nat \<Rightarrow> nat \<times> nat" where
  "second_range a =
     (if a = 0xE0 then (0xA0, 0xBF) else if a = 0xED then (0x80, 0x9F)
      else if a = 0xF0 then (0x90, 0xBF) else if a = 0xF4 then (0x80, 0x8F)
      else (0x80, 0xBF))"

fun utf8_valid :: "string \<Rightarrow> bool" where
  "utf8_valid [] = True"
| "utf8_valid (a # s) =
     (if code a < 128 then utf8_valid s
      else if 0xC2 \<le> code a \<and> code a \<le> 0xDF then
        (case s of b # s' \<Rightarrow> cont 0x80 0xBF b \<and> utf8_valid s' | _ \<Rightarrow> False)
      else if 0xE0 \<le> code a \<and> code a \<le> 0xEF then
        (case s of b # c # s' \<Rightarrow>
           cont (fst (second_range (code a))) (snd (second_range (code a))) b \<and>
           cont 0x80 0xBF c \<and> utf8_valid s' | _ \<Rightarrow> False)
      else if 0xF0 \<le> code a \<and> code a \<le> 0xF4 then
        (case s of b # c # d # s' \<Rightarrow>
           cont (fst (second_range (code a))) (snd (second_range (code a))) b \<and>
           cont 0x80 0xBF c \<and> cont 0x80 0xBF d \<and> utf8_valid s' | _ \<Rightarrow> False)
      else False)"

lemma utf8_valid_ascii: "is_ascii s \<Longrightarrow> utf8_valid s"
  by (induction s rule: utf8_valid.induct) auto

section \<open>Lines\<close>

text \<open>\<^verbatim>\<open>str::lines\<close>: pieces up to and including a line feed, which is dropped together with a
  carriage return before it.  A last piece without a line feed is kept as it is.\<close>

abbreviation (input) LF :: char where "LF \<equiv> CHR 0x0A"
abbreviation (input) CR :: char where "CR \<equiv> CHR 0x0D"

fun split_inclusive :: "string \<Rightarrow> string list" where
  "split_inclusive [] = []"
| "split_inclusive (c # cs) =
     (if c = LF then [c] # split_inclusive cs
      else (case split_inclusive cs of [] \<Rightarrow> [[c]] | w # ws \<Rightarrow> (c # w) # ws))"

definition strip_eol :: "string \<Rightarrow> string" where
  "strip_eol s =
     (if s \<noteq> [] \<and> last s = LF
      then (let t = butlast s in if t \<noteq> [] \<and> last t = CR then butlast t else t)
      else s)"

definition str_lines :: "string \<Rightarrow> string list" where
  "str_lines s = map strip_eol (split_inclusive s)"

lemma split_inclusive_line:
  "LF \<notin> set l \<Longrightarrow> split_inclusive (l @ LF # s) = (l @ [LF]) # split_inclusive s"
  by (induction l) auto

lemma strip_eol_line: "CR \<notin> set l \<Longrightarrow> strip_eol (l @ [LF]) = l"
  by (auto simp: strip_eol_def Let_def dest: last_in_set)

lemma str_lines_Nil [simp]: "str_lines [] = []"
  by (simp add: str_lines_def)

lemma str_lines_line:
  "LF \<notin> set l \<Longrightarrow> CR \<notin> set l \<Longrightarrow> str_lines (l @ LF # s) = l # str_lines s"
  by (simp add: str_lines_def split_inclusive_line strip_eol_line)

lemma str_lines_concat:
  "\<forall>l\<in>set ls. LF \<notin> set l \<and> CR \<notin> set l \<Longrightarrow> str_lines (concat (map (\<lambda>l. l @ [LF]) ls) @ s) = ls @ str_lines s"
  by (induction ls) (auto simp: str_lines_line)

section \<open>Trimming\<close>

text \<open>The length in bytes of the white-space character a string starts with, 0 for none, and
  the same for the end of a string, read from its reversal.\<close>

definition ascii_ws :: "char \<Rightarrow> bool" where
  "ascii_ws c \<longleftrightarrow> code c = 32 \<or> (9 \<le> code c \<and> code c \<le> 13)"

definition ws2 :: "char \<Rightarrow> char \<Rightarrow> bool" where
  "ws2 a b \<longleftrightarrow> code a = 0xC2 \<and> (code b = 0x85 \<or> code b = 0xA0)"

definition ws3 :: "char \<Rightarrow> char \<Rightarrow> char \<Rightarrow> bool" where
  "ws3 a b c \<longleftrightarrow>
     (code a = 0xE1 \<and> code b = 0x9A \<and> code c = 0x80) \<or>
     (code a = 0xE2 \<and> code b = 0x80 \<and>
        ((0x80 \<le> code c \<and> code c \<le> 0x8A) \<or> code c = 0xA8 \<or> code c = 0xA9 \<or> code c = 0xAF)) \<or>
     (code a = 0xE2 \<and> code b = 0x81 \<and> code c = 0x9F) \<or>
     (code a = 0xE3 \<and> code b = 0x80 \<and> code c = 0x80)"

fun ws_prefix :: "string \<Rightarrow> nat" where
  "ws_prefix [] = 0"
| "ws_prefix (a # s) =
     (if ascii_ws a then 1
      else case s of [] \<Rightarrow> 0 | b # s' \<Rightarrow>
        if ws2 a b then 2
        else case s' of [] \<Rightarrow> 0 | c # _ \<Rightarrow> if ws3 a b c then 3 else 0)"

fun ws_suffix_rev :: "string \<Rightarrow> nat" where
  "ws_suffix_rev [] = 0"
| "ws_suffix_rev (a # s) =
     (if ascii_ws a then 1
      else case s of [] \<Rightarrow> 0 | b # s' \<Rightarrow>
        if ws2 b a then 2
        else case s' of [] \<Rightarrow> 0 | c # _ \<Rightarrow> if ws3 c b a then 3 else 0)"

function strip_ws :: "(string \<Rightarrow> nat) \<Rightarrow> string \<Rightarrow> string" where
  "strip_ws f s = (if f s = 0 \<or> s = [] then s else strip_ws f (drop (f s) s))"
  by pat_completeness auto
termination
  by (relation "measure (\<lambda>(f, s). length s)") auto

declare strip_ws.simps [simp del]

definition trim_start :: "string \<Rightarrow> string" where
  "trim_start s = strip_ws ws_prefix s"

definition trim_end :: "string \<Rightarrow> string" where
  "trim_end s = rev (strip_ws ws_suffix_rev (rev s))"

definition trim :: "string \<Rightarrow> string" where
  "trim s = trim_end (trim_start s)"

text \<open>A string whose first and last bytes are printable ASCII is its own trimming.\<close>

definition graph :: "char \<Rightarrow> bool" where
  "graph c \<longleftrightarrow> 32 < code c \<and> code c < 127"

lemma ws_prefix_graph: "graph a \<Longrightarrow> ws_prefix (a # s) = 0"
  by (auto simp: graph_def ascii_ws_def ws2_def ws3_def split: list.splits)

lemma ws_suffix_graph: "graph a \<Longrightarrow> ws_suffix_rev (a # s) = 0"
  by (auto simp: graph_def ascii_ws_def ws2_def ws3_def split: list.splits)

lemma trim_graph: "s = [] \<or> (graph (hd s) \<and> graph (last s)) \<Longrightarrow> trim s = s"
proof -
  assume h: "s = [] \<or> (graph (hd s) \<and> graph (last s))"
  have "trim_start s = s"
    using h by (cases s) (auto simp: trim_start_def strip_ws.simps ws_prefix_graph simp del: ws_prefix.simps)
  moreover have "trim_end s = s"
    using h by (cases s rule: rev_cases)
      (auto simp: trim_end_def strip_ws.simps ws_suffix_graph simp del: ws_suffix_rev.simps)
  ultimately show ?thesis by (simp add: trim_def)
qed

section \<open>Splitting once and numbers\<close>

text \<open>\<^verbatim>\<open>str::split_once(sep)\<close>.\<close>

fun split_once :: "char \<Rightarrow> string \<Rightarrow> (string \<times> string) option" where
  "split_once d [] = None"
| "split_once d (c # cs) =
     (if c = d then Some ([], cs) else map_option (apfst ((#) c)) (split_once d cs))"

lemma split_once_sep: "d \<notin> set k \<Longrightarrow> split_once d (k @ d # v) = Some (k, v)"
  by (induction k) auto

lemma split_once_no_sep: "d \<notin> set k \<Longrightarrow> split_once d k = None"
  by (induction k) auto

text \<open>\<^verbatim>\<open>from_str_radix\<close> and \<^verbatim>\<open>parse::<uN>()\<close> of an unsigned type with \<open>bound\<close> values: an
  optional plus sign, at least one digit, no overflow.\<close>

definition to_digit :: "nat \<Rightarrow> char \<Rightarrow> nat option" where
  "to_digit radix c =
     (let n = code c;
          d = (if 48 \<le> n \<and> n \<le> 57 then Some (n - 48)
               else if 97 \<le> n \<and> n \<le> 122 then Some (n - 87)
               else if 65 \<le> n \<and> n \<le> 90 then Some (n - 55) else None)
      in case d of Some v \<Rightarrow> if v < radix then Some v else None | None \<Rightarrow> None)"

fun parse_digits :: "nat \<Rightarrow> nat \<Rightarrow> nat \<Rightarrow> string \<Rightarrow> nat option" where
  "parse_digits bound radix acc [] = Some acc"
| "parse_digits bound radix acc (c # cs) =
     (case to_digit radix c of None \<Rightarrow> None
      | Some d \<Rightarrow> if acc * radix + d < bound then parse_digits bound radix (acc * radix + d) cs else None)"

definition parse_uint :: "nat \<Rightarrow> nat \<Rightarrow> string \<Rightarrow> nat option" where
  "parse_uint bound radix s =
     (case s of [] \<Rightarrow> None
      | c # cs \<Rightarrow>
          if c = CHR ''+'' then (if cs = [] then None else parse_digits bound radix 0 cs)
          else parse_digits bound radix 0 s)"

lemma parse_digits_bound: "parse_digits bound radix acc s = Some n \<Longrightarrow> acc < bound \<Longrightarrow> n < bound"
  by (induction s arbitrary: acc) (auto split: option.splits if_splits)

lemma parse_uint_bound:
  assumes "parse_uint bound radix s = Some n" and "0 < bound"
  shows "n < bound"
  using assms parse_digits_bound [of bound radix 0]
  by (auto simp: parse_uint_def simp del: parse_digits.simps split: list.splits if_splits)

lemma parse_digits_append:
  "parse_digits bound radix acc (s @ t) =
     Option.bind (parse_digits bound radix acc s) (\<lambda>a. parse_digits bound radix a t)"
  by (induction s arbitrary: acc) (auto split: option.splits)

text \<open>The decimal digits the program prints, least significant last.\<close>

definition digit_char :: "nat \<Rightarrow> char" where
  "digit_char d = char_of (48 + d)"

function decimal_loop :: "nat \<Rightarrow> string \<Rightarrow> string" where
  "decimal_loop v acc =
     (let acc' = digit_char (v mod 10) # acc
      in if v div 10 = 0 then acc' else decimal_loop (v div 10) acc')"
  by pat_completeness auto
termination
  by (relation "measure fst") auto

declare decimal_loop.simps [simp del]

lemma code_digit_char: "d < 10 \<Longrightarrow> code (digit_char d) = 48 + d"
  by (simp add: code_def digit_char_def)

lemma to_digit_digit_char: "d < 10 \<Longrightarrow> to_digit 10 (digit_char d) = Some d"
  by (simp add: to_digit_def code_digit_char)

lemma decimal_loop_append: "decimal_loop v acc = decimal_loop v [] @ acc"
proof (induction v arbitrary: acc rule: less_induct)
  case (less v)
  show ?case
  proof (cases "v div 10 = 0")
    case True
    then show ?thesis by (simp add: decimal_loop.simps [of v])
  next
    case False
    then have "v div 10 < v" by simp
    then have "decimal_loop (v div 10) acc' = decimal_loop (v div 10) [] @ acc'" for acc'
      by (rule less)
    from this [of "digit_char (v mod 10) # acc"] this [of "[digit_char (v mod 10)]"] False
    show ?thesis by (simp add: decimal_loop.simps [of v])
  qed
qed

lemma decimal_loop_Nil:
  "decimal_loop v [] =
     (if v < 10 then [digit_char v] else decimal_loop (v div 10) [] @ [digit_char (v mod 10)])"
  using decimal_loop_append [of "v div 10" "[digit_char (v mod 10)]"]
  by (auto simp: decimal_loop.simps [of v] Let_def div_eq_0_iff)

lemma parse_digits_decimal:
  "v < bound \<Longrightarrow> parse_digits bound 10 0 (decimal_loop v []) = Some v"
proof (induction v rule: less_induct)
  case (less v)
  show ?case
  proof (cases "v < 10")
    case True
    then show ?thesis
      using less.prems by (simp add: decimal_loop_Nil to_digit_digit_char)
  next
    case False
    then have "parse_digits bound 10 0 (decimal_loop (v div 10) []) = Some (v div 10)"
      using less by simp
    then show ?thesis
      using False less.prems
      by (subst decimal_loop_Nil) (simp add: parse_digits_append to_digit_digit_char)
  qed
qed

lemma decimal_loop_digits: "c \<in> set (decimal_loop v []) \<Longrightarrow> 48 \<le> code c \<and> code c \<le> 57"
proof (induction v rule: less_induct)
  case (less v)
  show ?case
  proof (cases "v < 10")
    case True
    then show ?thesis
      using less.prems by (simp add: decimal_loop_Nil code_digit_char)
  next
    case False
    then have "c \<in> set (decimal_loop (v div 10) []) \<or> c = digit_char (v mod 10)"
      using less.prems by (subst (asm) decimal_loop_Nil) auto
    then show ?thesis
      using less.IH [of "v div 10"] False by (auto simp: code_digit_char)
  qed
qed

lemma decimal_loop_not_Nil [simp]: "decimal_loop v [] \<noteq> []"
  by (subst decimal_loop_Nil) simp

lemma length_decimal_loop: "v < 1000 \<Longrightarrow> length (decimal_loop v []) \<le> 3"
  by (subst decimal_loop_Nil, subst decimal_loop_Nil, subst decimal_loop_Nil) auto

lemma parse_uint_decimal: "v < bound \<Longrightarrow> parse_uint bound 10 (decimal_loop v []) = Some v"
proof -
  assume v: "v < bound"
  obtain c cs where c: "decimal_loop v [] = c # cs"
    by (cases "decimal_loop v []") auto
  then have "code c \<noteq> code CHR ''+''"
    using decimal_loop_digits [of c v] by (auto simp: code_def)
  then have "c \<noteq> CHR ''+''" by auto
  then show ?thesis
    using parse_digits_decimal [OF v] c by (simp add: parse_uint_def)
qed

lemma trim_decimal: "trim (decimal_loop v []) = decimal_loop v []"
proof (rule trim_graph, rule disjI2)
  have "graph c" if "c \<in> set (decimal_loop v [])" for c
    using decimal_loop_digits [OF that] by (simp add: graph_def)
  then show "graph (hd (decimal_loop v [])) \<and> graph (last (decimal_loop v []))"
    by simp
qed

end
