(* ===== verification/Slots.thy ===== *)
theory Slots
  imports Text
begin

text \<open>
  The record of the A/B system slots (\<^verbatim>\<open>crates/slots/src/lib.rs\<close>) and the boot loader's use of
  it (\<^verbatim>\<open>crates/boot-uefi/src/slot.rs\<close>): which system boots next, how many attempts it has
  left, and where to return when it never confirms itself.  The record is a text of a few
  lines with a CRC-32, padded with zero bytes to one sector; the file holds two copies.
\<close>

section \<open>Constants and data\<close>

definition RECORD_SIZE :: nat where
  "RECORD_SIZE = 512"

definition FILE_SIZE :: nat where
  "FILE_SIZE = 2 * RECORD_SIZE"

definition DEFAULT_TRIES :: u8 where
  "DEFAULT_TRIES = 3"

datatype slot = SlotA | SlotB

fun other :: "slot \<Rightarrow> slot" where
  "other SlotA = SlotB"
| "other SlotB = SlotA"

fun letter :: "slot \<Rightarrow> string" where
  "letter SlotA = ''a''"
| "letter SlotB = ''b''"

definition slot_from_code :: "u8 \<Rightarrow> slot option" where
  "slot_from_code c = (if c = 1 then Some SlotA else if c = 2 then Some SlotB else None)"

fun slot_code :: "slot \<Rightarrow> u8" where
  "slot_code SlotA = 1"
| "slot_code SlotB = 2"

definition slot_parse :: "string \<Rightarrow> slot option" where
  "slot_parse text =
     (if text = ''a'' \<or> text = ''A'' then Some SlotA
      else if text = ''b'' \<or> text = ''B'' then Some SlotB else None)"

record slot_state =
  active :: slot
  previous :: slot
  tries :: u8
  confirmed :: bool
  rolled_back :: bool

datatype attempt =
  Confirmed slot
| Trying slot u8
| RolledBack slot slot u8

fun attempt_slot :: "attempt \<Rightarrow> slot" where
  "attempt_slot (Confirmed s) = s"
| "attempt_slot (Trying s left) = s"
| "attempt_slot (RolledBack to from left) = to"

section \<open>The state machine\<close>

definition fresh :: slot_state where
  "fresh = \<lparr>active = SlotA, previous = SlotA, tries = DEFAULT_TRIES,
            confirmed = True, rolled_back = False\<rparr>"

definition begin_boot :: "slot_state \<Rightarrow> attempt \<times> slot_state" where
  "begin_boot s =
     (if confirmed s then (Confirmed (active s), s\<lparr>tries := DEFAULT_TRIES\<rparr>)
      else
        let s1 = (if tries s = 0
                  then s\<lparr>active := previous s, previous := active s, tries := DEFAULT_TRIES,
                         rolled_back := True, confirmed := False\<rparr>
                  else s);
            s2 = s1\<lparr>tries := (if tries s1 = 0 then 0 else tries s1 - 1)\<rparr>
        in (if rolled_back s2 then RolledBack (active s2) (previous s2) (tries s2)
            else Trying (active s2) (tries s2), s2))"

definition confirm :: "slot_state \<Rightarrow> bool \<times> slot_state" where
  "confirm s =
     (if confirmed s \<and> tries s = DEFAULT_TRIES \<and> \<not> rolled_back s then (False, s)
      else (True, s\<lparr>confirmed := True, tries := DEFAULT_TRIES, rolled_back := False\<rparr>))"

definition switch_to_new :: "slot_state \<Rightarrow> slot_state" where
  "switch_to_new s =
     s\<lparr>previous := active s, active := other (active s), tries := DEFAULT_TRIES,
       confirmed := False, rolled_back := False\<rparr>"

section \<open>The record on disk\<close>

definition crc_bit :: "u32 \<Rightarrow> u32" where
  "crc_bit crc = (let mask = - (crc AND 1) in drop_bit 1 crc XOR (0xEDB88320 AND mask))"

definition crc32 :: "string \<Rightarrow> u32" where
  "crc32 bytes =
     NOT (foldl (\<lambda>crc b. (crc_bit ^^ 8) (crc XOR of_nat (code b))) 0xFFFFFFFF bytes)"

definition put :: "string \<Rightarrow> nat \<Rightarrow> string \<Rightarrow> string \<times> nat" where
  "put out at text =
     (let len = min (length text) (RECORD_SIZE - at) in (blit at (take len text) out, len))"

fun put_all :: "string \<Rightarrow> nat \<Rightarrow> string list \<Rightarrow> string \<times> nat" where
  "put_all out at [] = (out, at)"
| "put_all out at (p # ps) = (let (out', len) = put out at p in put_all out' (at + len) ps)"

definition decimal :: "u8 \<Rightarrow> string" where
  "decimal value = decimal_loop (unat value) []"

definition hex32 :: "u32 \<Rightarrow> string" where
  "hex32 value =
     map (\<lambda>index. ''0123456789abcdef'' ! unat (drop_bit (28 - index * 4) value AND 0xF)) [0..<8]"

definition body_pieces :: "slot_state \<Rightarrow> string list" where
  "body_pieces s =
     [''# FossAi slot state; the bootloader rewrites this on every boot'' @ [LF],
      ''active='', letter (active s), [LF] @ ''previous='', letter (previous s),
      [LF] @ ''tries='', decimal (tries s), [LF] @ ''confirmed='',
      (if confirmed s then ''1'' else ''0''), [LF] @ ''rolledback='',
      (if rolled_back s then ''1'' else ''0''), [LF]]"

definition write_record :: "slot_state \<Rightarrow> string" where
  "write_record s =
     (let (out, at) = put_all (replicate RECORD_SIZE (CHR 0x00)) 0 (body_pieces s);
          crc = crc32 (take at out)
      in fst (put_all out at [''crc='', hex32 crc, [LF]]))"

definition slots_write :: "slot_state \<Rightarrow> string" where
  "slots_write s = (let record = write_record s in record @ record)"

text \<open>The local variables of \<^verbatim>\<open>parse_record\<close>, and its loop over the lines of the record: the
  first line that starts with \<^verbatim>\<open>crc=\<close> ends it.\<close>

record scan =
  sc_active :: "slot option"
  sc_previous :: "slot option"
  sc_tries :: "u8 option"
  sc_confirmed :: "bool option"
  sc_rolled_back :: bool
  sc_crc :: "u32 option"
  sc_covered :: nat

definition scan_start :: scan where
  "scan_start = \<lparr>sc_active = None, sc_previous = None, sc_tries = None, sc_confirmed = None,
     sc_rolled_back = False, sc_crc = None, sc_covered = 0\<rparr>"

definition scan_key :: "string \<Rightarrow> string \<Rightarrow> scan \<Rightarrow> scan" where
  "scan_key key value a =
     (if key = ''active'' then a\<lparr>sc_active := slot_parse value\<rparr>
      else if key = ''previous'' then a\<lparr>sc_previous := slot_parse value\<rparr>
      else if key = ''tries'' then a\<lparr>sc_tries := map_option of_nat (parse_uint 256 10 value)\<rparr>
      else if key = ''confirmed'' then a\<lparr>sc_confirmed := Some (value = ''1'')\<rparr>
      else if key = ''rolledback'' then a\<lparr>sc_rolled_back := (value = ''1'')\<rparr>
      else a)"

fun scan_lines :: "string list \<Rightarrow> scan \<Rightarrow> scan" where
  "scan_lines [] a = a"
| "scan_lines (line # rest) a =
     (let trimmed = trim line in
      case strip_prefix ''crc='' trimmed of
        Some value \<Rightarrow> a\<lparr>sc_crc := map_option of_nat (parse_uint (2 ^ 32) 16 (trim value))\<rparr>
      | None \<Rightarrow>
          let a' = a\<lparr>sc_covered := sc_covered a + (length line + 1)\<rparr> in
          case split_once (CHR ''='') trimmed of
            None \<Rightarrow> scan_lines rest a'
          | Some (key, value) \<Rightarrow> scan_lines rest (scan_key (trim key) (trim value) a'))"

declare scan_lines.simps(2) [simp del]

definition parse_record :: "string \<Rightarrow> slot_state option" where
  "parse_record record =
     (let stop = (case position (\<lambda>b. b = CHR 0x00) record of Some i \<Rightarrow> i | None \<Rightarrow> length record);
          text = take stop record
      in if \<not> utf8_valid text then None
         else let a = scan_lines (str_lines text) scan_start in
           case sc_crc a of
             None \<Rightarrow> None
           | Some stored_crc \<Rightarrow>
               if length text < sc_covered a \<or> crc32 (take (sc_covered a) record) \<noteq> stored_crc
               then None
               else (case (sc_active a, sc_previous a, sc_tries a, sc_confirmed a) of
                   (Some act, Some prv, Some t, Some c) \<Rightarrow>
                     Some \<lparr>active = act, previous = prv, tries = t, confirmed = c,
                           rolled_back = sc_rolled_back a\<rparr>
                 | _ \<Rightarrow> None))"

definition slots_parse :: "string \<Rightarrow> slot_state option" where
  "slots_parse file =
     (if length file < RECORD_SIZE then None
      else case parse_record (take RECORD_SIZE file) of
        Some s \<Rightarrow> Some s
      | None \<Rightarrow> if length file < FILE_SIZE then None
                else parse_record (subrange RECORD_SIZE FILE_SIZE file))"

section \<open>The boot loader\<close>

text \<open>
  A write of one sector either reaches the disk, or fails (an error of the firmware, or the
  power going) and leaves the sector holding anything.  \<open>write_whole\<close> writes the spare copy
  and then the primary one, each flushed, and stops at the first failure.
\<close>

datatype sector_write = Written | Failed string

fun write_copies :: "nat list \<Rightarrow> sector_write list \<Rightarrow> string \<Rightarrow> string \<Rightarrow> bool \<times> string" where
  "write_copies [] ws record file = (True, file)"
| "write_copies (off # offs) (Written # ws) record file =
     write_copies offs ws record (blit off record file)"
| "write_copies (off # offs) (Failed junk # ws) record file = (False, blit off junk file)"
| "write_copies (off # offs) [] record file = (False, file)"

definition write_whole :: "sector_write list \<Rightarrow> slot_state \<Rightarrow> string \<Rightarrow> bool \<times> string" where
  "write_whole ws s file = write_copies [RECORD_SIZE, 0] ws (write_record s) file"

record choice =
  ch_slot :: "slot option"
  ch_tries_left :: u8
  ch_rolled_back :: bool

definition choice_none :: choice where
  "choice_none = \<lparr>ch_slot = None, ch_tries_left = 0, ch_rolled_back = False\<rparr>"

text \<open>\<open>file\<close> is what the volume holds under the record's path, \<open>None\<close> when there is no such
  file; a file the firmware cannot read to \<open>FILE_SIZE\<close> bytes is unreadable.\<close>

definition read_whole :: "string \<Rightarrow> string option" where
  "read_whole file = (if FILE_SIZE \<le> length file then Some (take FILE_SIZE file) else None)"

definition choose_slot :: "sector_write list \<Rightarrow> string option \<Rightarrow> choice \<times> string option" where
  "choose_slot ws file =
     (case file of
        None \<Rightarrow> (choice_none, file)
      | Some content \<Rightarrow>
          (case read_whole content of
             None \<Rightarrow> (choice_none, file)
           | Some bytes \<Rightarrow>
               (case slots_parse bytes of
                  None \<Rightarrow> (choice_none, file)
                | Some s \<Rightarrow>
                    (let (att, s') = begin_boot s;
                         (ok, after) = write_whole ws s' content
                     in (\<lparr>ch_slot = Some (attempt_slot att), ch_tries_left = tries s',
                          ch_rolled_back = rolled_back s'\<rparr>, Some after)))))"

section \<open>The running system\<close>

text \<open>
  \<^verbatim>\<open>crates/kernel/src/slot.rs\<close>: the record is read like the boot loader reads it; it is written
  by \<^verbatim>\<open>fat32::overwrite_file_path\<close>, sector by sector from the start of the file, so here the
  primary copy comes first.  \<open>booted\<close> is the slot the running system came from.
\<close>

definition kernel_read_state :: "string \<Rightarrow> slot_state option" where
  "kernel_read_state file =
     (case read_whole file of None \<Rightarrow> None | Some bytes \<Rightarrow> slots_parse bytes)"

definition kernel_write_state :: "sector_write list \<Rightarrow> slot_state \<Rightarrow> string \<Rightarrow> bool \<times> string" where
  "kernel_write_state ws s file =
     (if length file \<noteq> FILE_SIZE then (False, file)
      else write_copies [0, RECORD_SIZE] ws (write_record s) file)"

definition kernel_confirm :: "sector_write list \<Rightarrow> slot option \<Rightarrow> string \<Rightarrow> string" where
  "kernel_confirm ws booted file =
     (if booted = None then file
      else case kernel_read_state file of
        None \<Rightarrow> file
      | Some s \<Rightarrow> (let (changed, s') = confirm s in
                   if \<not> changed then file else snd (kernel_write_state ws s' file)))"

text \<open>The part of \<^verbatim>\<open>apply\<close> that deals with the slots: which partition and files the update is
  written to, and the record it leaves when everything before has succeeded.\<close>

definition apply_target :: "slot option \<Rightarrow> string \<Rightarrow> slot option" where
  "apply_target booted file =
     (case booted of
        None \<Rightarrow> None
      | Some b \<Rightarrow> map_option (\<lambda>current. other (active current)) (kernel_read_state file))"

definition apply_switch :: "sector_write list \<Rightarrow> slot option \<Rightarrow> string \<Rightarrow> slot option \<times> string" where
  "apply_switch ws booted file =
     (case booted of
        None \<Rightarrow> (None, file)
      | Some b \<Rightarrow>
          (case kernel_read_state file of
             None \<Rightarrow> (None, file)
           | Some current \<Rightarrow>
               (let next = switch_to_new current; (ok, after) = kernel_write_state ws next file
                in (if ok then Some (active next) else None, after))))"

section \<open>Writing and reading a record\<close>

lemma unat_nibble:
  "unat (drop_bit n (v :: u32)) = unat (drop_bit (n + 4) v) * 16 + unat (drop_bit n v AND 0xF)"
proof -
  have "drop_bit (n + 4) v = drop_bit 4 (drop_bit n v)"
    by (simp add: add.commute)
  moreover have "drop_bit n v AND 0xF = take_bit 4 (drop_bit n v)"
    by (simp add: take_bit_eq_mask mask_eq_exp_minus_1)
  ultimately show ?thesis
    by (simp add: drop_bit_eq_div take_bit_eq_mod unat_div unat_mod)
qed

definition hex_digit :: "u32 \<Rightarrow> char" where
  "hex_digit w = ''0123456789abcdef'' ! unat (w AND 0xF)"

lemma nibble_less: "unat ((w :: u32) AND 0xF) < 16"
proof -
  have "w AND 0xF = take_bit 4 w"
    by (simp add: take_bit_eq_mask mask_eq_exp_minus_1)
  then show ?thesis
    by (simp add: take_bit_eq_mod unat_mod)
qed

lemma less_16_cases:
  "(k::nat) < 16 \<Longrightarrow> k \<in> {0, 1, 2, 3, 4, 5, 6, 7, 8, 9, 10, 11, 12, 13, 14, 15}"
  unfolding insert_iff empty_iff by presburger

lemma to_digit_hex: "to_digit 16 (hex_digit w) = Some (unat (w AND 0xF))"
  using less_16_cases [OF nibble_less [of w]]
  by (auto simp: hex_digit_def to_digit_def code_def)

lemma graph_hex: "graph (hex_digit w)"
  using less_16_cases [OF nibble_less [of w]]
  by (auto simp: hex_digit_def graph_def code_def)

lemma hex_digit_ne: "hex_digit w \<noteq> CHR ''+''" "hex_digit w \<noteq> CHR 0x00"
  using less_16_cases [OF nibble_less [of w]] by (auto simp: hex_digit_def)

fun hex_digits :: "nat \<Rightarrow> u32 \<Rightarrow> string" where
  "hex_digits 0 v = []"
| "hex_digits (Suc k) v = hex_digit (drop_bit (4 * k) v) # hex_digits k v"

lemma hex32_eq: "hex32 v = hex_digits 8 v"
  by (simp add: hex32_def hex_digit_def eval_nat_numeral upt_rec)

lemma hex_digits_set: "c \<in> set (hex_digits k v) \<Longrightarrow> \<exists>w. c = hex_digit w"
  by (induction k) auto

lemma length_hex_digits [simp]: "length (hex_digits k v) = k"
  by (induction k) auto

lemma parse_hex_digits:
  "parse_digits (2 ^ 32) 16 (unat (drop_bit (4 * k) v)) (hex_digits k v) = Some (unat v)"
proof (induction k)
  case (Suc k)
  have "unat (drop_bit (4 * Suc k) v) * 16 + unat (drop_bit (4 * k) v AND 0xF) =
        unat (drop_bit (4 * k) v)"
    using unat_nibble [of "4 * k" v] by (simp add: add.commute)
  moreover have "unat (drop_bit (4 * k) v) < 2 ^ 32"
    by (rule unat_u32)
  ultimately show ?case
    using Suc by (simp add: to_digit_hex del: One_nat_def)
qed simp

lemma parse_hex32: "parse_uint (2 ^ 32) 16 (hex32 v) = Some (unat v)"
proof -
  have z: "drop_bit (4 * 8) v = 0"
    by (rule bit_word_eqI) (simp add: bit_simps)
  obtain cs where c: "hex_digits 8 v = hex_digit (drop_bit 28 v) # cs"
    by (simp add: eval_nat_numeral)
  show ?thesis
    using parse_hex_digits [of 8 v] hex_digit_ne c
    by (simp add: parse_uint_def hex32_eq z)
qed

lemma trim_hex32: "trim (hex32 v) = hex32 v"
proof (rule trim_graph, rule disjI2)
  have "graph c" if "c \<in> set (hex32 v)" for c
    using that hex_digits_set graph_hex unfolding hex32_eq by blast
  moreover have "hex32 v \<noteq> []"
    by (simp add: hex32_def)
  ultimately show "graph (hd (hex32 v)) \<and> graph (last (hex32 v))"
    by simp
qed

definition body_lines :: "slot_state \<Rightarrow> string list" where
  "body_lines s =
     [''# FossAi slot state; the bootloader rewrites this on every boot'',
      ''active='' @ letter (active s), ''previous='' @ letter (previous s),
      ''tries='' @ decimal (tries s),
      ''confirmed='' @ (if confirmed s then ''1'' else ''0''),
      ''rolledback='' @ (if rolled_back s then ''1'' else ''0'')]"

definition body :: "slot_state \<Rightarrow> string" where
  "body s = concat (map (\<lambda>l. l @ [LF]) (body_lines s))"

definition crc_line :: "u32 \<Rightarrow> string" where
  "crc_line c = ''crc='' @ hex32 c"

lemma concat_body_pieces: "concat (body_pieces s) = body s"
  by (simp add: body_pieces_def body_def body_lines_def)

lemma put_fill:
  assumes "length pre = at" and "at + length p \<le> RECORD_SIZE"
  shows "put (pre @ replicate (RECORD_SIZE - at) z) at p =
         ((pre @ p) @ replicate (RECORD_SIZE - (at + length p)) z, length p)"
  using assms by (auto simp: put_def blit_def Let_def)

lemma put_all_fill:
  "length pre = at \<Longrightarrow> at + length (concat ps) \<le> RECORD_SIZE \<Longrightarrow>
   put_all (pre @ replicate (RECORD_SIZE - at) z) at ps =
     ((pre @ concat ps) @ replicate (RECORD_SIZE - (at + length (concat ps))) z,
      at + length (concat ps))"
proof (induction ps arbitrary: pre at)
  case (Cons p ps)
  then have "put (pre @ replicate (RECORD_SIZE - at) z) at p =
      ((pre @ p) @ replicate (RECORD_SIZE - (at + length p)) z, length p)"
    by (intro put_fill) auto
  moreover have "put_all ((pre @ p) @ replicate (RECORD_SIZE - (at + length p)) z) (at + length p) ps =
      (((pre @ p) @ concat ps) @ replicate (RECORD_SIZE - ((at + length p) + length (concat ps))) z,
       (at + length p) + length (concat ps))"
    using Cons.prems by (intro Cons.IH) auto
  ultimately show ?case by (simp add: add.assoc)
qed simp

lemma length_letter [simp]: "length (letter s) = 1"
  by (cases s) simp_all

lemma length_decimal: "length (decimal v) \<le> 3"
  using length_decimal_loop [of "unat v"] unat_u8 [of v] by (simp add: decimal_def)

lemma length_body: "length (body s) \<le> 130"
  using length_decimal [of "tries s"] by (simp add: body_def body_lines_def)

lemma write_record_eq:
  "write_record s =
     (body s @ crc_line (crc32 (body s)) @ [LF]) @
     replicate (RECORD_SIZE - (length (body s) + 13)) (CHR 0x00)"
proof -
  have take_append_length: "take (length a) (a @ b) = a" for a b :: string
    by simp
  have 1: "put_all (replicate RECORD_SIZE (CHR 0x00)) 0 (body_pieces s) =
      (body s @ replicate (RECORD_SIZE - length (body s)) (CHR 0x00), length (body s))"
    using put_all_fill [of "[]" 0 "body_pieces s" "CHR 0x00"] length_body [of s]
    by (simp add: concat_body_pieces RECORD_SIZE_def)
  have 2: "put_all (body s @ replicate (RECORD_SIZE - length (body s)) (CHR 0x00)) (length (body s))
        [''crc='', hex32 c, [LF]] =
      ((body s @ crc_line c @ [LF]) @ replicate (RECORD_SIZE - (length (body s) + 13)) (CHR 0x00),
       length (body s) + 13)" for c
    using put_all_fill [of "body s" "length (body s)" "[''crc='', hex32 c, [LF]]" "CHR 0x00"]
      length_body [of s]
    by (simp add: crc_line_def RECORD_SIZE_def hex32_eq)
  show ?thesis
    by (simp only: write_record_def 1 2 split_conv Let_def fst_conv take_append_length)
qed

lemma length_write_record [simp]: "length (write_record s) = RECORD_SIZE"
  using length_body [of s]
  by (simp add: write_record_eq crc_line_def hex32_eq RECORD_SIZE_def)

lemma decimal_chars: "c \<in> set (decimal v) \<Longrightarrow> 48 \<le> code c \<and> code c \<le> 57"
  unfolding decimal_def by (rule decimal_loop_digits)

lemma decimal_free: "LF \<notin> set (decimal v)" "CR \<notin> set (decimal v)" "CHR 0x00 \<notin> set (decimal v)"
  using decimal_chars [of _ v] by (fastforce simp: code_def)+

lemma hex32_free: "LF \<notin> set (hex32 v)" "CR \<notin> set (hex32 v)" "CHR 0x00 \<notin> set (hex32 v)"
proof -
  have "graph c" if "c \<in> set (hex32 v)" for c
    using that hex_digits_set graph_hex unfolding hex32_eq by blast
  then show "LF \<notin> set (hex32 v)" "CR \<notin> set (hex32 v)" "CHR 0x00 \<notin> set (hex32 v)"
    by (fastforce simp: graph_def code_def)+
qed

lemma body_lines_free: "\<forall>l\<in>set (body_lines s). LF \<notin> set l \<and> CR \<notin> set l"
  using decimal_free [of "tries s"]
  by (cases "active s"; cases "previous s") (auto simp: body_lines_def)

lemma body_no_nul: "CHR 0x00 \<notin> set (body s)"
  using decimal_free [of "tries s"]
  by (cases "active s"; cases "previous s") (auto simp: body_def body_lines_def)

lemma is_ascii_chars: "(\<And>c. c \<in> set s \<Longrightarrow> code c < 128) \<Longrightarrow> is_ascii s"
  by (simp add: is_ascii_def list_all_iff)

lemma body_ascii: "is_ascii (body s)"
proof -
  have "is_ascii (decimal (tries s))"
    using decimal_chars by (intro is_ascii_chars) force
  then show ?thesis
    by (cases "active s"; cases "previous s") (auto simp: body_def body_lines_def code_def)
qed

lemma hex32_ascii: "is_ascii (hex32 v)"
proof (rule is_ascii_chars)
  fix c
  assume "c \<in> set (hex32 v)"
  then obtain w where "c = hex_digit w"
    using hex_digits_set unfolding hex32_eq by blast
  then show "code c < 128"
    using graph_hex [of w] by (simp add: graph_def)
qed

text \<open>One line of the record, scanned.\<close>

lemma graph_literals [simp]:
  "graph CHR ''a''" "graph CHR ''e''" "graph CHR ''p''" "graph CHR ''s''" "graph CHR ''t''"
  "graph CHR ''c''" "graph CHR ''d''" "graph CHR ''r''" "graph CHR ''k''" "graph CHR ''#''"
  "graph CHR ''0''" "graph CHR ''1''" "graph CHR ''b''"
  by (simp_all add: graph_def code_def)

lemma trim_append: "graph (hd k) \<Longrightarrow> k \<noteq> [] \<Longrightarrow> graph (last v) \<Longrightarrow> v \<noteq> [] \<Longrightarrow> trim (k @ v) = k @ v"
  by (rule trim_graph) simp

lemma scan_key_value:
  assumes "k \<noteq> []" and "graph (hd k)" and "graph (last k)" and "CHR ''='' \<notin> set k"
    and "v \<noteq> []" and "graph (hd v)" and "graph (last v)"
    and "strip_prefix ''crc='' (k @ CHR ''='' # v) = None" and "n = length k + length v + 2"
  shows "scan_lines ((k @ CHR ''='' # v) # rest) a =
    scan_lines rest (scan_key k v (a\<lparr>sc_covered := sc_covered a + n\<rparr>))"
proof -
  have "trim (k @ CHR ''='' # v) = k @ CHR ''='' # v"
    using assms by (intro trim_append) simp_all
  moreover have "trim k = k" "trim v = v"
    using assms by (simp_all add: trim_graph)
  ultimately show ?thesis
    using assms by (simp add: scan_lines.simps(2) split_once_sep)
qed

lemma graph_decimal: "decimal v \<noteq> []" "graph (hd (decimal v))" "graph (last (decimal v))"
proof -
  show ne: "decimal v \<noteq> []" by (simp add: decimal_def)
  have "graph c" if "c \<in> set (decimal v)" for c
    using decimal_chars [OF that] by (simp add: graph_def)
  then show "graph (hd (decimal v))" "graph (last (decimal v))"
    using ne by simp_all
qed

lemma graph_letter: "letter s \<noteq> []" "graph (hd (letter s))" "graph (last (letter s))"
  by (cases s; simp)+

lemma slot_parse_letter: "slot_parse (letter s) = Some s"
  by (cases s) (simp_all add: slot_parse_def)

definition scanned :: "slot_state \<Rightarrow> nat \<Rightarrow> scan" where
  "scanned s n = \<lparr>sc_active = Some (active s), sc_previous = Some (previous s),
     sc_tries = Some (tries s), sc_confirmed = Some (confirmed s),
     sc_rolled_back = rolled_back s, sc_crc = None, sc_covered = n\<rparr>"

lemma parse_decimal: "parse_uint 256 10 (decimal v) = Some (unat v)"
  using unat_u8 [of v] by (simp add: decimal_def parse_uint_decimal)

lemma scan_comment:
  "scan_lines (''# FossAi slot state; the bootloader rewrites this on every boot'' # rest) a =
     scan_lines rest (a\<lparr>sc_covered := sc_covered a + 64\<rparr>)" (is "scan_lines (?c # rest) a = _")
proof -
  have "trim ?c = ?c" by (rule trim_graph) simp
  moreover have "length ?c + 1 = 64" "strip_prefix ''crc='' ?c = None" "split_once (CHR ''='') ?c = None"
    by simp_all
  ultimately show ?thesis by (simp only: scan_lines.simps(2) Let_def option.case)
qed

lemma scan_active:
  "scan_lines ((''active='' @ letter x) # rest) a =
     scan_lines rest (a\<lparr>sc_covered := sc_covered a + 9, sc_active := Some x\<rparr>)"
  using scan_key_value [of "''active''" "letter x" 9 rest a]
  by (simp add: slot_parse_letter graph_letter scan_key_def)

lemma scan_previous:
  "scan_lines ((''previous='' @ letter x) # rest) a =
     scan_lines rest (a\<lparr>sc_covered := sc_covered a + 11, sc_previous := Some x\<rparr>)"
  using scan_key_value [of "''previous''" "letter x" 11 rest a]
  by (simp add: slot_parse_letter graph_letter scan_key_def)

lemma scan_tries:
  "scan_lines ((''tries='' @ decimal t) # rest) a =
     scan_lines rest (a\<lparr>sc_covered := sc_covered a + (length (decimal t) + 7), sc_tries := Some t\<rparr>)"
  using scan_key_value [of "''tries''" "decimal t" "length (decimal t) + 7" rest a]
  by (simp add: parse_decimal graph_decimal scan_key_def)

lemma scan_confirmed:
  "scan_lines ((''confirmed='' @ (if b then ''1'' else ''0'')) # rest) a =
     scan_lines rest (a\<lparr>sc_covered := sc_covered a + 12, sc_confirmed := Some b\<rparr>)"
  using scan_key_value [of "''confirmed''" "if b then ''1'' else ''0''" 12 rest a]
  by (cases b) (simp_all add: scan_key_def)

lemma scan_rolledback:
  "scan_lines ((''rolledback='' @ (if b then ''1'' else ''0'')) # rest) a =
     scan_lines rest (a\<lparr>sc_covered := sc_covered a + 13, sc_rolled_back := b\<rparr>)"
  using scan_key_value [of "''rolledback''" "if b then ''1'' else ''0''" 13 rest a]
  by (cases b) (simp_all add: scan_key_def)

lemma scan_crc:
  "scan_lines [crc_line c] a = a\<lparr>sc_crc := Some c\<rparr>"
proof -
  have ne: "hex32 c \<noteq> []" "graph (last (hex32 c))"
    using graph_hex by (simp_all add: hex32_eq eval_nat_numeral)
  have "trim (''crc='' @ hex32 c) = ''crc='' @ hex32 c"
    using ne by (intro trim_append) simp_all
  moreover have "strip_prefix ''crc='' (''crc='' @ hex32 c) = Some (hex32 c)"
    by (rule strip_prefix_append)
  ultimately show ?thesis
    by (simp only: crc_line_def scan_lines.simps Let_def option.case trim_hex32 parse_hex32)
      simp
qed

lemma scan_body:
  "scan_lines (body_lines s @ [crc_line c]) scan_start =
     (scanned s (length (body s)))\<lparr>sc_crc := Some c\<rparr>"
proof -
  have "length (body s) = 64 + 9 + 11 + (length (decimal (tries s)) + 7) + 12 + 13"
    by (simp add: body_def body_lines_def)
  then show ?thesis
    by (simp add: body_lines_def scan_comment scan_active [simplified] scan_previous [simplified]
        scan_tries [simplified] scan_confirmed [simplified] scan_rolledback [simplified] scan_crc scan_start_def scanned_def)
qed

lemma crc_line_free: "LF \<notin> set (crc_line c)" "CR \<notin> set (crc_line c)" "CHR 0x00 \<notin> set (crc_line c)"
  using hex32_free [of c] by (simp_all add: crc_line_def)

lemma lines_of_record: "str_lines (body s @ crc_line c @ [LF]) = body_lines s @ [crc_line c]"
  using str_lines_concat [OF body_lines_free, of s "crc_line c @ [LF]"] crc_line_free [of c]
  by (simp add: body_def str_lines_line)

theorem parse_write_record: "parse_record (write_record s) = Some s"
proof -
  let ?t = "body s @ crc_line (crc32 (body s)) @ [LF]"
  have nul: "CHR 0x00 \<notin> set ?t"
    using body_no_nul crc_line_free by simp
  have len: "length ?t = length (body s) + 13"
    by (simp add: crc_line_def hex32_eq)
  obtain n where "RECORD_SIZE - (length (body s) + 13) = Suc n"
    using length_body [of s] by (cases "RECORD_SIZE - (length (body s) + 13)") (auto simp: RECORD_SIZE_def)
  then have n: "write_record s = ?t @ replicate (Suc n) (CHR 0x00)"
    by (simp add: write_record_eq)
  have none: "position (\<lambda>b. b = CHR 0x00) ?t = None"
    using nul by (auto simp: position_None_iff)
  have pos: "position (\<lambda>b. b = CHR 0x00) (write_record s) = Some (length ?t)"
    unfolding n position_append [of _ ?t] none by simp
  have tx: "take (length ?t) (write_record s) = ?t"
    unfolding n by simp
  have cov: "take (length (body s)) (write_record s) = body s"
    unfolding n by simp
  have utf: "utf8_valid ?t"
    using body_ascii hex32_ascii by (intro utf8_valid_ascii) (simp add: crc_line_def code_def)
  show ?thesis
    unfolding parse_record_def pos Let_def option.case tx
    using utf by (simp add: lines_of_record scan_body scanned_def cov len)
qed

section \<open>Both copies\<close>

interpretation record_codec: codec write_record parse_record "\<lambda>_. True"
  by unfold_locales (simp add: parse_write_record)

lemma FILE_SIZE_eq: "FILE_SIZE = RECORD_SIZE + RECORD_SIZE"
  by (simp add: FILE_SIZE_def)

lemma slots_parse_copies:
  "length a = RECORD_SIZE \<Longrightarrow> length b = RECORD_SIZE \<Longrightarrow>
   slots_parse (a @ b) = (case parse_record a of Some s \<Rightarrow> Some s | None \<Rightarrow> parse_record b)"
  by (simp add: slots_parse_def subrange_def FILE_SIZE_eq split: option.split)

text \<open>
  C1.  Whatever the state of the slots, the file the program writes reads back as that state;
  and when the primary copy is damaged in any way that its parser notices, the spare copy
  still yields it.
\<close>

theorem slots_round_trip:
  "slots_parse (slots_write s) = Some s \<and>
   (\<forall>torn. length torn = RECORD_SIZE \<and> parse_record torn = None \<longrightarrow>
      slots_parse (torn @ write_record s) = Some s)"
  by (simp add: slots_write_def Let_def slots_parse_copies parse_write_record)

lemma parse_record_nul: "parse_record (replicate RECORD_SIZE (CHR 0x00)) = None"
  by (simp add: parse_record_def RECORD_SIZE_def eval_nat_numeral scan_start_def)

theorem slots_round_trip_witness:
  "length (replicate RECORD_SIZE (CHR 0x00)) = RECORD_SIZE \<and>
   parse_record (replicate RECORD_SIZE (CHR 0x00)) = None \<and>
   slots_parse (replicate RECORD_SIZE (CHR 0x00) @ write_record fresh) = Some fresh"
  using slots_round_trip [of fresh] parse_record_nul by simp

text \<open>A file of two copies, and what the writes of \<open>write_whole\<close> make of it.\<close>

lemma blit_copies:
  assumes "length a = RECORD_SIZE" "length b = RECORD_SIZE" "length r = RECORD_SIZE"
  shows "blit RECORD_SIZE r (a @ b) = a @ r" and "blit 0 r (a @ b) = r @ b"
  using assms by (simp_all add: blit_def)

lemma write_whole_cases:
  assumes "length a = RECORD_SIZE" and "length b = RECORD_SIZE"
    and "\<forall>j. Failed j \<in> set ws \<longrightarrow> length j = RECORD_SIZE"
  obtains "write_whole ws s (a @ b) = (True, write_record s @ write_record s)"
  | "write_whole ws s (a @ b) = (False, a @ b)"
  | j where "Failed j \<in> set ws" "write_whole ws s (a @ b) = (False, a @ j)"
  | "write_whole ws s (a @ b) = (False, a @ write_record s)"
  | j where "Failed j \<in> set ws" "write_whole ws s (a @ b) = (False, j @ write_record s)"
proof (cases ws)
  case Nil
  then show ?thesis using that(2) by (simp add: write_whole_def)
next
  case 1: (Cons w ws1)
  show ?thesis
  proof (cases w)
    case (Failed j)
    then show ?thesis
      using 1 assms that(3) by (simp add: write_whole_def blit_copies)
  next
    case Written
    show ?thesis
    proof (cases ws1)
      case Nil
      then show ?thesis
        using 1 Written assms that(4) by (simp add: write_whole_def blit_copies)
    next
      case 2: (Cons w2 ws2)
      then show ?thesis
        using 1 Written assms that(1,5) by (cases w2) (simp_all add: write_whole_def blit_copies)
    qed
  qed
qed

lemma write_whole_torn_spare:
  "length a = RECORD_SIZE \<Longrightarrow> length b = RECORD_SIZE \<Longrightarrow> length j = RECORD_SIZE \<Longrightarrow>
   write_whole (Failed j # ws) s (a @ b) = (False, a @ j)"
  by (simp add: write_whole_def blit_copies)

lemma write_whole_primary:
  assumes "length a = RECORD_SIZE" and "length b = RECORD_SIZE"
    and "parse_record a = Some old"
    and "\<forall>j. Failed j \<in> set ws \<longrightarrow>
           length j = RECORD_SIZE \<and> parse_record j \<in> {None, Some old, Some new}"
  shows "slots_parse (snd (write_whole ws new (a @ b))) \<in> {Some old, Some new}"
    and "fst (write_whole ws new (a @ b)) \<longrightarrow> slots_parse (snd (write_whole ws new (a @ b))) = Some new"
proof -
  have junk: "\<forall>j. Failed j \<in> set ws \<longrightarrow> length j = RECORD_SIZE"
    using assms(4) by blast
  show "slots_parse (snd (write_whole ws new (a @ b))) \<in> {Some old, Some new}"
    and "fst (write_whole ws new (a @ b)) \<longrightarrow> slots_parse (snd (write_whole ws new (a @ b))) = Some new"
    using assms
    by (cases rule: write_whole_cases [OF assms(1,2) junk, of new];
        fastforce simp: slots_parse_copies parse_write_record split: option.splits)+
qed

text \<open>
  C2.  Updating the record in place, across a failure at any of its writes. Let the file read as
  the old state, from either copy, and let what a failed write leaves in its sector be rejected
  by the checksum or be one of the two records. When the primary copy was intact, the file
  afterwards reads as the old state or the new one. When the old state stood in the spare copy
  alone, it is lost in one case and no other: the first write, which goes to that copy, tears it.
  When \<open>write_whole\<close> reports success the file reads as the new state.
\<close>

theorem write_whole_atomic:
  assumes "length a = RECORD_SIZE" and "length b = RECORD_SIZE"
    and "slots_parse (a @ b) = Some old"
    and "\<forall>j. Failed j \<in> set ws \<longrightarrow>
           length j = RECORD_SIZE \<and> parse_record j \<in> {None, Some old, Some new}"
  shows "(parse_record a = Some old \<longrightarrow>
           slots_parse (snd (write_whole ws new (a @ b))) \<in> {Some old, Some new}) \<and>
         (parse_record a = None \<longrightarrow>
           (if \<exists>j rest. ws = Failed j # rest \<and> parse_record j = None
            then slots_parse (snd (write_whole ws new (a @ b))) = None
            else slots_parse (snd (write_whole ws new (a @ b))) \<in> {Some old, Some new})) \<and>
         (fst (write_whole ws new (a @ b)) \<longrightarrow>
           slots_parse (snd (write_whole ws new (a @ b))) = Some new)"
proof -
  have junk: "\<forall>j. Failed j \<in> set ws \<longrightarrow> length j = RECORD_SIZE"
    using assms(4) by blast
  have whole: "slots_parse (write_record new @ write_record new) = Some new"
    by (simp add: slots_parse_copies parse_write_record)
  have primary: "slots_parse (snd (write_whole ws new (a @ b))) \<in> {Some old, Some new}"
    if "parse_record a = Some old"
    by (rule write_whole_primary(1) [OF assms(1,2) that assms(4)])
  have torn: "slots_parse (snd (write_whole ws new (a @ b))) = None"
    if "parse_record a = None" "ws = Failed j # rest" "parse_record j = None" for j rest
    using that assms(1,2) junk by (simp add: write_whole_torn_spare slots_parse_copies)
  have spare: "slots_parse (snd (write_whole ws new (a @ b))) \<in> {Some old, Some new}"
    if a: "parse_record a = None" and ws: "\<not> (\<exists>j rest. ws = Failed j # rest \<and> parse_record j = None)"
  proof (cases ws)
    case Nil
    then show ?thesis using assms(3) by (simp add: write_whole_def)
  next
    case (Cons w rest)
    show ?thesis
    proof (cases w)
      case (Failed j)
      then have "parse_record j \<in> {Some old, Some new}" "length j = RECORD_SIZE"
        using Cons ws assms(4) by auto
      then show ?thesis
        using Cons Failed a assms(1,2) by (auto simp: write_whole_torn_spare slots_parse_copies)
    next
      case Written
      have other: "slots_parse (x @ write_record new) \<in> {Some old, Some new}"
        if "length x = RECORD_SIZE" "parse_record x \<in> {None, Some old, Some new}" for x
        using that by (auto simp: slots_parse_copies parse_write_record)
      consider "write_whole ws new (a @ b) = (True, write_record new @ write_record new)"
        | x where "write_whole ws new (a @ b) = (False, x @ write_record new)"
          "length x = RECORD_SIZE" "parse_record x \<in> {None, Some old, Some new}"
      proof (cases rest)
        case Nil
        then show ?thesis
          using Cons Written a assms(1,2) that(2) [of a] by (simp add: write_whole_def blit_copies)
      next
        case second: (Cons w2 rest2)
        show ?thesis
        proof (cases w2)
          case Written
          then show ?thesis
            using Cons \<open>w = Written\<close> second assms(1,2) that(1) by (simp add: write_whole_def blit_copies)
        next
          case (Failed j)
          then show ?thesis
            using Cons \<open>w = Written\<close> second assms(1,2,4) that(2) [of j] by (simp add: write_whole_def blit_copies)
        qed
      qed
      then show ?thesis
        by cases (use whole other in auto)
    qed
  qed
  have success: "slots_parse (snd (write_whole ws new (a @ b))) = Some new"
    if "fst (write_whole ws new (a @ b))"
    using that whole by (cases rule: write_whole_cases [OF assms(1,2) junk, of new]) simp_all
  show ?thesis
    using primary torn spare success by auto
qed

theorem write_whole_atomic_witness:
  "slots_parse (snd (write_whole [Written, Failed (replicate RECORD_SIZE (CHR 0x00))]
       (switch_to_new fresh) (write_record fresh @ write_record fresh)))
     \<in> {Some fresh, Some (switch_to_new fresh)} \<and>
   slots_parse (snd (write_whole [Failed (replicate RECORD_SIZE (CHR 0x00))]
       (switch_to_new fresh) (replicate RECORD_SIZE (CHR 0x00) @ write_record fresh))) = None"
proof
  let ?torn = "replicate RECORD_SIZE (CHR 0x00)"
  show "slots_parse (snd (write_whole [Written, Failed ?torn] (switch_to_new fresh) (write_record fresh @ write_record fresh)))
     \<in> {Some fresh, Some (switch_to_new fresh)}"
    using write_whole_atomic [of "write_record fresh" "write_record fresh" fresh "[Written, Failed ?torn]" "switch_to_new fresh"]
    by (simp add: parse_record_nul parse_write_record slots_parse_copies)
  show "slots_parse (snd (write_whole [Failed ?torn] (switch_to_new fresh) (?torn @ write_record fresh))) = None"
    using write_whole_atomic [of ?torn "write_record fresh" fresh "[Failed ?torn]" "switch_to_new fresh"]
    by (simp add: parse_record_nul parse_write_record slots_parse_copies)
qed

section \<open>Attempts and rollback\<close>

text \<open>The first \<open>n\<close> boots of a machine whose system never confirms itself.\<close>

fun boots :: "nat \<Rightarrow> slot_state \<Rightarrow> attempt list" where
  "boots 0 s = []"
| "boots (Suc n) s = (let (att, s') = begin_boot s in att # boots n s')"

fun after_boots :: "nat \<Rightarrow> slot_state \<Rightarrow> slot_state" where
  "after_boots 0 s = s"
| "after_boots (Suc n) s = after_boots n (snd (begin_boot s))"

lemma begin_boot_confirmed:
  "confirmed s \<Longrightarrow> begin_boot s = (Confirmed (active s), s\<lparr>tries := DEFAULT_TRIES\<rparr>)"
  by (simp add: begin_boot_def)


lemma begin_boot_exhausted:
  "\<not> confirmed s \<Longrightarrow> tries s = 0 \<Longrightarrow>
   begin_boot s = (RolledBack (previous s) (active s) 2,
     \<lparr>active = previous s, previous = active s, tries = 2, confirmed = False, rolled_back = True\<rparr>)"
  by (simp add: begin_boot_def Let_def DEFAULT_TRIES_def)

text \<open>What a boot of an unconfirmed system is reported as: an attempt, or one after a return.\<close>

definition reported :: "slot_state \<Rightarrow> u8 \<Rightarrow> attempt" where
  "reported s left =
     (if rolled_back s then RolledBack (active s) (previous s) left else Trying (active s) left)"

lemma boots_counted:
  "\<not> confirmed s \<Longrightarrow> unat (tries s) = n \<Longrightarrow>
   boots n s = map (\<lambda>left. reported s (of_nat left)) (rev [0..<n]) \<and>
   after_boots n s = s\<lparr>tries := 0\<rparr>"
proof (induction n arbitrary: s)
  case 0
  then show ?case by (simp add: unsigned_eq_0_iff)
next
  case (Suc n)
  have ne: "tries s \<noteq> 0"
    using Suc.prems by auto
  then have n: "unat (tries s - 1) = n"
    using Suc.prems by (simp add: unat_minus_one)
  then have left: "tries s - 1 = of_nat n"
    by (simp flip: n)
  have "begin_boot s = (reported s (tries s - 1), s\<lparr>tries := tries s - 1\<rparr>)"
    using Suc.prems(1) ne by (simp add: begin_boot_def reported_def Let_def)
  moreover have "reported (s\<lparr>tries := t\<rparr>) = reported s" for t
    by (simp add: reported_def fun_eq_iff)
  ultimately show ?case
    using Suc.IH [of "s\<lparr>tries := tries s - 1\<rparr>"] Suc.prems n by (simp add: left)
qed


text \<open>The record of one slot state, and what the two readers and writers make of it.\<close>

lemma parse_slots_write [simp]: "slots_parse (slots_write s) = Some s"
  by (simp add: slots_write_def Let_def slots_parse_copies parse_write_record)

lemma length_slots_write [simp]: "length (slots_write s) = FILE_SIZE"
  by (simp add: slots_write_def Let_def FILE_SIZE_def)

lemma read_whole_write [simp]: "read_whole (slots_write s) = Some (slots_write s)"
  by (simp add: read_whole_def)

lemma kernel_read_write [simp]: "kernel_read_state (slots_write s) = Some s"
  by (simp add: kernel_read_state_def)

lemma write_whole_done:
  "length file = FILE_SIZE \<Longrightarrow> write_whole [Written, Written] s file = (True, slots_write s)"
  by (simp add: write_whole_def blit_def FILE_SIZE_eq slots_write_def Let_def)

lemma kernel_write_done:
  "length file = FILE_SIZE \<Longrightarrow> kernel_write_state [Written, Written] s file = (True, slots_write s)"
  by (simp add: kernel_write_state_def blit_def FILE_SIZE_eq slots_write_def Let_def)

lemma choose_slot_write:
  "choose_slot [Written, Written] (Some (slots_write s)) =
     (\<lparr>ch_slot = Some (attempt_slot (fst (begin_boot s))),
       ch_tries_left = tries (snd (begin_boot s)),
       ch_rolled_back = rolled_back (snd (begin_boot s))\<rparr>,
      Some (slots_write (snd (begin_boot s))))"
  by (simp add: choose_slot_def write_whole_done split_beta Let_def)

text \<open>The slots a machine boots from, power cycle after power cycle, when no system confirms.\<close>

fun power_cycles :: "nat \<Rightarrow> string \<Rightarrow> slot option list" where
  "power_cycles 0 file = []"
| "power_cycles (Suc n) file =
     (case choose_slot [Written, Written] (Some file) of
        (c, Some file') \<Rightarrow> ch_slot c # power_cycles n file'
      | (c, None) \<Rightarrow> [ch_slot c])"

lemma power_cycles_boots:
  "power_cycles n (slots_write s) = map (\<lambda>a. Some (attempt_slot a)) (boots n s)"
  by (induction n arbitrary: s) (simp_all add: choose_slot_write split_beta Let_def)

text \<open>
  C3.  A freshly installed update is tried exactly three times: from the file the update
  leaves behind, a system that never confirms itself is booted three times, and the fourth
  boot is of the system that was there before.
\<close>

theorem update_rolls_back:
  "apply_switch [Written, Written] (Some b) (slots_write s) =
     (Some (other (active s)), slots_write (switch_to_new s)) \<and>
   power_cycles 4 (slots_write (switch_to_new s)) =
     [Some (other (active s)), Some (other (active s)), Some (other (active s)), Some (active s)]"
proof -
  have four: "4 = Suc (Suc (Suc (Suc 0)))"
    by simp
  have "boots 4 (switch_to_new s) =
      [Trying (other (active s)) 2, Trying (other (active s)) 1, Trying (other (active s)) 0,
       RolledBack (active s) (other (active s)) 2]"
    unfolding four boots.simps
    by (simp add: begin_boot_def switch_to_new_def DEFAULT_TRIES_def)
  then show ?thesis
    by (simp add: power_cycles_boots apply_switch_def kernel_write_done Let_def switch_to_new_def)
qed

text \<open>
  C4.  Whatever the number of attempts the record grants, an unconfirmed system is booted exactly
  that many times, with the count of attempts left going down to zero, and the next boot returns
  to the previous slot with two attempts left after it. A system that was itself returned to
  counts its attempts in the same way; the boots are then reported as returns.
\<close>

theorem attempts_then_rollback:
  assumes "\<not> confirmed s"
  shows "boots (unat (tries s) + 1) s =
     map (\<lambda>left. if rolled_back s then RolledBack (active s) (previous s) (of_nat left)
       else Trying (active s) (of_nat left)) (rev [0..<unat (tries s)]) @
     [RolledBack (previous s) (active s) 2]"
proof -
  have split: "boots (n + 1) s = boots n s @ [fst (begin_boot (after_boots n s))]" for n s
    by (induction n arbitrary: s) (simp_all add: split_beta Let_def)
  show ?thesis
    unfolding split using boots_counted [of s "unat (tries s)"] assms
    by (simp add: begin_boot_exhausted reported_def)
qed

theorem attempts_then_rollback_witness:
  "boots 2 \<lparr>active = SlotB, previous = SlotA, tries = 1, confirmed = False, rolled_back = False\<rparr> =
     [Trying SlotB 0, RolledBack SlotA SlotB 2] \<and>
   boots 2 \<lparr>active = SlotA, previous = SlotB, tries = 1, confirmed = False, rolled_back = True\<rparr> =
     [RolledBack SlotA SlotB 0, RolledBack SlotB SlotA 2]"
  using attempts_then_rollback
    [of "\<lparr>active = SlotB, previous = SlotA, tries = 1, confirmed = False, rolled_back = False\<rparr>"]
    attempts_then_rollback
    [of "\<lparr>active = SlotA, previous = SlotB, tries = 1, confirmed = False, rolled_back = True\<rparr>"]
  by (simp add: numeral_2_eq_2)

lemma confirm_result:
  "snd (confirm s) = s\<lparr>confirmed := True, tries := DEFAULT_TRIES, rolled_back := False\<rparr>"
  by (simp add: confirm_def)

text \<open>
  C5.  Confirmation: after the running system has confirmed itself the loader boots the same
  slot as a confirmed one and leaves the file as it is, for any number of boots; confirming
  again writes nothing.
\<close>

theorem confirmed_is_stable:
  "kernel_confirm [Written, Written] (Some b) (slots_write s) = slots_write (snd (confirm s)) \<and>
   boots n (snd (confirm s)) = replicate n (Confirmed (active s)) \<and>
   snd (choose_slot [Written, Written] (Some (slots_write (snd (confirm s))))) =
     Some (slots_write (snd (confirm s))) \<and>
   kernel_confirm ws (Some b) (slots_write (snd (confirm s))) = slots_write (snd (confirm s))"
proof (intro conjI)
  let ?c = "s\<lparr>confirmed := True, tries := DEFAULT_TRIES, rolled_back := False\<rparr>"
  have boot: "begin_boot ?c = (Confirmed (active s), ?c)"
    by (simp add: begin_boot_confirmed)
  show "kernel_confirm [Written, Written] (Some b) (slots_write s) = slots_write (snd (confirm s))"
    by (auto simp: kernel_confirm_def kernel_write_done confirm_def)
  have "boots n ?c = replicate n (Confirmed (active s))"
    by (induction n) (simp_all add: boot)
  then show "boots n (snd (confirm s)) = replicate n (Confirmed (active s))"
    by (simp add: confirm_result)
  show "snd (choose_slot [Written, Written] (Some (slots_write (snd (confirm s))))) =
     Some (slots_write (snd (confirm s)))"
    by (simp add: choose_slot_write confirm_result boot)
  show "kernel_confirm ws (Some b) (slots_write (snd (confirm s))) = slots_write (snd (confirm s))"
    unfolding confirm_result by (simp add: kernel_confirm_def confirm_def)
qed

section \<open>The machine over its life\<close>

text \<open>The state of the record with the slot the running system was booted from: boots,
  confirmations and updates in any order.\<close>

inductive slots_step :: "slot_state \<times> slot \<Rightarrow> slot_state \<times> slot \<Rightarrow> bool" where
  boot: "slots_step (s, b) (snd (begin_boot s), attempt_slot (fst (begin_boot s)))"
| confirm: "slots_step (s, b) (snd (confirm s), b)"
| update: "slots_step (s, b) (switch_to_new s, b)"

inductive_cases slots_stepE: "slots_step p q"

definition slots_inv :: "slot_state \<times> slot \<Rightarrow> bool" where
  "slots_inv p = (case p of (s, b) \<Rightarrow>
     unat (tries s) \<le> 3 \<and> (confirmed s \<longrightarrow> \<not> rolled_back s \<and> tries s = DEFAULT_TRIES) \<and>
     (\<not> confirmed s \<longrightarrow> previous s = other (active s)))"

lemma other_other [simp]: "other (other s) = s" and other_ne [simp]: "other s \<noteq> s" "s \<noteq> other s"
  by (cases s; simp)+

lemma tries_saturating: "unat (t :: u8) \<le> 3 \<Longrightarrow> t \<noteq> 0 \<Longrightarrow> unat (t - 1) \<le> 3"
  by (simp add: unat_minus_one)

lemma slots_step_inv [inv_intros]: "slots_step p q \<Longrightarrow> slots_inv p \<Longrightarrow> slots_inv q"
proof (induction rule: slots_step.induct)
  case (boot s b)
  then show ?case
    using tries_saturating [of "tries s"]
    by (auto simp: slots_inv_def begin_boot_def Let_def DEFAULT_TRIES_def)
next
  case (confirm s b)
  then show ?case by (simp add: slots_inv_def confirm_result DEFAULT_TRIES_def)
next
  case (update s b)
  then show ?case by (simp add: slots_inv_def switch_to_new_def DEFAULT_TRIES_def)
qed

lemma slots_reach_inv: "slots_step\<^sup>*\<^sup>* (fresh, SlotA) q \<Longrightarrow> slots_inv q"
  by (erule rtranclp_invariant, erule (1) slots_step_inv)
    (simp add: slots_inv_def fresh_def DEFAULT_TRIES_def)

text \<open>
  C6.  In every state a machine can get into, by boots, confirmations and updates in any order,
  at most three attempts are recorded, a system is rolled back from only while it is
  unconfirmed, and an unconfirmed system always has the other slot to return to.
\<close>

theorem slots_reachable:
  assumes "slots_step\<^sup>*\<^sup>* (fresh, SlotA) (s, b)"
  shows "unat (tries s) \<le> 3 \<and> (rolled_back s \<longrightarrow> \<not> confirmed s) \<and>
         (\<not> confirmed s \<longrightarrow> previous s = other (active s))"
  using slots_reach_inv [OF assms] by (auto simp: slots_inv_def)

theorem slots_reachable_witness:
  "\<exists>s b. slots_step\<^sup>*\<^sup>* (fresh, SlotA) (s, b) \<and> \<not> confirmed s \<and> previous s = other (active s)"
proof -
  have r: "slots_step\<^sup>*\<^sup>* (fresh, SlotA) (switch_to_new fresh, SlotA)"
    by (rule r_into_rtranclp, rule slots_step.update)
  have "\<not> confirmed (switch_to_new fresh)"
    by (simp add: switch_to_new_def)
  then show ?thesis
    using r slots_reachable [OF r] by blast
qed

lemma choose_slot_any:
  assumes "\<forall>j. Failed j \<in> set ws \<longrightarrow> length j = RECORD_SIZE \<and> parse_record j \<in> {None, Some s, Some (snd (begin_boot s))}"
  obtains content where "choose_slot ws (Some (slots_write s)) =
      (\<lparr>ch_slot = Some (active (snd (begin_boot s))), ch_tries_left = tries (snd (begin_boot s)),
        ch_rolled_back = rolled_back (snd (begin_boot s))\<rparr>, Some content)"
    and "length content = FILE_SIZE" and "slots_parse content \<in> {Some s, Some (snd (begin_boot s))}"
    and "fst (write_whole ws (snd (begin_boot s)) (slots_write s)) \<longrightarrow> slots_parse content = Some (snd (begin_boot s))"
proof -
  let ?new = "snd (begin_boot s)"
  have slot: "attempt_slot (fst (begin_boot s)) = active ?new"
    by (simp add: begin_boot_def Let_def)
  have copies: "slots_write s = write_record s @ write_record s"
    by (simp add: slots_write_def Let_def)
  have junk: "\<forall>j. Failed j \<in> set ws \<longrightarrow> length j = RECORD_SIZE"
    using assms by blast
  have len: "length (snd (write_whole ws ?new (slots_write s))) = FILE_SIZE"
    unfolding copies
    by (cases rule: write_whole_cases [OF length_write_record [of s] length_write_record [of s] junk, where s = ?new])
      (use junk in \<open>simp_all add: FILE_SIZE_eq\<close>)
  have old: "parse_record (write_record s) = Some s"
    by (rule parse_write_record)
  have after: "slots_parse (snd (write_whole ws ?new (slots_write s))) \<in> {Some s, Some ?new}"
      "fst (write_whole ws ?new (slots_write s)) \<longrightarrow> slots_parse (snd (write_whole ws ?new (slots_write s))) = Some ?new"
    unfolding copies
    by (rule write_whole_primary [OF length_write_record length_write_record old(1) assms])+
  show thesis
    by (rule that [of "snd (write_whole ws ?new (slots_write s))"])
      (use after len slot in \<open>simp_all add: choose_slot_def split_beta Let_def\<close>)
qed



text \<open>
  C8.  A second update before the reboot is written over the running system: the record the
  first one leaves names the other slot as active, so its inactive slot is the one booted, and
  a machine can get there.
\<close>

theorem second_update_overwrites_running:
  "slots_step\<^sup>*\<^sup>* (fresh, SlotA) (switch_to_new fresh, SlotA) \<and>
   apply_target (Some (active s)) (snd (apply_switch [Written, Written] (Some (active s)) (slots_write s)))
     = Some (active s)"
proof
  show "slots_step\<^sup>*\<^sup>* (fresh, SlotA) (switch_to_new fresh, SlotA)"
    by (rule r_into_rtranclp, rule slots_step.update)
qed (simp add: apply_target_def apply_switch_def kernel_write_done switch_to_new_def Let_def)

lemma torn_spare:
  "write_whole [Failed (replicate RECORD_SIZE (CHR 0x00))] s' (slots_write s) =
     (False, write_record s @ replicate RECORD_SIZE (CHR 0x00))"
  by (simp add: write_whole_def slots_write_def Let_def blit_copies)

text \<open>
  C9.  The loader writes the spare copy first and the running system the primary one first,
  so two failed writes in a row can destroy both: when the loader's write tears the spare
  sector the boot goes on from the intact primary copy, and when the confirmation then tears
  that one no copy of the record is left.
\<close>

theorem mixed_write_order_loses_both:
  "(let torn = replicate RECORD_SIZE (CHR 0x00); s = switch_to_new t in
    case choose_slot [Failed torn] (Some (slots_write s)) of
      (c, Some file) \<Rightarrow>
        ch_slot c = Some (active s) \<and> kernel_read_state file = Some s \<and>
        slots_parse (kernel_confirm [Failed torn] (ch_slot c) file) = None
    | (c, None) \<Rightarrow> False)"
proof -
  define s torn where "s = switch_to_new t" and "torn = replicate RECORD_SIZE (CHR 0x00)"
  have len: "length torn = RECORD_SIZE" and bad: "parse_record torn = None"
    by (simp_all add: torn_def parse_record_nul)
  have read: "kernel_read_state (write_record s @ torn) = Some s"
    using len by (simp add: kernel_read_state_def read_whole_def FILE_SIZE_eq slots_parse_copies
        parse_write_record)
  have choose: "choose_slot [Failed torn] (Some (slots_write s)) =
      (\<lparr>ch_slot = Some (active s), ch_tries_left = tries (snd (begin_boot s)),
        ch_rolled_back = rolled_back (snd (begin_boot s))\<rparr>, Some (write_record s @ torn))"
    by (simp add: choose_slot_def torn_def torn_spare split_beta Let_def begin_boot_def s_def
        switch_to_new_def DEFAULT_TRIES_def)
  have changed: "fst (confirm s)"
    by (simp add: s_def switch_to_new_def confirm_def)
  have "kernel_confirm [Failed torn] (Some (active s)) (write_record s @ torn) = torn @ torn"
    using len changed
    by (simp add: kernel_confirm_def read split_beta Let_def kernel_write_state_def FILE_SIZE_eq
        blit_copies)
  then show ?thesis
    using len bad by (simp add: Let_def choose read slots_parse_copies
        flip: s_def torn_def)
qed

end
