(* ===== verification/Interfaces.thy ===== *)
theory Interfaces
  imports Prelude
begin

text \<open>
  The contracts between components, as locales: what a client may rely on, proved for the
  providing component by an interpretation in its theory.
\<close>

section \<open>A pool of reference-counted frames\<close>

text \<open>
  \<open>owners s f\<close> is the number of owners of frame \<open>f\<close>; 0 means the frame is free.  Sharing adds
  one owner, releasing takes one away, and neither touches the owners any other used frame has.
  \<open>valid\<close> are the frames a client can be handed.
\<close>

locale frame_pool =
  fixes share :: "'f \<Rightarrow> 's \<Rightarrow> bool \<times> 's"
    and release :: "'f \<Rightarrow> 's \<Rightarrow> 's"
    and shared :: "'f \<Rightarrow> 's \<Rightarrow> bool"
    and owners :: "'s \<Rightarrow> 'f \<Rightarrow> nat"
    and valid :: "'s \<Rightarrow> 'f \<Rightarrow> bool"
    and inv :: "'s \<Rightarrow> bool"
  assumes share_yes: "inv s \<Longrightarrow> valid s f \<Longrightarrow> share f s = (True, s') \<Longrightarrow>
      inv s' \<and> valid s' = valid s \<and> 0 < owners s f \<and> owners s' f = owners s f + 1 \<and>
      (\<forall>g. valid s g \<and> g \<noteq> f \<and> 0 < owners s g \<longrightarrow> owners s' g = owners s g)"
    and share_no: "inv s \<Longrightarrow> valid s f \<Longrightarrow> share f s = (False, s') \<Longrightarrow> s' = s"
    and release: "inv s \<Longrightarrow> valid s f \<Longrightarrow>
      inv (release f s) \<and> valid (release f s) = valid s \<and>
      owners (release f s) f = owners s f - 1 \<and>
      (\<forall>g. valid s g \<and> g \<noteq> f \<longrightarrow> owners (release f s) g = owners s g)"
    and shared_iff: "inv s \<Longrightarrow> valid s f \<Longrightarrow> shared f s \<longleftrightarrow> 1 < owners s f"
begin

lemma share_mono:
  assumes "inv s" and "valid s f" and "share f s = (b, s')" and "valid s g" and "0 < owners s g"
  shows "owners s g \<le> owners s' g"
  using assms share_yes [of s f s'] share_no [of s f s'] by (cases b; cases "g = f") auto

lemma share_release:
  assumes "inv s" and "valid s f" and "share f s = (True, s')"
  shows "owners (release f s') f = owners s f"
  using share_yes [OF assms] release [of s' f] assms(2) by simp

end

section \<open>A first-in first-out channel of bytes\<close>

text \<open>
  \<open>content\<close> is what has been accepted and not yet taken.  A write accepts a prefix, as long
  as there is room; a read takes a prefix of the content.  Over any sequence of operations,
  what came out is what went in, in order and without loss.
\<close>

datatype channel_op = Feed "8 word list" | Drain nat

locale byte_channel =
  fixes feed :: "8 word list \<Rightarrow> 'c \<Rightarrow> nat \<times> 'c"
    and drain :: "nat \<Rightarrow> 'c \<Rightarrow> 8 word list \<times> 'c"
    and content :: "'c \<Rightarrow> 8 word list"
    and capacity :: "'c \<Rightarrow> nat"
    and good :: "'c \<Rightarrow> bool"
  assumes feed: "good c \<Longrightarrow> feed bs c = (n, c') \<Longrightarrow>
      good c' \<and> capacity c' = capacity c \<and> n = min (length bs) (capacity c - length (content c)) \<and>
      content c' = content c @ take n bs"
    and drain: "good c \<Longrightarrow> drain n c = (bs, c') \<Longrightarrow>
      good c' \<and> capacity c' = capacity c \<and> bs = take n (content c) \<and> content c' = drop n (content c)"
begin

text \<open>A run gives the bytes accepted, the bytes taken and the channel afterwards.\<close>

fun run :: "channel_op list \<Rightarrow> 'c \<Rightarrow> 8 word list \<times> 8 word list \<times> 'c" where
  "run [] c = ([], [], c)"
| "run (Feed bs # ops) c =
     (let (n, c') = feed bs c; (accepted, taken, c'') = run ops c' in (take n bs @ accepted, taken, c''))"
| "run (Drain n # ops) c =
     (let (bs, c') = drain n c; (accepted, taken, c'') = run ops c' in (accepted, bs @ taken, c''))"

lemma run_fifo:
  "good c \<Longrightarrow> run ops c = (accepted, taken, c') \<Longrightarrow>
   good c' \<and> content c @ accepted = taken @ content c'"
proof (induction ops arbitrary: c accepted taken c')
  case (Cons op ops)
  show ?case
  proof (cases op)
    case (Feed bs)
    obtain n c1 where f: "feed bs c = (n, c1)" by fastforce
    obtain a t c2 where r: "run ops c1 = (a, t, c2)" using prod_cases3 by blast
    show ?thesis
      using Cons.IH [OF _ r] feed [OF Cons.prems(1) f] Cons.prems(2) by (auto simp: Feed f r)
  next
    case (Drain n)
    obtain bs c1 where d: "drain n c = (bs, c1)" by fastforce
    obtain a t c2 where r: "run ops c1 = (a, t, c2)" using prod_cases3 by blast
    have "good c1" and bs: "bs = take n (content c)" and c1: "content c1 = drop n (content c)"
      using drain [OF Cons.prems(1) d] by simp_all
    then have ih: "good c2" "content c1 @ a = t @ content c2"
      using Cons.IH [OF _ r] by simp_all
    have "content c @ a = bs @ (content c1 @ a)"
      by (simp add: bs c1 flip: append.assoc)
    moreover have "accepted = a" "taken = bs @ t" "c' = c2"
      using Cons.prems(2) by (auto simp: Drain d r)
    ultimately show ?thesis
      using ih by simp
  qed
qed simp

end

section \<open>A block device\<close>

text \<open>
  \<open>image d a\<close> is the byte at address \<open>a\<close> of the medium.  A read that succeeds returns the
  bytes of the medium and never changes them; a write that succeeds replaces exactly the bytes
  it names, and one that fails may have touched only the sectors it was for.
\<close>

definition bytes_at :: "(nat \<Rightarrow> 8 word) \<Rightarrow> nat \<Rightarrow> nat \<Rightarrow> 8 word list" where
  "bytes_at im start n = map (\<lambda>i. im (start + i)) [0..<n]"

definition overlay :: "(nat \<Rightarrow> 8 word) \<Rightarrow> nat \<Rightarrow> 8 word list \<Rightarrow> nat \<Rightarrow> 8 word" where
  "overlay im start bs a = (if start \<le> a \<and> a < start + length bs then bs ! (a - start) else im a)"

lemma length_bytes_at [simp]: "length (bytes_at im start n) = n"
  by (simp add: bytes_at_def)

lemma bytes_at_cong: "(\<And>a. start \<le> a \<Longrightarrow> a < start + n \<Longrightarrow> im a = im' a) \<Longrightarrow>
  bytes_at im start n = bytes_at im' start n"
  by (simp add: bytes_at_def)

lemma overlay_outside: "a < start \<or> start + length bs \<le> a \<Longrightarrow> overlay im start bs a = im a"
  by (auto simp: overlay_def)

lemma bytes_at_overlay: "bytes_at (overlay im start bs) start (length bs) = bs"
  by (rule nth_equalityI) (simp_all add: bytes_at_def overlay_def)

text \<open>The number of sectors, of \<open>ss\<close> bytes, that \<open>n\<close> bytes take.\<close>

definition sectors_of :: "nat \<Rightarrow> nat \<Rightarrow> nat" where
  "sectors_of ss n = div_ceil n (max ss 1)"

locale block_device =
  fixes dev_read :: "nat \<Rightarrow> nat \<Rightarrow> 'd \<Rightarrow> ('e + 8 word list) \<times> 'd"
    and dev_write :: "nat \<Rightarrow> 8 word list \<Rightarrow> 'd \<Rightarrow> 'e option \<times> 'd"
    and sector :: "'d \<Rightarrow> nat"
    and image :: "'d \<Rightarrow> nat \<Rightarrow> 8 word"
    and good :: "'d \<Rightarrow> bool"
  assumes sector_pos: "good d \<Longrightarrow> 0 < sector d"
    and read_keeps: "good d \<Longrightarrow> dev_read lba n d = (r, d') \<Longrightarrow>
      good d' \<and> sector d' = sector d \<and> image d' = image d"
    and read_ok: "good d \<Longrightarrow> dev_read lba n d = (Inr bs, d') \<Longrightarrow>
      bs = bytes_at (image d) (lba * sector d) n \<and> lba + sectors_of (sector d) n < 2 ^ 64"
    and write_keeps: "good d \<Longrightarrow> dev_write lba bs d = (w, d') \<Longrightarrow>
      good d' \<and> sector d' = sector d \<and>
      (\<forall>a. a < lba * sector d \<or> (lba + sectors_of (sector d) (length bs)) * sector d \<le> a \<longrightarrow>
        image d' a = image d a)"
    and write_ok: "good d \<Longrightarrow> dev_write lba bs d = (None, d') \<Longrightarrow>
      image d' = overlay (image d) (lba * sector d) bs"

text \<open>A device whose reads have no effect at all, and that goes on reading what it could read.\<close>

locale quiet_device = block_device +
  assumes read_pure: "good d \<Longrightarrow> snd (dev_read lba n d) = d"
    and read_stable: "good d \<Longrightarrow> dev_read lba n d = (Inr bs, d1) \<Longrightarrow> dev_write lba' bs' d = (w, d') \<Longrightarrow>
      \<exists>bs'' d''. dev_read lba n d' = (Inr bs'', d'')"

section \<open>A table of slots owned by tasks\<close>

text \<open>
  A task reaches only the slots it owns, with one error for \<open>no such slot\<close> and for
  \<open>not yours\<close>; closing everything a task owns frees its slots and leaves the others live.
\<close>

locale owned_slots =
  fixes slot_of :: "nat \<Rightarrow> 't \<Rightarrow> 'c option"
    and owner_of :: "'c \<Rightarrow> 'o"
    and fetch :: "'o \<Rightarrow> nat \<Rightarrow> 't \<Rightarrow> 'e + 'c"
    and bad :: 'e
    and close_all :: "'o \<Rightarrow> 't \<Rightarrow> nat \<times> 't"
    and good :: "'t \<Rightarrow> bool"
  assumes fetch_iff: "fetch own i t = Inr c \<longleftrightarrow> slot_of i t = Some c \<and> owner_of c = own"
    and fetch_error: "fetch own i t = Inl e \<Longrightarrow> e = bad"
    and close_all_mine: "good t \<Longrightarrow> slot_of i t = Some c \<Longrightarrow> owner_of c = own \<Longrightarrow>
      slot_of i (snd (close_all own t)) = None"
    and close_all_none: "good t \<Longrightarrow> slot_of i t = None \<Longrightarrow> slot_of i (snd (close_all own t)) = None"
    and close_all_others: "good t \<Longrightarrow> slot_of i t = Some c \<Longrightarrow> owner_of c \<noteq> own \<Longrightarrow>
      \<exists>c'. slot_of i (snd (close_all own t)) = Some c' \<and> owner_of c' = owner_of c"
begin

lemma fetch_foreign: "slot_of i t = Some c \<Longrightarrow> owner_of c \<noteq> own \<Longrightarrow> fetch own i t = Inl bad"
  using fetch_iff [of own i t] fetch_error [of own i t] by (cases "fetch own i t") fastforce+

lemma fetch_same_error:
  "fetch own i t = Inl bad \<longleftrightarrow> (\<forall>c. slot_of i t = Some c \<longrightarrow> owner_of c \<noteq> own)"
  using fetch_iff [of own i t] fetch_error [of own i t] by (cases "fetch own i t") fastforce+

lemma closed_out:
  assumes "good t"
  shows "fetch own i (snd (close_all own t)) = Inl bad"
proof -
  have "owner_of c \<noteq> own" if "slot_of i (snd (close_all own t)) = Some c" for c
    using that close_all_mine [OF assms, of i _ own] close_all_none [OF assms, of i own]
      close_all_others [OF assms, of i _ own]
    by (cases "slot_of i t") fastforce+
  then show ?thesis
    using fetch_same_error by blast
qed

lemma others_stay:
  assumes "good t" and "fetch other i t = Inr c" and "other \<noteq> own"
  shows "\<exists>c'. fetch other i (snd (close_all own t)) = Inr c'"
  using assms close_all_others [of t i c own] fetch_iff by metis

end

end
