(* ===== verification/Frames.thy ===== *)
theory Frames
  imports Interfaces
begin

text \<open>
  The physical frame allocator (\<^verbatim>\<open>crates/kernel/src/mm/frame.rs\<close>): one bit per frame, a
  cursor for the next search, and a count of extra owners per frame that is allocated with the
  first sharing.  Physical addresses and frame numbers are \<open>nat\<close> (the code bounds them by
  \<^verbatim>\<open>MAX_TRACKED_PHYS\<close>), the bitmap and the counts are kept at their widths.  The bitmap
  and the table of counts live in frames of the pool; here they are fields, and \<open>fr_mem\<close> is
  the rest of the physical memory.  Through which virtual address memory is reached
  (\<^verbatim>\<open>phys_offset\<close>, \<^verbatim>\<open>access\<close>) is not modelled.
\<close>

section \<open>Data\<close>

definition PAGE_SIZE :: nat where
  "PAGE_SIZE = 4096"

definition MAX_REGIONS :: nat where
  "MAX_REGIONS = 1024"

definition MAX_TRACKED_PHYS :: nat where
  "MAX_TRACKED_PHYS = 2 ^ 40"

definition LOW_FRAME_LIMIT :: nat where
  "LOW_FRAME_LIMIT = 0xA0000 div PAGE_SIZE"

definition KIND_USABLE :: u32 where
  "KIND_USABLE = 0"

record raw_region =
  rg_start :: nat
  rg_len :: nat
  rg_kind :: u32

datatype frame_init_error =
  EmptyMemoryMap
| MisalignedMemoryMap
| NoUsableMemory
| BitmapDoesNotFit nat

record frames =
  fr_bitmap :: nat
  fr_bits :: "u8 list"
  fr_frames :: nat
  fr_bm_first :: nat
  fr_bm_frames :: nat
  fr_total :: nat
  fr_free :: nat
  fr_cursor :: nat
  fr_low :: "nat option"
  fr_shares :: "(nat \<times> u16 list) option"
  fr_mem :: "nat \<Rightarrow> u8"

definition frame_addr :: "nat \<Rightarrow> nat" where
  "frame_addr index = index * PAGE_SIZE"

definition align_up_u64 :: "nat \<Rightarrow> nat \<Rightarrow> nat" where
  "align_up_u64 value align =
     (case checked_add64 value (align - 1) of
        Some up \<Rightarrow> up div align * align
      | None \<Rightarrow> value)"

section \<open>Single bits\<close>

definition fr_byte :: "frames \<Rightarrow> nat \<Rightarrow> u8" where
  "fr_byte s index = fr_bits s ! index"

definition is_used :: "frames \<Rightarrow> nat \<Rightarrow> bool" where
  "is_used s index \<longleftrightarrow> fr_byte s (index div 8) AND push_bit (index mod 8) 1 \<noteq> 0"

definition set_used :: "nat \<Rightarrow> frames \<Rightarrow> frames" where
  "set_used index s =
     s\<lparr>fr_bits := (fr_bits s)[index div 8 := fr_byte s (index div 8) OR push_bit (index mod 8) 1]\<rparr>"

definition set_free :: "nat \<Rightarrow> frames \<Rightarrow> frames" where
  "set_free index s =
     s\<lparr>fr_bits := (fr_bits s)[index div 8 := fr_byte s (index div 8) AND NOT (push_bit (index mod 8) 1)]\<rparr>"

definition zero_frame :: "nat \<Rightarrow> frames \<Rightarrow> frames" where
  "zero_frame frame s =
     s\<lparr>fr_mem := \<lambda>a. if frame \<le> a \<and> a < frame + PAGE_SIZE then 0 else fr_mem s a\<rparr>"

section \<open>Building the map\<close>

definition release_one :: "nat \<Rightarrow> frames \<Rightarrow> frames" where
  "release_one index s =
     (if is_used s index
      then (set_free index s)\<lparr>fr_total := fr_total s + 1, fr_free := fr_free s + 1\<rparr> else s)"

definition release_region :: "nat \<Rightarrow> nat \<Rightarrow> frames \<Rightarrow> frames" where
  "release_region start len s =
     (case checked_add64 start len of
        None \<Rightarrow> s
      | Some stop \<Rightarrow>
          (let first = align_up_u64 start PAGE_SIZE div PAGE_SIZE;
               last = min (stop div PAGE_SIZE) (fr_frames s)
           in if last \<le> first then s else fold release_one [first..<last] s))"

definition reserve :: "nat \<Rightarrow> frames \<Rightarrow> frames" where
  "reserve index s =
     (if index < fr_frames s \<and> \<not> is_used s index
      then (set_used index s)\<lparr>fr_free := fr_free s - 1\<rparr> else s)"

definition map_extent :: "raw_region list \<Rightarrow> nat \<times> nat \<times> nat" where
  "map_extent regions =
     foldl (\<lambda>(top, host_start, host_len) region.
       case checked_add64 (rg_start region) (rg_len region) of
         None \<Rightarrow> (top, host_start, host_len)
       | Some stop \<Rightarrow>
           (let top = max top (min stop MAX_TRACKED_PHYS)
            in if rg_kind region = KIND_USABLE \<and> host_len < rg_len region
               then (top, rg_start region, rg_len region)
               else (top, host_start, host_len))) (0, 0, 0) regions"

definition release_usable :: "raw_region list \<Rightarrow> frames \<Rightarrow> frames" where
  "release_usable regions s =
     fold (\<lambda>region s. if rg_kind region \<noteq> KIND_USABLE then s
                      else release_region (rg_start region) (rg_len region) s) regions s"

definition reserve_low :: "frames \<Rightarrow> frames" where
  "reserve_low s =
     (let low_limit = min LOW_FRAME_LIMIT (fr_frames s) in
      case find (\<lambda>index. \<not> is_used s index) (rev [1..<low_limit]) of
        Some index \<Rightarrow> (reserve index s)\<lparr>fr_low := Some (frame_addr index)\<rparr>
      | None \<Rightarrow> s)"

definition frames_start :: "nat \<Rightarrow> nat \<Rightarrow> (nat \<Rightarrow> u8) \<Rightarrow> frames" where
  "frames_start frames bitmap_phys mem =
     (let bitmap_bytes = div_ceil frames 8;
          bitmap_span = div_ceil bitmap_bytes PAGE_SIZE * PAGE_SIZE
      in \<lparr>fr_bitmap = bitmap_phys, fr_bits = replicate bitmap_bytes 0xFF, fr_frames = frames,
          fr_bm_first = bitmap_phys div PAGE_SIZE, fr_bm_frames = bitmap_span div PAGE_SIZE,
          fr_total = 0, fr_free = 0, fr_cursor = 0, fr_low = None, fr_shares = None,
          fr_mem = mem\<rparr>)"

definition frames_new ::
  "nat \<Rightarrow> raw_region list \<Rightarrow> (nat \<Rightarrow> u8) \<Rightarrow> frame_init_error + frames" where
  "frames_new map_ptr map_regions mem =
     (if map_ptr = 0 \<or> map_regions = [] then Inl EmptyMemoryMap
      else if map_ptr mod 8 \<noteq> 0 then Inl MisalignedMemoryMap
      else
        let regions = take MAX_REGIONS map_regions;
            (top, host_start, host_len) = map_extent regions
        in if host_len = 0 then Inl NoUsableMemory
        else let frames = top div PAGE_SIZE in
          if frames = 0 then Inl EmptyMemoryMap
          else
            let bitmap_span = div_ceil (div_ceil frames 8) PAGE_SIZE * PAGE_SIZE;
                bitmap_phys = max (align_up_u64 host_start PAGE_SIZE) PAGE_SIZE;
                tail = saturating_add64 host_start host_len - bitmap_phys
            in if tail < bitmap_span \<or> MAX_TRACKED_PHYS \<le> bitmap_phys
               then Inl (BitmapDoesNotFit bitmap_span)
               else
                 let s = release_usable regions (frames_start frames bitmap_phys mem)
                 in if fr_total s = 0 then Inl NoUsableMemory
                    else
                      let s = fold (\<lambda>offset s. reserve (fr_bm_first s + offset) s)
                                [0..<fr_bm_frames s] s;
                          s = reserve 0 s
                      in Inr (reserve_low s))"

definition take_low_frame :: "frames \<Rightarrow> nat option \<times> frames" where
  "take_low_frame s = (fr_low s, s\<lparr>fr_low := None\<rparr>)"

definition claim_range :: "nat \<Rightarrow> nat \<Rightarrow> frames \<Rightarrow> bool \<times> frames" where
  "claim_range start len s =
     (let first = start div PAGE_SIZE;
          last = div_ceil (saturating_add64 start len) PAGE_SIZE
      in if fr_frames s < last \<or> list_ex (is_used s) [first..<last] then (False, s)
         else (True, fold reserve [first..<last] s))"

section \<open>Searching\<close>

function scan_run :: "frames \<Rightarrow> nat \<Rightarrow> nat \<Rightarrow> nat \<Rightarrow> nat option" where
  "scan_run s count index run =
     (if index < fr_frames s then
        if index mod 8 = 0 \<and> index + 8 \<le> fr_frames s \<and> fr_byte s (index div 8) = 0xFF
        then scan_run s count (index + 8) 0
        else if is_used s index then scan_run s count (index + 1) 0
        else if run + 1 = count then Some (index + 1 - count)
        else scan_run s count (index + 1) (run + 1)
      else None)"
  by pat_completeness auto
termination
  by (relation "measure (\<lambda>(s, count, index, run). fr_frames s - index)") auto

definition find_run :: "frames \<Rightarrow> nat \<Rightarrow> nat option" where
  "find_run s count =
     (if count = 0 \<or> fr_free s < count then None
      else let start = min (fr_cursor s) (fr_frames s) in
        case scan_run s count start 0 of
          Some first \<Rightarrow> Some first
        | None \<Rightarrow> if start = 0 then None else scan_run s count 0 0)"

text \<open>The inner loop of the aligned search: \<open>None\<close> when the frames up to \<open>stop\<close> are all
  free, or the index the search goes on behind.\<close>

function first_used :: "frames \<Rightarrow> nat \<Rightarrow> nat \<Rightarrow> nat option" where
  "first_used s index stop =
     (if index < stop then
        if index mod 8 = 0 \<and> index + 8 \<le> stop \<and> fr_byte s (index div 8) = 0xFF then Some (index + 7)
        else if is_used s index then Some index
        else first_used s (index + 1) stop
      else None)"
  by pat_completeness auto
termination
  by (relation "measure (\<lambda>(s, index, stop). stop - index)") auto

lemma first_used_ge: "first_used s index stop = Some i \<Longrightarrow> index \<le> i"
proof (induction s index stop rule: first_used.induct)
  case (1 s index stop)
  then show ?case
    unfolding first_used.simps [of s index stop] by (auto split: if_splits)
qed

declare scan_run.simps [simp del] first_used.simps [simp del]

lemma next_aligned: "0 < align \<Longrightarrow> start \<le> i \<Longrightarrow> start < div_ceil (i + 1) align * align"
  using div_ceil_mult_ge [of align "i + 1"] by linarith

function scan_aligned :: "frames \<Rightarrow> nat \<Rightarrow> nat \<Rightarrow> nat \<Rightarrow> nat option" where
  "scan_aligned s count align start =
     (if start + count \<le> fr_frames s \<and> 0 < count \<and> 0 < align then
        (case first_used s start (start + count) of
           None \<Rightarrow> Some start
         | Some index \<Rightarrow> scan_aligned s count align (div_ceil (index + 1) align * align))
      else None)"
  by pat_completeness auto
termination
proof (relation "measure (\<lambda>(s, count, align, start). fr_frames s - start)", goal_cases)
  case (2 s count align start i)
  then have "start \<le> i" and "0 < align" and "start < fr_frames s"
    using first_used_ge by auto
  then show ?case
    using next_aligned [of align start i] by simp
qed simp

declare scan_aligned.simps [simp del]

definition find_run_aligned :: "frames \<Rightarrow> nat \<Rightarrow> nat \<Rightarrow> nat option" where
  "find_run_aligned s count align =
     (if count = 0 \<or> align = 0 \<or> fr_free s < count then None
      else scan_aligned s count align 0)"

section \<open>Allocation and release\<close>

text \<open>Both allocators, once a run is found: mark it, and hand it out zeroed.\<close>

definition take_run :: "nat \<Rightarrow> nat \<Rightarrow> frames \<Rightarrow> nat option \<times> frames" where
  "take_run first count s =
     (let s = fold set_used [first..<first + count] s;
          s = s\<lparr>fr_free := fr_free s - count, fr_cursor := first + count\<rparr>;
          s = fold (\<lambda>offset. zero_frame (frame_addr (first + offset))) [0..<count] s
      in (Some (frame_addr first), s))"

definition allocate_contiguous :: "nat \<Rightarrow> frames \<Rightarrow> nat option \<times> frames" where
  "allocate_contiguous count s =
     (case find_run s count of None \<Rightarrow> (None, s) | Some first \<Rightarrow> take_run first count s)"

definition allocate_aligned :: "nat \<Rightarrow> nat \<Rightarrow> frames \<Rightarrow> nat option \<times> frames" where
  "allocate_aligned count align s =
     (case find_run_aligned s count align of
        None \<Rightarrow> (None, s) | Some first \<Rightarrow> take_run first count s)"

definition allocate :: "frames \<Rightarrow> nat option \<times> frames" where
  "allocate s =
     (case find_run s 1 of
        None \<Rightarrow> (None, s)
      | Some index \<Rightarrow>
          (let s = (set_used index s)\<lparr>fr_free := fr_free s - 1, fr_cursor := index + 1\<rparr>
           in (Some (frame_addr index), zero_frame (frame_addr index) s)))"

definition wrapping_sub64 :: "nat \<Rightarrow> nat \<Rightarrow> nat" where
  "wrapping_sub64 a b = (a + 2 ^ 64 - b) mod 2 ^ 64"

definition put_back :: "nat \<Rightarrow> frames \<Rightarrow> frames" where
  "put_back index s =
     (set_free index s)\<lparr>fr_free := fr_free s + 1, fr_cursor := min (fr_cursor s) index\<rparr>"

definition free_frame :: "nat \<Rightarrow> frames \<Rightarrow> frames" where
  "free_frame frame s =
     (if frame mod PAGE_SIZE \<noteq> 0 then s
      else let index = frame div PAGE_SIZE in
        if fr_frames s \<le> index then s
        else if wrapping_sub64 index (fr_bm_first s) < fr_bm_frames s then s
        else if \<not> is_used s index then s
        else (case fr_shares s of
            Some (table, counts) \<Rightarrow>
              if 0 < counts ! index
              then s\<lparr>fr_shares := Some (table, counts[index := counts ! index - 1])\<rparr>
              else put_back index s
          | None \<Rightarrow> put_back index s))"

definition free_contiguous :: "nat \<Rightarrow> nat \<Rightarrow> frames \<Rightarrow> frames" where
  "free_contiguous base count s =
     fold (\<lambda>offset. free_frame ((base + offset * PAGE_SIZE) mod 2 ^ 64)) [0..<count] s"

text \<open>The table of counts, made when the first frame is shared; \<open>None\<close> when there is no room.\<close>

definition share_table :: "frames \<Rightarrow> (nat \<times> u16 list) option \<times> frames" where
  "share_table s =
     (case fr_shares s of
        Some tc \<Rightarrow> (Some tc, s)
      | None \<Rightarrow>
          (let pages = div_ceil (fr_frames s * 2) PAGE_SIZE in
           case allocate_contiguous pages s of
             (None, s) \<Rightarrow> (None, s)
           | (Some table, s) \<Rightarrow>
               (let tc = (table, replicate (fr_frames s) 0)
                in (Some tc, s\<lparr>fr_shares := Some tc\<rparr>))))"

definition share :: "nat \<Rightarrow> frames \<Rightarrow> bool \<times> frames" where
  "share frame s =
     (let index = frame div PAGE_SIZE in
      if fr_frames s \<le> index \<or> \<not> is_used s index then (False, s)
      else (case share_table s of
          (None, s) \<Rightarrow> (False, s)
        | (Some (table, counts), s) \<Rightarrow>
            if counts ! index = 0xFFFF then (False, s)
            else (True, s\<lparr>fr_shares := Some (table, counts[index := counts ! index + 1])\<rparr>)))"

definition is_shared :: "nat \<Rightarrow> frames \<Rightarrow> bool" where
  "is_shared frame s =
     (let index = frame div PAGE_SIZE in
      case fr_shares s of
        Some (table, counts) \<Rightarrow> index < fr_frames s \<and> 0 < counts ! index
      | None \<Rightarrow> False)"

definition frame_stats :: "frames \<Rightarrow> nat \<times> nat" where
  "frame_stats s = (fr_total s, fr_free s)"

section \<open>Bits and counting\<close>

text \<open>What the bitmap says, and the invariant: the bitmap covers all frames, the number of free
  frames is right, the bitmap's own frames are never free, and only used frames have extra
  owners.\<close>

definition unused :: "frames \<Rightarrow> nat set" where
  "unused s = {i. i < fr_frames s \<and> \<not> is_used s i}"

definition bitmap_frame :: "frames \<Rightarrow> nat \<Rightarrow> bool" where
  "bitmap_frame s i \<longleftrightarrow> fr_bm_first s \<le> i \<and> i < fr_bm_first s + fr_bm_frames s"

definition extra :: "frames \<Rightarrow> nat \<Rightarrow> nat" where
  "extra s i = (case fr_shares s of None \<Rightarrow> 0 | Some (table, counts) \<Rightarrow> unat (counts ! i))"

definition frames_shape :: "frames \<Rightarrow> bool" where
  "frames_shape s \<longleftrightarrow>
     length (fr_bits s) = div_ceil (fr_frames s) 8 \<and> fr_frames s \<le> 2 ^ 28 \<and>
     fr_bm_first s \<le> 2 ^ 28 \<and> fr_bm_frames s \<le> 2 ^ 28 \<and> fr_free s = card (unused s)"

definition frames_inv :: "frames \<Rightarrow> bool" where
  "frames_inv s \<longleftrightarrow>
     frames_shape s \<and>
     (\<forall>i. bitmap_frame s i \<longrightarrow> i \<notin> unused s) \<and>
     (\<forall>table counts. fr_shares s = Some (table, counts) \<longrightarrow> length counts = fr_frames s) \<and>
     (\<forall>i < fr_frames s. 0 < extra s i \<longrightarrow> is_used s i)"

lemma is_used_bit: "is_used s i \<longleftrightarrow> bit (fr_bits s ! (i div 8)) (i mod 8)"
  by (simp add: is_used_def fr_byte_def bit_iff_and_push_bit_not_eq_0)

lemma div8_less: "i < n \<Longrightarrow> i div 8 < div_ceil n 8"
  by (simp add: less_div_ceil_iff)

lemma div_mod_8_eq: "i div 8 = j div 8 \<and> i mod 8 = j mod 8 \<longleftrightarrow> i = (j::nat)"
  by (metis div_mult_mod_eq)

lemma is_used_set_used:
  assumes "length (fr_bits s) = div_ceil (fr_frames s) 8" and "i < fr_frames s"
  shows "is_used (set_used i s) j \<longleftrightarrow> j = i \<or> is_used s j"
  using assms div8_less [OF assms(2)] div_mod_8_eq [of i j]
  by (auto simp: is_used_bit set_used_def fr_byte_def nth_list_update bit_simps)

lemma is_used_set_free:
  assumes "length (fr_bits s) = div_ceil (fr_frames s) 8" and "i < fr_frames s"
  shows "is_used (set_free i s) j \<longleftrightarrow> j \<noteq> i \<and> is_used s j"
  using assms div8_less [OF assms(2)] div_mod_8_eq [of i j]
  by (auto simp: is_used_bit set_free_def fr_byte_def nth_list_update bit_simps)

lemma set_used_simps [simp]:
  "fr_frames (set_used i s) = fr_frames s" "fr_bm_first (set_used i s) = fr_bm_first s"
  "fr_bm_frames (set_used i s) = fr_bm_frames s" "fr_free (set_used i s) = fr_free s"
  "fr_shares (set_used i s) = fr_shares s" "fr_total (set_used i s) = fr_total s"
  "fr_mem (set_used i s) = fr_mem s" "fr_cursor (set_used i s) = fr_cursor s"
  "fr_low (set_used i s) = fr_low s" "length (fr_bits (set_used i s)) = length (fr_bits s)"
  by (simp_all add: set_used_def)

lemma set_free_simps [simp]:
  "fr_frames (set_free i s) = fr_frames s" "fr_bm_first (set_free i s) = fr_bm_first s"
  "fr_bm_frames (set_free i s) = fr_bm_frames s" "fr_free (set_free i s) = fr_free s"
  "fr_shares (set_free i s) = fr_shares s" "fr_total (set_free i s) = fr_total s"
  "fr_mem (set_free i s) = fr_mem s" "fr_cursor (set_free i s) = fr_cursor s"
  "fr_low (set_free i s) = fr_low s" "length (fr_bits (set_free i s)) = length (fr_bits s)"
  by (simp_all add: set_free_def)

lemma zero_frame_simps [simp]:
  "fr_frames (zero_frame f s) = fr_frames s" "fr_bm_first (zero_frame f s) = fr_bm_first s"
  "fr_bm_frames (zero_frame f s) = fr_bm_frames s" "fr_free (zero_frame f s) = fr_free s"
  "fr_shares (zero_frame f s) = fr_shares s" "fr_bits (zero_frame f s) = fr_bits s"
  "fr_cursor (zero_frame f s) = fr_cursor s" "fr_total (zero_frame f s) = fr_total s"
  "fr_low (zero_frame f s) = fr_low s" "fr_bitmap (zero_frame f s) = fr_bitmap s"
  by (simp_all add: zero_frame_def)

lemma is_used_cong: "fr_bits s = fr_bits t \<Longrightarrow> is_used s i = is_used t i"
  by (simp add: is_used_bit)

lemma unused_cong: "fr_bits s = fr_bits t \<Longrightarrow> fr_frames s = fr_frames t \<Longrightarrow> unused s = unused t"
  by (simp add: unused_def is_used_bit)

lemma finite_unused [simp]: "finite (unused s)"
  by (simp add: unused_def)

lemma unused_set_used:
  "length (fr_bits s) = div_ceil (fr_frames s) 8 \<Longrightarrow> i < fr_frames s \<Longrightarrow>
   unused (set_used i s) = unused s - {i}"
  by (auto simp: unused_def is_used_set_used)

lemma unused_set_free:
  "length (fr_bits s) = div_ceil (fr_frames s) 8 \<Longrightarrow> i < fr_frames s \<Longrightarrow>
   unused (set_free i s) = insert i (unused s)"
  by (auto simp: unused_def is_used_set_free)

lemma less_8_cases: "(n::nat) < 8 \<Longrightarrow> n \<in> {0, 1, 2, 3, 4, 5, 6, 7}"
  unfolding insert_iff empty_iff by presburger

lemma full_byte_used:
  assumes "fr_byte s (i div 8) = 0xFF" and "i mod 8 = 0" and "i \<le> j" and "j < i + 8"
  shows "is_used s j"
proof -
  have "i = 8 * (i div 8)"
    using assms(2) by presburger
  then obtain q r where "i = 8 * q" "j = 8 * q + r" "r < 8"
    using assms(3,4) by (metis add_less_cancel_left le_Suc_ex)
  then have "j div 8 = i div 8"
    by simp
  moreover have "bit (0xFF :: u8) n" if "n < 8" for n
    using that less_8_cases [of n] by (auto simp: bit_simps)
  ultimately show ?thesis
    using assms(1) by (simp add: is_used_bit fr_byte_def)
qed

section \<open>The searches\<close>

definition free_run :: "frames \<Rightarrow> nat \<Rightarrow> nat \<Rightarrow> bool" where
  "free_run s first count \<longleftrightarrow>
     first + count \<le> fr_frames s \<and> (\<forall>j. first \<le> j \<and> j < first + count \<longrightarrow> \<not> is_used s j)"

lemma scan_run_sound:
  "scan_run s count index run = Some first \<Longrightarrow> run \<le> index \<Longrightarrow> run < count \<Longrightarrow>
   (\<forall>j. index - run \<le> j \<and> j < index \<longrightarrow> \<not> is_used s j) \<Longrightarrow> free_run s first count"
proof (induction s count index run rule: scan_run.induct)
  case (1 s count index run)
  show ?case
  proof (cases "index < fr_frames s \<and>
      \<not> (index mod 8 = 0 \<and> index + 8 \<le> fr_frames s \<and> fr_byte s (index div 8) = 0xFF) \<and>
      \<not> is_used s index")
    case True
    then have *: "\<forall>j. index + 1 - (run + 1) \<le> j \<and> j < index + 1 \<longrightarrow> \<not> is_used s j"
      using "1.prems"(4) by (auto simp: less_Suc_eq)
    show ?thesis
    proof (cases "run + 1 = count")
      case True': True
      then have "first = index + 1 - count"
        using True "1.prems"(1) by (auto simp: scan_run.simps [of s count index run] split: if_splits)
      then show ?thesis
        using * True True' "1.prems"(2) by (auto simp: free_run_def)
    next
      case False
      then have "scan_run s count (index + 1) (run + 1) = Some first"
        using True "1.prems"(1) by (subst (asm) scan_run.simps) auto
      then show ?thesis
        using "1.IH"(3) [OF _ _ _ False] True False "1.prems"(2,3) * by simp
    qed
  next
    case False
    then show ?thesis
      using "1.IH"(1,2) "1.prems" by (subst (asm) (3) scan_run.simps) (auto split: if_splits)
  qed
qed

lemma scan_run_complete:
  "scan_run s count index run = None \<Longrightarrow> run < count \<Longrightarrow> run \<le> index \<Longrightarrow>
   index - run \<le> first \<Longrightarrow> \<not> free_run s first count"
proof (induction s count index run rule: scan_run.induct)
  case (1 s count index run)
  have after: "i < first" if "is_used s i" "free_run s first count" "i < first + count" for i
    using that by (fastforce simp: free_run_def not_less)
  have reach: "index < first + count"
    using "1.prems" by linarith
  show ?case
  proof
    assume run: "free_run s first count"
    then have inside: "index < fr_frames s"
      using reach by (simp add: free_run_def)
    show False
    proof (cases "index mod 8 = 0 \<and> index + 8 \<le> fr_frames s \<and> fr_byte s (index div 8) = 0xFF")
      case True
      then have u: "is_used s j" if "index \<le> j" "j < index + 8" for j
        using True that full_byte_used [of s index j] by simp
      have "j < first" if "j < index + 8" for j
        using that
      proof (induction j)
        case 0
        then show ?case using after [OF u run, of index] reach by simp
      next
        case (Suc j)
        show ?case
        proof (cases "Suc j < index")
          case True
          then show ?thesis using after [OF u run, of index] reach by simp
        next
          case False
          then show ?thesis
            using after [OF u run, of "Suc j"] Suc "1.prems"(2) by simp
        qed
      qed
      from this [of "index + 7"] have "index + 8 \<le> first" by simp
      moreover have "scan_run s count (index + 8) 0 = None"
        using True inside "1.prems"(1) by (simp add: scan_run.simps [of s count index run])
      ultimately show False
        using "1.IH"(1) [OF inside True] "1.prems"(2) run by simp
    next
      case not_full: False
      show False
      proof (cases "is_used s index")
        case True
        then have "scan_run s count (index + 1) 0 = None"
          using not_full inside "1.prems"(1) by (subst (asm) scan_run.simps) auto
        moreover have "index + 1 \<le> first"
          using after [OF True run] reach by simp
        ultimately show False
          using "1.IH"(2) [OF inside not_full True] "1.prems"(2) run by simp
      next
        case False
        then have ne: "run + 1 \<noteq> count" and "scan_run s count (index + 1) (run + 1) = None"
          using not_full inside "1.prems"(1)
          by (simp_all add: scan_run.simps [of s count index run] split: if_splits)
        then show False
          using "1.IH"(3) [OF inside not_full False] "1.prems"(2-4) run by simp
      qed
    qed
  qed
qed

lemma find_run_sound:
  "find_run s count = Some first \<Longrightarrow> 0 < count \<and> count \<le> fr_free s \<and> free_run s first count"
  using scan_run_sound [of s count]
  by (fastforce simp: find_run_def Let_def split: if_splits option.splits)

lemma find_run_complete:
  assumes "find_run s count = None" and "0 < count" and "count \<le> fr_free s"
  shows "\<not> free_run s first count"
proof -
  have "scan_run s count 0 0 = None"
    using assms by (auto simp: find_run_def Let_def split: option.splits if_splits)
  then show ?thesis
    using scan_run_complete [of s count 0 0 first] assms(2) by simp
qed

lemma first_used_None:
  "first_used s index stop = None \<Longrightarrow> index \<le> j \<Longrightarrow> j < stop \<Longrightarrow> \<not> is_used s j"
proof (induction s index stop rule: first_used.induct)
  case (1 s index stop)
  then show ?case
    by (cases "j = index") (auto simp: first_used.simps [of s index stop] split: if_splits)
qed

lemma first_used_Some:
  "first_used s index stop = Some i \<Longrightarrow> is_used s i \<and> i < stop"
proof (induction s index stop rule: first_used.induct)
  case (1 s index stop)
  then show ?case
    using full_byte_used [of s index "index + 7"]
    by (auto simp: first_used.simps [of s index stop] split: if_splits)
qed

lemma scan_aligned_sound:
  "scan_aligned s count align start = Some first \<Longrightarrow> align dvd start \<Longrightarrow>
   align dvd first \<and> free_run s first count"
proof (induction s count align start rule: scan_aligned.induct)
  case (1 s count align start)
  show ?case
  proof (cases "first_used s start (start + count)")
    case None
    then have "first = start" "start + count \<le> fr_frames s"
      using "1.prems"(1) by (auto simp: scan_aligned.simps [of s count align start] split: if_splits)
    then show ?thesis
      using None "1.prems"(2) first_used_None by (auto simp: free_run_def)
  next
    case (Some i)
    then show ?thesis
      using "1.IH" "1.prems"(1)
      by (auto simp: scan_aligned.simps [of s count align start] split: if_splits)
  qed
qed

lemma scan_aligned_complete:
  "scan_aligned s count align start = None \<Longrightarrow> 0 < count \<Longrightarrow> 0 < align \<Longrightarrow>
   start \<le> first \<Longrightarrow> align dvd first \<Longrightarrow> \<not> free_run s first count"
proof (induction s count align start rule: scan_aligned.induct)
  case (1 s count align start)
  show ?case
  proof (cases "start + count \<le> fr_frames s")
    case False
    then show ?thesis using "1.prems"(4) by (auto simp: free_run_def)
  next
    case True
    then obtain i where i: "first_used s start (start + count) = Some i"
      "scan_aligned s count align (div_ceil (i + 1) align * align) = None"
      using "1.prems"(1-3) scan_aligned.simps [of s count align start]
      by (auto split: option.splits)
    show ?thesis
    proof
      assume run: "free_run s first count"
      then have "i < first"
        using first_used_Some [OF i(1)] "1.prems"(4) by (fastforce simp: free_run_def not_less)
      moreover obtain q where "first = q * align"
        using "1.prems"(5) by (metis dvdE mult.commute)
      ultimately have "div_ceil (i + 1) align * align \<le> first"
        using div_ceil_le_iff [OF "1.prems"(3), of "i + 1" q] by simp
      then show False
        using "1.IH" i True "1.prems"(2,3,5) run by simp
    qed
  qed
qed

section \<open>Handing out a run\<close>

text \<open>What an allocation does: the run is used afterwards and reads as zeros, and nothing else
  changes.\<close>

definition handed_out :: "frames \<Rightarrow> nat \<Rightarrow> nat \<Rightarrow> frames \<Rightarrow> bool" where
  "handed_out s first count s' \<longleftrightarrow>
     fr_frames s' = fr_frames s \<and> fr_bm_first s' = fr_bm_first s \<and>
     fr_bm_frames s' = fr_bm_frames s \<and> fr_shares s' = fr_shares s \<and>
     fr_total s' = fr_total s \<and> fr_free s' + count = fr_free s \<and>
     (\<forall>j. is_used s' j \<longleftrightarrow> is_used s j \<or> first \<le> j \<and> j < first + count) \<and>
     (\<forall>a. fr_mem s' a =
        (if frame_addr first \<le> a \<and> a < frame_addr (first + count) then 0 else fr_mem s a))"

lemma fold_set_used:
  assumes "length (fr_bits s) = div_ceil (fr_frames s) 8" and "\<forall>i\<in>set xs. i < fr_frames s"
  shows "is_used (fold set_used xs s) j \<longleftrightarrow> is_used s j \<or> j \<in> set xs"
    and "fold set_used xs s = s\<lparr>fr_bits := fr_bits (fold set_used xs s)\<rparr>"
    and "length (fr_bits (fold set_used xs s)) = length (fr_bits s)"
  using assms
proof (induction xs arbitrary: s)
  case (Cons x xs)
  case 1
  then show ?case using Cons(1) [of "set_used x s"] by (auto simp: is_used_set_used)
next
  case (Cons x xs)
  case 2
  then show ?case
    using Cons(2) [of "set_used x s"] by (simp add: set_used_def)
next
  case (Cons x xs)
  case 3
  then show ?case using Cons(3) [of "set_used x s"] by simp
qed simp_all

lemma zero_frame_mem:
  "zero_frame f (s\<lparr>fr_mem := m\<rparr>) =
     s\<lparr>fr_mem := \<lambda>a. if f \<le> a \<and> a < f + PAGE_SIZE then 0 else m a\<rparr>"
  unfolding zero_frame_def by (intro frames.equality ext) auto

lemma fold_zero_frames:
  "fold (\<lambda>offset. zero_frame (frame_addr (first + offset))) [0..<count] s =
     s\<lparr>fr_mem := \<lambda>a. if frame_addr first \<le> a \<and> a < frame_addr (first + count) then 0 else fr_mem s a\<rparr>"
proof (induction count)
  case (Suc count)
  have "frame_addr (first + Suc count) = frame_addr (first + count) + PAGE_SIZE"
    "frame_addr first \<le> frame_addr (first + count)"
    by (simp_all add: frame_addr_def)
  then show ?case
    unfolding upt_Suc_append [OF le0] fold_append Suc comp_def fold_simps zero_frame_mem
    by (intro frames.equality) auto
qed (intro frames.equality ext, auto)

lemma free_run_card:
  assumes "free_run s first count"
  shows "count \<le> card (unused s)"
proof -
  have "{first..<first + count} \<subseteq> unused s"
    using assms by (auto simp: free_run_def unused_def)
  from card_mono [OF finite_unused this] show ?thesis
    by simp
qed

lemma unused_take:
  assumes "\<forall>j. is_used s' j \<longleftrightarrow> is_used s j \<or> first \<le> j \<and> j < first + count"
    and "fr_frames s' = fr_frames s"
  shows "unused s' = unused s - {first..<first + count}"
proof (rule set_eqI)
  fix i
  show "i \<in> unused s' \<longleftrightarrow> i \<in> unused s - {first..<first + count}"
    using assms(1) [rule_format, of i] assms(2) by (auto simp: unused_def)
qed

lemma handed_out_inv:
  assumes "frames_inv s" and "handed_out s first count s'" and "free_run s first count"
    and "length (fr_bits s') = length (fr_bits s)"
  shows "frames_inv s'"
proof -
  have unused: "unused s' = unused s - {first..<first + count}"
    using assms(2) by (intro unused_take) (auto simp: handed_out_def)
  have "{first..<first + count} \<subseteq> unused s"
    using assms(3) by (auto simp: free_run_def unused_def)
  then have "card (unused s') = card (unused s) - count"
    by (simp add: unused card_Diff_subset)
  then have "frames_shape s'"
    using assms by (auto simp: frames_inv_def frames_shape_def handed_out_def)
  moreover have "extra s' = extra s" "bitmap_frame s' = bitmap_frame s"
    using assms(2) by (auto simp: handed_out_def extra_def bitmap_frame_def fun_eq_iff)
  ultimately show ?thesis
    using assms(1,2) by (auto simp: frames_inv_def unused handed_out_def)
qed

lemma take_run_spec:
  assumes "frames_inv s" and "free_run s first count"
  shows "fst (take_run first count s) = Some (frame_addr first)"
    and "handed_out s first count (snd (take_run first count s))"
    and "frames_inv (snd (take_run first count s))"
proof -
  have len: "length (fr_bits s) = div_ceil (fr_frames s) 8" and free: "count \<le> fr_free s"
    using assms(1) free_run_card [OF assms(2)] by (simp_all add: frames_inv_def frames_shape_def)
  have run: "\<forall>i\<in>set [first..<first + count]. i < fr_frames s"
    using assms(2) by (auto simp: free_run_def)
  obtain b where b: "fold set_used [first..<first + count] s = s\<lparr>fr_bits := b\<rparr>"
    using fold_set_used(2) [OF len run] by blast
  let ?s = "snd (take_run first count s)"
  have s': "?s = s\<lparr>fr_bits := b, fr_free := fr_free s - count, fr_cursor := first + count,
      fr_mem := \<lambda>a. if frame_addr first \<le> a \<and> a < frame_addr (first + count) then 0 else fr_mem s a\<rparr>"
    unfolding take_run_def Let_def snd_conv fold_zero_frames b
    by (intro frames.equality) auto
  have used: "is_used ?s j \<longleftrightarrow> is_used s j \<or> first \<le> j \<and> j < first + count" for j
    using fold_set_used(1) [OF len run, of j] by (simp add: s' b is_used_bit)
  show out: "handed_out s first count ?s"
    unfolding handed_out_def using used free by (simp add: s')
  show "fst (take_run first count s) = Some (frame_addr first)"
    by (simp add: take_run_def Let_def)
  show "frames_inv ?s"
    using handed_out_inv [OF assms(1) out assms(2)] fold_set_used(3) [OF len run]
    by (simp add: s' b)
qed

lemma allocate_eq: "allocate s = allocate_contiguous 1 s"
  by (simp add: allocate_def allocate_contiguous_def take_run_def Let_def split: option.splits)

section \<open>Allocation\<close>

lemma find_run_none:
  assumes "frames_inv s" and "find_run s count = None" and "0 < count"
  shows "\<not> free_run s first count"
proof
  assume run: "free_run s first count"
  then have "count \<le> fr_free s"
    using free_run_card assms(1) by (simp add: frames_inv_def frames_shape_def)
  then show False
    using find_run_complete assms(2,3) run by blast
qed

lemma find_run_aligned_none:
  assumes "frames_inv s" and "find_run_aligned s count align = None" and "0 < count" and "0 < align"
    and "align dvd first"
  shows "\<not> free_run s first count"
proof
  assume run: "free_run s first count"
  then have "count \<le> fr_free s"
    using free_run_card assms(1) by (simp add: frames_inv_def frames_shape_def)
  then have "scan_aligned s count align 0 = None"
    using assms(2-4) by (simp add: find_run_aligned_def split: if_splits)
  then show False
    using scan_aligned_complete [of s count align 0 first] assms(3-5) run by simp
qed

lemma allocate_contiguous_spec:
  assumes "frames_inv s" and "0 < count"
  shows "case allocate_contiguous count s of
      (None, s') \<Rightarrow> s' = s \<and> (\<forall>first. \<not> free_run s first count)
    | (Some base, s') \<Rightarrow>
        frames_inv s' \<and>
        (\<exists>first. base = frame_addr first \<and> free_run s first count \<and> handed_out s first count s')"
proof (cases "find_run s count")
  case None
  then show ?thesis
    using find_run_none [OF assms(1) None assms(2)] by (simp add: allocate_contiguous_def)
next
  case (Some first)
  then have run: "free_run s first count"
    using find_run_sound by blast
  obtain base s' where t: "take_run first count s = (base, s')"
    by fastforce
  show ?thesis
    using take_run_spec [OF assms(1) run] run by (auto simp: allocate_contiguous_def Some t)
qed

text \<open>
  C11.  Contiguous allocation is sound and complete: it fails exactly when no run of that many
  free frames exists, changing nothing; otherwise it returns the address of such a run, which
  is used afterwards and reads as zeros, no other frame or byte changes, and the invariant of
  the allocator holds on.
\<close>

theorem allocate_contiguous_correct:
  assumes "frames_inv s" and "0 < count"
  shows "case allocate_contiguous count s of
      (None, s') \<Rightarrow> s' = s \<and> (\<forall>first. \<not> free_run s first count)
    | (Some base, s') \<Rightarrow>
        frames_inv s' \<and>
        (\<exists>first. base = frame_addr first \<and> free_run s first count \<and> handed_out s first count s')"
  by (rule allocate_contiguous_spec [OF assms])

text \<open>A pool of sixteen frames that is all free except for the bitmap and frame zero.\<close>

definition small_pool :: frames where
  "small_pool = \<lparr>fr_bitmap = 4096, fr_bits = [3, 0], fr_frames = 16, fr_bm_first = 1,
     fr_bm_frames = 1, fr_total = 16, fr_free = 14, fr_cursor = 0, fr_low = None,
     fr_shares = None, fr_mem = \<lambda>a. 7\<rparr>"

lemma small_pool_unused: "unused small_pool = {2..<16}"
proof -
  have "is_used small_pool i \<longleftrightarrow> i < 2" if "i < 16" for i
  proof -
    have "i \<in> {0, 1, 2, 3, 4, 5, 6, 7, 8, 9, 10, 11, 12, 13, 14, 15}"
      using that unfolding insert_iff empty_iff by presburger
    then show ?thesis
      by (auto simp: is_used_def fr_byte_def small_pool_def)
  qed
  then show ?thesis
    by (force simp: unused_def small_pool_def)
qed

lemma small_pool_inv: "frames_inv small_pool"
  unfolding frames_inv_def frames_shape_def small_pool_unused
  by (simp add: small_pool_def bitmap_frame_def extra_def div_ceil_def)

theorem allocate_contiguous_correct_witness:
  "case allocate_contiguous 3 small_pool of
      (None, s') \<Rightarrow> s' = small_pool \<and> (\<forall>first. \<not> free_run small_pool first 3)
    | (Some base, s') \<Rightarrow>
        frames_inv s' \<and> (\<exists>first. base = frame_addr first \<and> free_run small_pool first 3 \<and>
          handed_out small_pool first 3 s')"
  using allocate_contiguous_correct [OF small_pool_inv, of 3] by simp

text \<open>
  C12.  Aligned allocation likewise, for runs that start at a multiple of the alignment: it
  fails exactly when there is no such run, and what it returns is aligned, free before, used
  and zeroed afterwards.
\<close>

theorem allocate_aligned_correct:
  assumes "frames_inv s" and "0 < count" and "0 < align"
  shows "case allocate_aligned count align s of
      (None, s') \<Rightarrow> s' = s \<and> (\<forall>first. align dvd first \<longrightarrow> \<not> free_run s first count)
    | (Some base, s') \<Rightarrow>
        frames_inv s' \<and>
        (\<exists>first. base = frame_addr first \<and> align dvd first \<and> free_run s first count \<and>
           handed_out s first count s')"
proof (cases "find_run_aligned s count align")
  case None
  then show ?thesis
    using find_run_aligned_none [OF assms(1) None assms(2,3)] by (simp add: allocate_aligned_def)
next
  case (Some first)
  then have "scan_aligned s count align 0 = Some first"
    by (simp add: find_run_aligned_def split: if_splits)
  then have run: "align dvd first" "free_run s first count"
    using scan_aligned_sound by fastforce+
  obtain base s' where t: "take_run first count s = (base, s')"
    by fastforce
  show ?thesis
    using take_run_spec [OF assms(1) run(2)] run by (auto simp: allocate_aligned_def Some t)
qed

theorem allocate_aligned_correct_witness:
  "case allocate_aligned 4 8 small_pool of
      (None, s') \<Rightarrow> s' = small_pool \<and> (\<forall>first. 8 dvd first \<longrightarrow> \<not> free_run small_pool first 4)
    | (Some base, s') \<Rightarrow>
        frames_inv s' \<and> (\<exists>first. base = frame_addr first \<and> 8 dvd first \<and>
          free_run small_pool first 4 \<and> handed_out small_pool first 4 s')"
  using allocate_aligned_correct [OF small_pool_inv, of 4 8] by simp

section \<open>Owners\<close>

text \<open>How many owners the frame at an address has, and the addresses \<open>free\<close> accepts.\<close>

definition owners :: "frames \<Rightarrow> nat \<Rightarrow> nat" where
  "owners s frame =
     (let index = frame div PAGE_SIZE in
      if index < fr_frames s \<and> is_used s index then 1 + extra s index else 0)"

definition releasable :: "frames \<Rightarrow> nat \<Rightarrow> bool" where
  "releasable s frame \<longleftrightarrow>
     frame mod PAGE_SIZE = 0 \<and> frame div PAGE_SIZE < fr_frames s \<and>
     \<not> bitmap_frame s (frame div PAGE_SIZE)"

lemma wrapping_sub64_less:
  assumes "a \<le> 2 ^ 28" and "b \<le> 2 ^ 28" and "n \<le> 2 ^ 28"
  shows "wrapping_sub64 a b < n \<longleftrightarrow> b \<le> a \<and> a < b + n"
proof (cases "b \<le> a")
  case True
  then have "a + 2 ^ 64 - b = (a - b) + 2 ^ 64"
    by simp
  then have "wrapping_sub64 a b = (a - b) mod 2 ^ 64"
    by (simp only: wrapping_sub64_def mod_add_self2)
  then show ?thesis
    using True assms(1) by (auto simp: mod_less)
next
  case False
  then have "wrapping_sub64 a b = a + 2 ^ 64 - b"
    using assms by (simp add: wrapping_sub64_def)
  then show ?thesis
    using False assms by simp
qed

lemma bitmap_guard:
  "frames_inv s \<Longrightarrow> i < fr_frames s \<Longrightarrow>
   wrapping_sub64 i (fr_bm_first s) < fr_bm_frames s \<longleftrightarrow> bitmap_frame s i"
  unfolding bitmap_frame_def
  by (rule wrapping_sub64_less) (simp_all add: frames_inv_def frames_shape_def)

lemma extra_counts: "fr_shares s = Some (table, counts) \<Longrightarrow> extra s i = unat (counts ! i)"
  by (simp add: extra_def)

lemma free_frame_refused:
  assumes "frames_inv s" and "\<not> releasable s frame \<or> owners s frame = 0"
  shows "free_frame frame s = s"
proof -
  let ?i = "frame div PAGE_SIZE"
  consider "frame mod PAGE_SIZE \<noteq> 0" | "fr_frames s \<le> ?i"
    | "?i < fr_frames s" "bitmap_frame s ?i" | "?i < fr_frames s" "\<not> is_used s ?i"
    using assms(2) by (cases "?i < fr_frames s") (auto simp: releasable_def owners_def Let_def split: if_splits)
  then show ?thesis
    using bitmap_guard [OF assms(1), of ?i]
    by cases (simp_all add: free_frame_def Let_def)
qed

lemma put_back_inv:
  assumes "frames_inv s" and "i < fr_frames s" and "is_used s i" and "extra s i = 0"
    and "\<not> bitmap_frame s i"
  shows "frames_inv (put_back i s)"
    and "is_used (put_back i s) j \<longleftrightarrow> j \<noteq> i \<and> is_used s j"
    and "unused (put_back i s) = insert i (unused s)"
proof -
  have len: "length (fr_bits s) = div_ceil (fr_frames s) 8"
    using assms(1) by (simp add: frames_inv_def frames_shape_def)
  have used: "is_used (put_back i s) j \<longleftrightarrow> j \<noteq> i \<and> is_used s j" for j
    using is_used_set_free [OF len assms(2)] by (simp add: put_back_def is_used_bit)
  have un: "unused (put_back i s) = insert i (unused s)"
    using unused_set_free [OF len assms(2)] by (simp add: put_back_def unused_def is_used_bit)
  have "i \<notin> unused s"
    using assms(3) by (simp add: unused_def)
  then have "frames_shape (put_back i s)"
    using assms(1) un by (simp add: frames_inv_def frames_shape_def) (simp add: put_back_def)
  moreover have "extra (put_back i s) = extra s" "bitmap_frame (put_back i s) = bitmap_frame s"
    by (simp_all add: extra_def bitmap_frame_def fun_eq_iff put_back_def)
  ultimately show "frames_inv (put_back i s)"
    using assms unfolding frames_inv_def un
    by (auto simp: used) (auto simp: put_back_def)
  show "is_used (put_back i s) j \<longleftrightarrow> j \<noteq> i \<and> is_used s j"
    by (rule used)
  show "unused (put_back i s) = insert i (unused s)"
    by (rule un)
qed

definition with_count :: "frames \<Rightarrow> nat \<Rightarrow> u16 list \<Rightarrow> nat \<Rightarrow> u16 \<Rightarrow> frames" where
  "with_count s table counts i c = s\<lparr>fr_shares := Some (table, counts[i := c])\<rparr>"

lemma with_count:
  assumes "frames_inv s" and "fr_shares s = Some (table, counts)" and "i < fr_frames s"
    and "is_used s i"
  shows "frames_inv (with_count s table counts i c)"
    and "extra (with_count s table counts i c) j = (if j = i then unat c else extra s j)"
    and "is_used (with_count s table counts i c) j = is_used s j"
proof -
  have len: "length counts = fr_frames s"
    using assms(1,2) by (simp add: frames_inv_def)
  have extra: "extra (with_count s table counts i c) j = (if j = i then unat c else extra s j)" for j
    using len assms(2,3) by (simp add: extra_def with_count_def)
  then show "extra (with_count s table counts i c) j = (if j = i then unat c else extra s j)" .
  have used: "is_used (with_count s table counts i c) j = is_used s j" for j
    by (simp add: is_used_bit with_count_def)
  then show "is_used (with_count s table counts i c) j = is_used s j" .
  have "unused (with_count s table counts i c) = unused s"
    "bitmap_frame (with_count s table counts i c) = bitmap_frame s"
    by (simp_all add: unused_def bitmap_frame_def used fun_eq_iff) (simp_all add: with_count_def)
  then show "frames_inv (with_count s table counts i c)"
    using assms len unfolding frames_inv_def extra used frames_shape_def
    by (auto simp: with_count_def split: if_splits)
qed

lemma aligned_eq: "f mod PAGE_SIZE = 0 \<Longrightarrow> g mod PAGE_SIZE = 0 \<Longrightarrow>
  f div PAGE_SIZE = g div PAGE_SIZE \<longleftrightarrow> f = g"
  by (metis div_mult_mod_eq)

lemma free_frame_owners:
  assumes "frames_inv s" and "releasable s frame" and "0 < owners s frame"
  shows "frames_inv (free_frame frame s)"
    and "owners (free_frame frame s) frame = owners s frame - 1"
    and "g div PAGE_SIZE \<noteq> frame div PAGE_SIZE \<Longrightarrow> owners (free_frame frame s) g = owners s g"
    and "fr_frames (free_frame frame s) = fr_frames s"
    and "bitmap_frame (free_frame frame s) = bitmap_frame s"
    and "fr_mem (free_frame frame s) = fr_mem s"
proof -
  let ?i = "frame div PAGE_SIZE"
  have i: "?i < fr_frames s" "is_used s ?i" "frame mod PAGE_SIZE = 0" "\<not> bitmap_frame s ?i"
    using assms(2,3) by (auto simp: releasable_def owners_def Let_def split: if_splits)
  have eq: "free_frame frame s = (if extra s ?i = 0 then put_back ?i s
      else with_count s (fst (the (fr_shares s))) (snd (the (fr_shares s))) ?i
             (snd (the (fr_shares s)) ! ?i - 1))"
    using i assms(1) bitmap_guard [OF assms(1) i(1)]
    by (auto simp: free_frame_def Let_def extra_def with_count_def word_gt_0 unsigned_eq_0_iff split: option.splits)
  show "fr_frames (free_frame frame s) = fr_frames s"
    "bitmap_frame (free_frame frame s) = bitmap_frame s" "fr_mem (free_frame frame s) = fr_mem s"
    by (auto simp: eq put_back_def with_count_def bitmap_frame_def fun_eq_iff)
  show "frames_inv (free_frame frame s)" "owners (free_frame frame s) frame = owners s frame - 1"
    "g div PAGE_SIZE \<noteq> ?i \<Longrightarrow> owners (free_frame frame s) g = owners s g"
  proof (goal_cases)
    case 1
    show ?case
    proof (cases "extra s ?i = 0")
      case False
      then obtain table counts where "fr_shares s = Some (table, counts)"
        by (auto simp: extra_def split: option.splits)
      then show ?thesis using False with_count(1) [OF assms(1) _ i(1,2)] by (simp add: eq)
    qed (use put_back_inv(1) [OF assms(1) i(1,2) _ i(4)] in \<open>simp add: eq\<close>)
  next
    case 2
    show ?case
    proof (cases "extra s ?i = 0")
      case False
      then obtain table counts where tc: "fr_shares s = Some (table, counts)"
        by (auto simp: extra_def split: option.splits)
      then have "counts ! ?i \<noteq> 0"
        using False by (auto simp: extra_def)
      then show ?thesis
        using False tc with_count(2,3) [OF assms(1) tc i(1,2)] i
        by (simp add: eq owners_def Let_def extra_counts [OF tc] unat_minus_one)
          (simp add: with_count_def)
    qed (use put_back_inv(2) [OF assms(1) i(1,2) _ i(4)] i in \<open>simp add: eq owners_def Let_def\<close>)
  next
    case 3
    show ?case
    proof (cases "extra s ?i = 0")
      case False
      then obtain table counts where tc: "fr_shares s = Some (table, counts)"
        by (auto simp: extra_def split: option.splits)
      then show ?thesis
        using False 3 with_count(2,3) [OF assms(1) tc i(1,2)]
        by (simp add: eq owners_def Let_def) (simp add: with_count_def)
    next
      case True
      have "extra (put_back ?i s) = extra s" "fr_frames (put_back ?i s) = fr_frames s"
        by (simp_all add: extra_def fun_eq_iff put_back_def)
      then show ?thesis
        using True 3 put_back_inv(2) [OF assms(1) i(1,2) True i(4)]
        by (simp add: eq owners_def Let_def)
    qed
  qed
qed

lemma bitmap_unused: "frames_inv s \<Longrightarrow> i \<in> unused s \<Longrightarrow> \<not> bitmap_frame s i"
  by (auto simp: frames_inv_def)

lemma share_table_spec:
  assumes "frames_inv s" and "0 < fr_frames s" and "share_table s = (r, s')"
  shows "r = None \<Longrightarrow> s' = s"
    and "r = Some (table, counts) \<Longrightarrow>
      frames_inv s' \<and> fr_shares s' = Some (table, counts) \<and> fr_frames s' = fr_frames s \<and>
      bitmap_frame s' = bitmap_frame s \<and>
      (\<forall>i < fr_frames s. is_used s i \<longrightarrow> is_used s' i \<and> extra s' i = extra s i) \<and>
      (fr_shares s = None \<longrightarrow> (\<forall>i < fr_frames s. counts ! i = 0))"
proof -
  let ?pages = "div_ceil (fr_frames s * 2) PAGE_SIZE"
  have pos: "0 < ?pages"
    using assms(2) by (simp add: less_div_ceil_iff PAGE_SIZE_def)
  show "r = None \<Longrightarrow> s' = s"
    using assms(3) allocate_contiguous_spec [OF assms(1) pos]
    by (cases "fr_shares s"; cases "allocate_contiguous ?pages s"; cases "fst (allocate_contiguous ?pages s)")
      (simp_all add: share_table_def Let_def)
  assume r: "r = Some (table, counts)"
  show "frames_inv s' \<and> fr_shares s' = Some (table, counts) \<and> fr_frames s' = fr_frames s \<and>
      bitmap_frame s' = bitmap_frame s \<and>
      (\<forall>i < fr_frames s. is_used s i \<longrightarrow> is_used s' i \<and> extra s' i = extra s i) \<and>
      (fr_shares s = None \<longrightarrow> (\<forall>i < fr_frames s. counts ! i = 0))"
  proof (cases "fr_shares s")
    case (Some tc)
    then show ?thesis using assms r by (auto simp: share_table_def)
  next
    case None
    obtain a s1 where a: "allocate_contiguous ?pages s = (a, s1)"
      by fastforce
    have s1: "allocate_contiguous ?pages s = (Some table, s1)"
      "s' = s1\<lparr>fr_shares := Some (table, counts)\<rparr>" "counts = replicate (fr_frames s1) 0"
      using assms(3) r None a by (cases a; simp add: share_table_def Let_def)+
    from allocate_contiguous_spec [OF assms(1) pos]
    obtain first where out: "frames_inv s1" "handed_out s first ?pages s1"
      unfolding s1(1) prod.case option.case by blast
    then have used: "is_used s1 i" if "is_used s i" for i
      using that by (simp add: handed_out_def)
    have f: "fr_frames s1 = fr_frames s" "bitmap_frame s1 = bitmap_frame s"
      using out(2) by (auto simp: handed_out_def bitmap_frame_def fun_eq_iff)
    have e: "extra s' i = 0" if "i < fr_frames s" for i
      using that s1(2,3) f by (simp add: extra_def)
    have e0: "extra s i = 0" for i
      by (simp add: extra_def None)
    have same: "is_used s' i = is_used s1 i" "bitmap_frame s' = bitmap_frame s1"
        "unused s' = unused s1" "fr_frames s' = fr_frames s1" for i
      by (simp_all add: s1(2) is_used_bit bitmap_frame_def unused_def fun_eq_iff)
    have "frames_inv s'"
      using out(1) e f unfolding frames_inv_def frames_shape_def same
      by (auto simp: s1(2,3))
    then show ?thesis
      using s1 f used e e0 same by simp
  qed
qed

lemma share_yes:
  assumes "frames_inv s" and "share frame s = (True, s')"
  shows "frames_inv s' \<and> fr_frames s' = fr_frames s \<and> bitmap_frame s' = bitmap_frame s \<and>
    0 < owners s frame \<and> owners s' frame = owners s frame + 1 \<and>
    (\<forall>g. g div PAGE_SIZE \<noteq> frame div PAGE_SIZE \<and> 0 < owners s g \<longrightarrow> owners s' g = owners s g)"
proof -
  let ?i = "frame div PAGE_SIZE"
  have i: "?i < fr_frames s" "is_used s ?i"
    using assms(2) by (auto simp: share_def Let_def split: if_splits)
  then obtain table counts s1 where t: "share_table s = (Some (table, counts), s1)"
    using assms(2) by (auto simp: share_def Let_def split: option.splits prod.splits)
  have s1: "frames_inv s1" "fr_shares s1 = Some (table, counts)" "fr_frames s1 = fr_frames s"
    "bitmap_frame s1 = bitmap_frame s"
    "\<forall>i < fr_frames s. is_used s i \<longrightarrow> is_used s1 i \<and> extra s1 i = extra s i"
    using share_table_spec(2) [OF assms(1) _ t, of table counts] i(1) by auto
  have c: "counts ! ?i \<noteq> 0xFFFF" and s': "s' = with_count s1 table counts ?i (counts ! ?i + 1)"
    using assms(2) i t by (auto simp: share_def Let_def with_count_def split: if_splits)
  have "unat (counts ! ?i + 1) = Suc (unat (counts ! ?i))"
  proof -
    have "1 + counts ! ?i \<noteq> 0"
      using c by (auto simp: add.commute [of 1] simp flip: eq_neg_iff_add_eq_0)
    then show ?thesis
      using unatSuc [of "counts ! ?i"] by (simp add: add.commute)
  qed
  then have e: "extra s' j = (if j = ?i then extra s1 ?i + 1 else extra s1 j)" for j
    using with_count(2) [OF s1(1,2)] i s1(3,5) by (simp add: s' extra_counts [OF s1(2)])
  have u: "is_used s' j = is_used s1 j" "fr_frames s' = fr_frames s1"
    "bitmap_frame s' = bitmap_frame s1" for j
    using with_count(3) [OF s1(1,2)] i s1(3,5)
    by (simp_all add: s' bitmap_frame_def fun_eq_iff) (simp_all add: with_count_def)
  have "frames_inv s'"
    using with_count(1) [OF s1(1,2)] i s1(3,5) by (simp add: s')
  then show ?thesis
    using i s1(3,4,5) by (auto simp: owners_def Let_def e u)
qed

lemma share_no:
  assumes "frames_inv s" and "share frame s = (False, s')"
  shows "s' = s"
proof (cases "fr_frames s \<le> frame div PAGE_SIZE \<or> \<not> is_used s (frame div PAGE_SIZE)")
  case False
  obtain r s1 where t: "share_table s = (r, s1)"
    by fastforce
  note spec = share_table_spec [OF assms(1) _ t]
  show ?thesis
  proof (cases r)
    case None
    then show ?thesis
      using assms(2) False spec(1) by (simp add: share_def Let_def t)
  next
    case (Some tc)
    then obtain table counts where r: "r = Some (table, counts)"
      by (cases tc) simp
    then have c: "counts ! (frame div PAGE_SIZE) = 0xFFFF" and s': "s' = s1"
      using assms(2) False by (simp_all add: share_def Let_def t split: if_splits)
    then have "fr_shares s \<noteq> None"
      using spec(2) [OF _ r] False by auto
    then show ?thesis
      using t s' by (auto simp: share_table_def split: option.splits)
  qed
qed (use assms in \<open>simp add: share_def Let_def\<close>)

lemma releasable_cong:
  "fr_frames s = fr_frames t \<Longrightarrow> bitmap_frame s = bitmap_frame t \<Longrightarrow> releasable s = releasable t"
  by (simp add: releasable_def fun_eq_iff)

lemma free_frame_zero: "frames_inv s \<Longrightarrow> owners s f = 0 \<Longrightarrow> free_frame f s = s"
  using free_frame_refused by blast

lemma free_frame_pool:
  assumes "frames_inv s" and "releasable s f"
  shows "frames_inv (free_frame f s) \<and> releasable (free_frame f s) = releasable s \<and>
    owners (free_frame f s) f = owners s f - 1 \<and>
    (\<forall>g. releasable s g \<and> g \<noteq> f \<longrightarrow> owners (free_frame f s) g = owners s g)"
proof (cases "owners s f = 0")
  case True
  then show ?thesis using free_frame_zero assms by simp
next
  case False
  then have pos: "0 < owners s f" by simp
  note fr = free_frame_owners [OF assms pos]
  have "g div PAGE_SIZE \<noteq> f div PAGE_SIZE" if "releasable s g" "g \<noteq> f" for g
    using that assms(2) aligned_eq [of g f] by (auto simp: releasable_def)
  then show ?thesis
    using fr releasable_cong [OF fr(4,5)] by simp
qed

lemma share_pool:
  assumes "frames_inv s" and "releasable s f" and "share f s = (True, s')"
  shows "frames_inv s' \<and> releasable s' = releasable s \<and> 0 < owners s f \<and>
    owners s' f = owners s f + 1 \<and>
    (\<forall>g. releasable s g \<and> g \<noteq> f \<and> 0 < owners s g \<longrightarrow> owners s' g = owners s g)"
proof -
  note sh = share_yes [OF assms(1,3)]
  have "g div PAGE_SIZE \<noteq> f div PAGE_SIZE" if "releasable s g" "g \<noteq> f" for g
    using that assms(2) aligned_eq [of g f] by (auto simp: releasable_def)
  moreover have "releasable s' = releasable s"
    using sh by (intro releasable_cong) auto
  ultimately show ?thesis
    using sh by blast
qed

lemma is_shared_owners:
  assumes "frames_inv s" and "releasable s f"
  shows "is_shared f s \<longleftrightarrow> 1 < owners s f"
  using assms
  by (auto simp: is_shared_def Let_def owners_def extra_def releasable_def frames_inv_def word_gt_0
      unsigned_eq_0_iff unat_gt_0 split: option.splits)

interpretation pool: frame_pool share free_frame is_shared owners releasable frames_inv
  by unfold_locales (rule share_pool share_no free_frame_pool is_shared_owners; assumption)+

text \<open>
  C13.  Ownership of frames: sharing a frame adds exactly one owner or changes nothing,
  releasing it takes exactly one away, a frame is free only when the last owner has released
  it, a double release is ignored, and no other used frame's owners change.
\<close>

theorem frame_ownership:
  assumes "frames_inv s" and "releasable s f"
  shows "(case share f s of
      (True, s') \<Rightarrow> frames_inv s' \<and> owners s' f = owners s f + 1 \<and>
        (\<forall>g. releasable s g \<and> g \<noteq> f \<and> 0 < owners s g \<longrightarrow> owners s' g = owners s g) \<and>
        owners (free_frame f s') f = owners s f
    | (False, s') \<Rightarrow> s' = s) \<and>
    frames_inv (free_frame f s) \<and> owners (free_frame f s) f = owners s f - 1 \<and>
    (owners s f = 0 \<longrightarrow> free_frame f s = s) \<and>
    (\<forall>g. releasable s g \<and> g \<noteq> f \<longrightarrow> owners (free_frame f s) g = owners s g)"
proof (intro conjI)
  show "case share f s of
      (True, s') \<Rightarrow> frames_inv s' \<and> owners s' f = owners s f + 1 \<and>
        (\<forall>g. releasable s g \<and> g \<noteq> f \<and> 0 < owners s g \<longrightarrow> owners s' g = owners s g) \<and>
        owners (free_frame f s') f = owners s f
    | (False, s') \<Rightarrow> s' = s"
  proof (cases "share f s")
    case (Pair b s')
    then show ?thesis
      using pool.share_yes [OF assms] pool.share_no [OF assms] pool.share_release [OF assms]
      by (cases b) auto
  qed
qed (use free_frame_pool [OF assms] free_frame_zero [OF assms(1)] in auto)

lemma small_pool_used: "releasable small_pool 8192 \<and> owners small_pool 8192 = 0"
proof -
  have "2 \<in> unused small_pool"
    by (simp add: small_pool_unused)
  then show ?thesis
    by (simp add: owners_def releasable_def small_pool_def PAGE_SIZE_def bitmap_frame_def unused_def)
qed

theorem frame_ownership_witness:
  "frames_inv (free_frame 8192 small_pool) \<and> free_frame 8192 small_pool = small_pool"
  using frame_ownership [OF small_pool_inv, of 8192] small_pool_used small_pool_inv by simp

section \<open>Building the allocator\<close>

text \<open>A frame the memory map describes as usable, as a whole.\<close>

definition described :: "raw_region list \<Rightarrow> nat \<Rightarrow> bool" where
  "described regions i \<longleftrightarrow>
     (\<exists>r\<in>set regions. rg_kind r = KIND_USABLE \<and> rg_start r + rg_len r < 2 ^ 64 \<and>
        rg_start r \<le> frame_addr i \<and> frame_addr (i + 1) \<le> rg_start r + rg_len r)"

text \<open>The fields the passes over the map do not change.\<close>

definition same_layout :: "frames \<Rightarrow> frames \<Rightarrow> bool" where
  "same_layout s t \<longleftrightarrow>
     fr_frames t = fr_frames s \<and> fr_bm_first t = fr_bm_first s \<and> fr_bm_frames t = fr_bm_frames s \<and>
     fr_shares t = fr_shares s \<and> fr_low t = fr_low s"

lemma same_layout_refl [simp]: "same_layout s s"
  by (simp add: same_layout_def)

lemma same_layout_trans: "same_layout s t \<Longrightarrow> same_layout t u \<Longrightarrow> same_layout s u"
  by (simp add: same_layout_def)

text \<open>One step of a pass: the set of free frames becomes \<open>F\<close> of what it was.\<close>

definition pass :: "(nat set \<Rightarrow> nat set) \<Rightarrow> frames \<Rightarrow> frames \<Rightarrow> bool" where
  "pass F s t \<longleftrightarrow> (frames_shape s \<longrightarrow> frames_shape t \<and> same_layout s t \<and> unused t = F (unused s))"

lemma pass_refl: "F (unused s) = unused s \<Longrightarrow> pass F s s"
  by (simp add: pass_def)

lemma pass_trans: "pass F s t \<Longrightarrow> pass G t u \<Longrightarrow> pass (G \<circ> F) s u"
  by (auto simp: pass_def intro: same_layout_trans)

lemma release_one_pass:
  assumes "i < fr_frames s"
  shows "pass (insert i) s (release_one i s)"
proof -
  have "frames_shape (release_one i s) \<and> same_layout s (release_one i s) \<and>
      unused (release_one i s) = insert i (unused s)" if shape: "frames_shape s"
  proof (cases "is_used s i")
    case True
    have len: "length (fr_bits s) = div_ceil (fr_frames s) 8"
      using shape by (simp add: frames_shape_def)
    have un: "unused (release_one i s) = insert i (unused s)"
      using unused_set_free [OF len assms] True
      by (simp add: release_one_def unused_def is_used_bit)
    have "i \<notin> unused s"
      using True by (simp add: unused_def)
    then show ?thesis
      using shape un True by (simp add: frames_shape_def) (simp add: release_one_def same_layout_def)
  next
    case False
    then have "i \<in> unused s"
      using assms by (simp add: unused_def)
    then show ?thesis
      using False shape by (simp add: release_one_def insert_absorb)
  qed
  then show ?thesis by (simp add: pass_def)
qed

lemma reserve_pass: "pass (\<lambda>U. U - {i}) s (reserve i s)"
proof -
  have "frames_shape (reserve i s) \<and> same_layout s (reserve i s) \<and>
      unused (reserve i s) = unused s - {i}" if shape: "frames_shape s"
  proof (cases "i < fr_frames s \<and> \<not> is_used s i")
    case True
    have len: "length (fr_bits s) = div_ceil (fr_frames s) 8"
      using shape by (simp add: frames_shape_def)
    have un: "unused (reserve i s) = unused s - {i}"
      using unused_set_used [OF len, of i] True
      by (simp add: reserve_def unused_def is_used_bit)
    have "i \<in> unused s"
      using True by (simp add: unused_def)
    then show ?thesis
      using shape un True
      by (simp add: frames_shape_def card_Diff_singleton) (simp add: reserve_def same_layout_def)
  next
    case False
    then have "unused s - {i} = unused s"
      by (auto simp: unused_def)
    moreover have "reserve i s = s"
      using False by (simp only: reserve_def if_False)
    ultimately show ?thesis
      using shape by simp
  qed
  then show ?thesis by (simp add: pass_def)
qed

lemma pass_frames: "frames_shape s \<Longrightarrow> pass F s t \<Longrightarrow> fr_frames t = fr_frames s"
  by (simp add: pass_def same_layout_def)

lemma fold_release_pass:
  "\<forall>i\<in>set xs. i < fr_frames s \<Longrightarrow> frames_shape s \<Longrightarrow> pass (\<lambda>U. U \<union> set xs) s (fold release_one xs s)"
proof (induction xs arbitrary: s)
  case (Cons x xs)
  have 1: "pass (insert x) s (release_one x s)"
    using Cons.prems by (intro release_one_pass) simp
  then have 2: "frames_shape (release_one x s)" "fr_frames (release_one x s) = fr_frames s"
    using Cons.prems(2) by (auto simp: pass_def same_layout_def)
  have "pass (\<lambda>U. U \<union> set xs) (release_one x s) (fold release_one xs (release_one x s))"
    using Cons.prems 2 by (intro Cons.IH) simp_all
  from pass_trans [OF 1 this] show ?case by (simp add: comp_def)
qed (simp add: pass_def)

lemma release_region_pass:
  assumes "frames_shape s" and "start < 2 ^ 64"
  shows "pass (\<lambda>U. U \<union> {i. i < fr_frames s \<and> start + len < 2 ^ 64 \<and>
      start \<le> frame_addr i \<and> frame_addr (i + 1) \<le> start + len}) s (release_region start len s)"
    (is "pass (\<lambda>U. U \<union> ?D) s _")
proof (cases "start + len < 2 ^ 64")
  case False
  then show ?thesis
    by (simp add: release_region_def checked_add64_def pass_def)
next
  case fits: True
  let ?first = "align_up_u64 start PAGE_SIZE div PAGE_SIZE"
  let ?last = "min ((start + len) div PAGE_SIZE) (fr_frames s)"
  have up: "i + 1 \<le> (start + len) div PAGE_SIZE \<longleftrightarrow> frame_addr (i + 1) \<le> start + len" for i
    unfolding frame_addr_def by (rule less_eq_div_iff_mult_less_eq) (simp add: PAGE_SIZE_def)
  have low: "?first \<le> i \<longleftrightarrow> start \<le> frame_addr i" if "i < fr_frames s" for i
  proof (cases "start + (PAGE_SIZE - 1) < 2 ^ 64")
    case True
    then have "?first = div_ceil start PAGE_SIZE"
      by (simp add: align_up_u64_def checked_add64_def div_ceil_def PAGE_SIZE_def)
    then show ?thesis
      by (simp add: div_ceil_le_iff frame_addr_def PAGE_SIZE_def)
  next
    case False
    then have "?first = start div PAGE_SIZE" and big: "2 ^ 64 - 4096 \<le> start"
      by (simp_all add: align_up_u64_def checked_add64_def PAGE_SIZE_def)
    moreover have i: "i < 2 ^ 28"
      using that assms(1) by (simp add: frames_shape_def)
    then have "frame_addr i < start"
      using big by (simp add: frame_addr_def PAGE_SIZE_def)
    moreover have "i + 1 \<le> start div PAGE_SIZE"
      using i big less_eq_div_iff_mult_less_eq [of PAGE_SIZE "i + 1" start]
      by (simp add: PAGE_SIZE_def)
    ultimately show ?thesis
      by simp
  qed
  have D: "set [?first..<?last] = ?D"
  proof (rule set_eqI)
    fix i
    have "i \<in> set [?first..<?last] \<longleftrightarrow>
        i < fr_frames s \<and> ?first \<le> i \<and> i + 1 \<le> (start + len) div PAGE_SIZE"
      unfolding set_upt atLeastLessThan_iff min_less_iff_conj Suc_eq_plus1 [symmetric] Suc_le_eq
      by blast
    then show "i \<in> set [?first..<?last] \<longleftrightarrow> i \<in> ?D"
      using fits low [of i] unfolding up by blast
  qed
  have "release_region start len s =
      (if ?last \<le> ?first then s else fold release_one [?first..<?last] s)"
    using fits by (simp only: release_region_def checked_add64_def Let_def if_True option.case)
  moreover have "fold release_one [?first..<?last] s = s" if "?last \<le> ?first"
    using that by (simp only: upt_conv_Nil fold_simps)
  ultimately have r: "release_region start len s = fold release_one [?first..<?last] s"
    by presburger
  have "\<forall>i\<in>set [?first..<?last]. i < fr_frames s"
    by simp
  from fold_release_pass [OF this assms(1)] show ?thesis
    unfolding D r .
qed

lemma release_usable_pass:
  "frames_shape s \<Longrightarrow> \<forall>r\<in>set regions. rg_start r < 2 ^ 64 \<Longrightarrow>
   pass (\<lambda>U. U \<union> {i. i < fr_frames s \<and> described regions i}) s (release_usable regions s)"
proof (induction regions arbitrary: s)
  case (Cons r regions)
  let ?t = "if rg_kind r \<noteq> KIND_USABLE then s else release_region (rg_start r) (rg_len r) s"
  let ?D = "{i. i < fr_frames s \<and> rg_kind r = KIND_USABLE \<and> rg_start r + rg_len r < 2 ^ 64 \<and>
      rg_start r \<le> frame_addr i \<and> frame_addr (i + 1) \<le> rg_start r + rg_len r}"
  have 1: "pass (\<lambda>U. U \<union> ?D) s ?t"
    using release_region_pass [of s "rg_start r" "rg_len r"] Cons.prems by (auto simp: pass_def)
  then have 2: "frames_shape ?t" "fr_frames ?t = fr_frames s"
    using Cons.prems(1) by (auto simp: pass_def same_layout_def)
  have 3: "pass (\<lambda>U. U \<union> {i. i < fr_frames s \<and> described regions i}) ?t (release_usable regions ?t)"
    using Cons.IH [OF 2(1)] Cons.prems(2) 2(2) by simp
  have "release_usable (r # regions) s = release_usable regions ?t"
    by (simp add: release_usable_def)
  moreover have "(\<lambda>U. U \<union> {i. i < fr_frames s \<and> described (r # regions) i}) =
      (\<lambda>U. U \<union> {i. i < fr_frames s \<and> described regions i}) \<circ> (\<lambda>U. U \<union> ?D)"
    by (auto simp: described_def fun_eq_iff)
  ultimately show ?case
    using pass_trans [OF 1 3] by simp
qed (simp add: pass_def described_def release_usable_def)

lemma reserve_bitmap_pass:
  "frames_shape s \<Longrightarrow>
   pass (\<lambda>U. U - {fr_bm_first s..<fr_bm_first s + n}) s
     (fold (\<lambda>offset s. reserve (fr_bm_first s + offset) s) [0..<n] s)"
proof (induction n)
  case (Suc n)
  let ?t = "fold (\<lambda>offset s. reserve (fr_bm_first s + offset) s) [0..<n] s"
  have 1: "pass (\<lambda>U. U - {fr_bm_first s..<fr_bm_first s + n}) s ?t"
    by (rule Suc.IH [OF Suc.prems])
  then have "fr_bm_first ?t = fr_bm_first s"
    using Suc.prems by (simp add: pass_def same_layout_def)
  then have "pass (\<lambda>U. U - {fr_bm_first s + n}) ?t (reserve (fr_bm_first ?t + n) ?t)"
    using reserve_pass by simp
  moreover have "(\<lambda>U. U - {fr_bm_first s + n}) \<circ> (\<lambda>U. U - {fr_bm_first s..<fr_bm_first s + n}) =
      (\<lambda>U. U - {fr_bm_first s..<fr_bm_first s + Suc n})"
    by (auto simp: fun_eq_iff)
  ultimately show ?case
    using pass_trans [OF 1] by fastforce
qed (simp add: pass_def)

lemma map_extent_top: "fst (map_extent regions) \<le> MAX_TRACKED_PHYS"
  unfolding map_extent_def
  by (induction regions rule: rev_induct)
    (auto simp: Let_def split: option.splits prod.splits)

lemma map_extent_covers:
  "r \<in> set regions \<Longrightarrow> rg_start r + rg_len r < 2 ^ 64 \<Longrightarrow>
   min (rg_start r + rg_len r) MAX_TRACKED_PHYS \<le> fst (map_extent regions)"
  unfolding map_extent_def
  by (induction regions rule: rev_induct)
    (auto simp: Let_def checked_add64_def split: option.splits prod.splits)

lemma map_extent_host:
  "map_extent regions = (height, start, len) \<Longrightarrow> len \<noteq> 0 \<Longrightarrow>
   \<exists>r\<in>set regions. rg_kind r = KIND_USABLE \<and> rg_start r = start \<and> rg_len r = len \<and> start + len < 2 ^ 64"
proof (induction regions arbitrary: height start len rule: rev_induct)
  case (snoc r regions)
  obtain t s l where "map_extent regions = (t, s, l)"
    by (cases "map_extent regions")
  then show ?case
    using snoc by (auto simp: map_extent_def checked_add64_def Let_def split: if_splits)
qed (simp add: map_extent_def)

lemma frames_start_shape:
  assumes "frames \<le> 2 ^ 28" and "bitmap_phys < MAX_TRACKED_PHYS"
  shows "frames_shape (frames_start frames bitmap_phys mem)"
    and "unused (frames_start frames bitmap_phys mem) = {}"
    and "fr_shares (frames_start frames bitmap_phys mem) = None"
    and "fr_low (frames_start frames bitmap_phys mem) = None"
proof -
  let ?s = "frames_start frames bitmap_phys mem"
  have "is_used ?s i" if "i < frames" for i
  proof -
    have "fr_byte ?s (i div 8) = 0xFF"
      using div8_less [OF that] by (simp add: fr_byte_def frames_start_def Let_def)
    then show ?thesis
      using full_byte_used [of ?s "i div 8 * 8" i] by (simp add: div_mult_mod_eq algebra_simps)
  qed
  moreover have fs: "fr_frames ?s = frames"
    by (simp add: frames_start_def Let_def)
  ultimately show un: "unused ?s = {}"
    by (auto simp: unused_def)
  have bytes: "div_ceil frames 8 \<le> 2 ^ 28"
    using assms(1) by (simp add: div_ceil_le_iff)
  have "div_ceil (div_ceil frames 8) PAGE_SIZE * PAGE_SIZE div PAGE_SIZE \<le> 2 ^ 28"
    using bytes by (simp add: div_ceil_le_iff PAGE_SIZE_def)
  moreover have "bitmap_phys div PAGE_SIZE \<le> 2 ^ 28"
    using assms(2) by (simp add: MAX_TRACKED_PHYS_def PAGE_SIZE_def)
  ultimately show "frames_shape ?s"
    using assms(1) unfolding frames_shape_def un by (simp add: frames_start_def Let_def)
  show "fr_shares ?s = None" "fr_low ?s = None"
    by (simp_all add: frames_start_def Let_def)
qed

lemma frames_inv_start:
  assumes "frames_shape s" and "fr_shares s = None" and "\<forall>i. bitmap_frame s i \<longrightarrow> i \<notin> unused s"
  shows "frames_inv s"
  using assms by (simp add: frames_inv_def extra_def)

lemma reserve_low_spec:
  assumes "frames_shape s" and "fr_low s = None"
  shows "frames_shape (reserve_low s)"
    and "fr_shares (reserve_low s) = fr_shares s" and "fr_frames (reserve_low s) = fr_frames s"
    and "bitmap_frame (reserve_low s) = bitmap_frame s"
    and "unused (reserve_low s) = {i \<in> unused s. fr_low (reserve_low s) \<noteq> Some (frame_addr i)}"
    and "fr_low (reserve_low s) = Some a \<Longrightarrow>
      \<exists>i. a = frame_addr i \<and> 0 < i \<and> i < LOW_FRAME_LIMIT \<and> i \<in> unused s"
proof -
  have bf: "bitmap_frame t = bitmap_frame s" if "same_layout s t" for t
    using that by (simp add: same_layout_def bitmap_frame_def fun_eq_iff)
  let ?c = "find (\<lambda>i. \<not> is_used s i) (rev [1..<min LOW_FRAME_LIMIT (fr_frames s)])"
  have all: "frames_shape (reserve_low s) \<and> fr_shares (reserve_low s) = fr_shares s \<and>
      fr_frames (reserve_low s) = fr_frames s \<and> bitmap_frame (reserve_low s) = bitmap_frame s \<and>
      unused (reserve_low s) = {i \<in> unused s. fr_low (reserve_low s) \<noteq> Some (frame_addr i)} \<and>
      (\<forall>a. fr_low (reserve_low s) = Some a \<longrightarrow>
        (\<exists>i. a = frame_addr i \<and> 0 < i \<and> i < LOW_FRAME_LIMIT \<and> i \<in> unused s))"
  proof (cases ?c)
    case None
    then show ?thesis using assms by (simp add: reserve_low_def)
  next
    case (Some i)
    then have i: "0 < i" "i < LOW_FRAME_LIMIT" "i < fr_frames s" "\<not> is_used s i"
      using find_SomeD [of "\<lambda>i. \<not> is_used s i" "rev [1..<min LOW_FRAME_LIMIT (fr_frames s)]" i]
      by auto
    have r: "reserve_low s = (reserve i s)\<lparr>fr_low := Some (frame_addr i)\<rparr>"
      using Some by (simp add: reserve_low_def)
    have p: "frames_shape (reserve i s)" "same_layout s (reserve i s)"
      "unused (reserve i s) = unused s - {i}"
      using reserve_pass [of i s] assms(1) by (simp_all add: pass_def)
    have u: "unused (reserve_low s) = unused s - {i}"
      using p(3) by (simp add: r unused_def is_used_bit)
    moreover have "frames_shape (reserve_low s)"
      using p(1) unfolding frames_shape_def u p(3) by (simp add: r)
    moreover have "bitmap_frame (reserve_low s) = bitmap_frame (reserve i s)"
      by (simp add: r bitmap_frame_def fun_eq_iff)
    ultimately show ?thesis
      using p(2) bf [OF p(2)] i
      by (auto simp: r same_layout_def frame_addr_def unused_def PAGE_SIZE_def)
  qed
  then show "frames_shape (reserve_low s)" "fr_shares (reserve_low s) = fr_shares s"
    "fr_frames (reserve_low s) = fr_frames s" "bitmap_frame (reserve_low s) = bitmap_frame s"
    "unused (reserve_low s) = {i \<in> unused s. fr_low (reserve_low s) \<noteq> Some (frame_addr i)}"
    "fr_low (reserve_low s) = Some a \<Longrightarrow>
      \<exists>i. a = frame_addr i \<and> 0 < i \<and> i < LOW_FRAME_LIMIT \<and> i \<in> unused s"
    by blast+
qed

text \<open>The frame \<open>i\<close> ends below the address up to which memory is tracked.\<close>

definition tracked :: "nat \<Rightarrow> bool" where
  "tracked i \<longleftrightarrow> frame_addr (i + 1) \<le> MAX_TRACKED_PHYS"

lemma described_tracked:
  "fst (map_extent regions) = height \<Longrightarrow> described regions i \<Longrightarrow> tracked i \<longleftrightarrow> i < height div PAGE_SIZE"
proof -
  assume height: "fst (map_extent regions) = height" and i: "described regions i"
  obtain r where r: "r \<in> set regions" "rg_start r + rg_len r < 2 ^ 64" "frame_addr (i + 1) \<le> rg_start r + rg_len r"
    using i by (auto simp: described_def)
  have "i < height div PAGE_SIZE \<longleftrightarrow> frame_addr (i + 1) \<le> height"
    using less_eq_div_iff_mult_less_eq [of PAGE_SIZE "i + 1" height] by (simp add: frame_addr_def PAGE_SIZE_def Suc_le_eq)
  then show ?thesis
    using map_extent_covers [OF r(1,2)] map_extent_top [of regions] r(3) by (auto simp: tracked_def height)
qed

text \<open>The bitmap lies inside the region it was put into.\<close>

lemma bitmap_inside:
  assumes r: "r \<in> set regions" "rg_kind r = KIND_USABLE" "rg_start r + rg_len r < 2 ^ 64"
    and phys: "phys = max (align_up_u64 (rg_start r) PAGE_SIZE) PAGE_SIZE" "phys < MAX_TRACKED_PHYS"
    and span: "span = n * PAGE_SIZE" "0 < n" "span \<le> saturating_add64 (rg_start r) (rg_len r) - phys"
    and i: "phys div PAGE_SIZE \<le> i" "i < phys div PAGE_SIZE + n"
  shows "described regions i"
proof -
  have no_wrap: "rg_start r + (PAGE_SIZE - 1) < 2 ^ 64"
    using phys by (auto simp: align_up_u64_def checked_add64_def MAX_TRACKED_PHYS_def PAGE_SIZE_def max_def split: if_splits)
  then have up: "align_up_u64 (rg_start r) PAGE_SIZE = div_ceil (rg_start r) PAGE_SIZE * PAGE_SIZE"
    by (simp add: align_up_u64_def checked_add64_def div_ceil_def PAGE_SIZE_def)
  then have aligned: "phys div PAGE_SIZE * PAGE_SIZE = phys"
    by (auto simp: phys(1) max_def PAGE_SIZE_def)
  have "rg_start r \<le> phys"
    unfolding phys(1) up using div_ceil_mult_ge [of PAGE_SIZE "rg_start r"] by (simp add: PAGE_SIZE_def le_max_iff_disj)
  moreover have "phys \<le> frame_addr i"
    using i(1) aligned mult_le_mono1 [of "phys div PAGE_SIZE" i PAGE_SIZE] by (simp add: frame_addr_def)
  moreover have "frame_addr (i + 1) \<le> phys + n * PAGE_SIZE"
    using i(2) aligned mult_le_mono1 [of "i + 1" "phys div PAGE_SIZE + n" PAGE_SIZE]
    by (simp add: frame_addr_def add_mult_distrib)
  moreover have "phys + n * PAGE_SIZE \<le> rg_start r + rg_len r"
    using span r(3) by (simp add: saturating_add64_def PAGE_SIZE_def)
  ultimately show ?thesis
    using r unfolding described_def by fastforce
qed

lemma reserve_low_bm_frames: "fr_bm_frames (reserve_low s) = fr_bm_frames s"
  by (simp add: reserve_low_def reserve_def set_used_def Let_def split: option.split)

lemma map_extent_bitmap:
  assumes "frames_new map_ptr map_regions mem = Inr s"
  obtains top host_start host_len bitmap_phys t where
    "map_extent (take MAX_REGIONS map_regions) = (top, host_start, host_len)"
    "bitmap_phys = max (align_up_u64 host_start PAGE_SIZE) PAGE_SIZE"
    "host_len \<noteq> 0" "0 < top div PAGE_SIZE"
    "div_ceil (div_ceil (top div PAGE_SIZE) 8) PAGE_SIZE * PAGE_SIZE \<le> saturating_add64 host_start host_len - bitmap_phys"
    "bitmap_phys < MAX_TRACKED_PHYS"
    "t = release_usable (take MAX_REGIONS map_regions) (frames_start (top div PAGE_SIZE) bitmap_phys mem)"
    "s = reserve_low (reserve 0
      (fold (\<lambda>offset s. reserve (fr_bm_first s + offset) s) [0..<fr_bm_frames t] t))"
proof -
  obtain top host_start host_len where
    e: "map_extent (take MAX_REGIONS map_regions) = (top, host_start, host_len)"
    by (cases "map_extent (take MAX_REGIONS map_regions)")
  show ?thesis
    using assms that [OF e, of "max (align_up_u64 host_start PAGE_SIZE) PAGE_SIZE", OF refl]
    by (simp add: frames_new_def Let_def e not_le not_less split: if_splits)
qed

text \<open>
  C10.  A map the allocator is built from gives exactly the frames that lie wholly inside a
  region described as usable and below the terabyte that is tracked, less the frames of the
  bitmap itself, frame zero and the one frame put aside below 640 KiB for starting the other
  processors; and the invariant holds. The bitmap has a bit for each frame it counts and lies
  inside usable memory.
\<close>

theorem frames_new_correct:
  assumes "frames_new map_ptr map_regions mem = Inr s"
    and "\<forall>r\<in>set map_regions. rg_start r < 2 ^ 64"
  shows "frames_inv s \<and>
    unused s = {i. tracked i \<and> described (take MAX_REGIONS map_regions) i \<and>
      \<not> bitmap_frame s i \<and> i \<noteq> 0 \<and> fr_low s \<noteq> Some (frame_addr i)} \<and>
    (\<forall>i. bitmap_frame s i \<longrightarrow> described (take MAX_REGIONS map_regions) i) \<and>
    fr_frames s \<le> 8 * (fr_bm_frames s * PAGE_SIZE) \<and>
    (\<forall>a. fr_low s = Some a \<longrightarrow>
      0 < a \<and> a < 0xA0000 \<and> described (take MAX_REGIONS map_regions) (a div PAGE_SIZE))"
proof -
  let ?rs = "take MAX_REGIONS map_regions"
  obtain top host_start host_len bitmap_phys t where
    e: "map_extent ?rs = (top, host_start, host_len)"
    and place: "bitmap_phys = max (align_up_u64 host_start PAGE_SIZE) PAGE_SIZE" "host_len \<noteq> 0" "0 < top div PAGE_SIZE"
      "div_ceil (div_ceil (top div PAGE_SIZE) 8) PAGE_SIZE * PAGE_SIZE \<le> saturating_add64 host_start host_len - bitmap_phys"
    and phys: "bitmap_phys < MAX_TRACKED_PHYS"
    and t: "t = release_usable ?rs (frames_start (top div PAGE_SIZE) bitmap_phys mem)"
    and s: "s = reserve_low (reserve 0
      (fold (\<lambda>offset s. reserve (fr_bm_first s + offset) s) [0..<fr_bm_frames t] t))"
    by (rule map_extent_bitmap [OF assms(1)])
  let ?s0 = "frames_start (top div PAGE_SIZE) bitmap_phys mem"
  have "top div PAGE_SIZE \<le> 2 ^ 28"
    using map_extent_top [of ?rs] div_le_mono [of top MAX_TRACKED_PHYS PAGE_SIZE]
    by (simp add: e MAX_TRACKED_PHYS_def PAGE_SIZE_def)
  note s0 = frames_start_shape [OF this phys, of mem]
  have "set ?rs \<subseteq> set map_regions"
    by (rule set_take_subset)
  then have "pass (\<lambda>U. U \<union> {i. i < fr_frames ?s0 \<and> described ?rs i}) ?s0 t"
    using release_usable_pass [OF s0(1), of ?rs] assms(2) t by blast
  then have t': "frames_shape t" "same_layout ?s0 t"
      "unused t = {i. i < fr_frames t \<and> described ?rs i}"
    using s0(1,2) by (auto simp: pass_def same_layout_def)
  define u where "u = reserve 0
    (fold (\<lambda>offset s. reserve (fr_bm_first s + offset) s) [0..<fr_bm_frames t] t)"
  have "pass ((\<lambda>U. U - {0}) \<circ> (\<lambda>U. U - {fr_bm_first t..<fr_bm_first t + fr_bm_frames t})) t u"
    using pass_trans [OF reserve_bitmap_pass [OF t'(1)] reserve_pass] by (simp only: u_def)
  then have u: "frames_shape u" "same_layout t u"
      "unused u = unused t - {fr_bm_first t..<fr_bm_first t + fr_bm_frames t} - {0}"
    using t'(1) by (auto simp: pass_def)
  have fu: "fr_frames u = fr_frames t"
    "bitmap_frame u i \<longleftrightarrow> i \<in> {fr_bm_first t..<fr_bm_first t + fr_bm_frames t}" for i
    using u(2) by (simp_all add: bitmap_frame_def same_layout_def)
  have un: "unused u = {i. i < fr_frames u \<and> described ?rs i \<and> \<not> bitmap_frame u i \<and> i \<noteq> 0}"
    unfolding u(3) t'(3) fu by (rule set_eqI) simp
  have "fr_low u = None"
    using u(2) t'(2) s0(4) by (simp add: same_layout_def)
  note low = reserve_low_spec [OF u(1) this, folded s [folded u_def]]
  have sh: "fr_shares s = None"
    using low(2) u(2) t'(2) s0(3) by (simp add: same_layout_def)
  let ?n = "div_ceil (div_ceil (top div PAGE_SIZE) 8) PAGE_SIZE"
  have frames: "fr_frames s = top div PAGE_SIZE"
    using low(3) fu(1) t'(2) by (simp add: same_layout_def frames_start_def Let_def)
  have bm: "bitmap_frame s i \<longleftrightarrow> bitmap_phys div PAGE_SIZE \<le> i \<and> i < bitmap_phys div PAGE_SIZE + ?n" for i
    unfolding low(4) fu(2) using t'(2) by (simp add: same_layout_def frames_start_def Let_def PAGE_SIZE_def)
  have unused: "unused s = {i. i < fr_frames s \<and> described ?rs i \<and>
      \<not> bitmap_frame s i \<and> i \<noteq> 0 \<and> fr_low s \<noteq> Some (frame_addr i)}"
    unfolding low(5) un low(3,4) by blast
  then have "unused s = {i. tracked i \<and> described ?rs i \<and>
      \<not> bitmap_frame s i \<and> i \<noteq> 0 \<and> fr_low s \<noteq> Some (frame_addr i)}"
    using described_tracked [of ?rs top] by (auto simp: frames e)
  moreover have "frames_inv s"
    using frames_inv_start [OF low(1) sh] unused by simp
  moreover have "0 < a \<and> a < 0xA0000 \<and> described ?rs (a div PAGE_SIZE)" if a: "fr_low s = Some a" for a
    using low(6) [OF a] unfolding un
    by (auto simp: frame_addr_def PAGE_SIZE_def LOW_FRAME_LIMIT_def)
  moreover have "described ?rs i" if i: "bitmap_frame s i" for i
  proof -
    obtain r where r: "r \<in> set ?rs" "rg_kind r = KIND_USABLE" "rg_start r + rg_len r < 2 ^ 64"
        "host_start = rg_start r" "host_len = rg_len r"
      using map_extent_host [OF e place(2)] by auto
    have "0 < ?n"
      using i unfolding bm by (cases ?n) auto
    then show ?thesis
      using bitmap_inside [OF r(1-3) _ phys refl, of ?n i] place(1,4) i unfolding bm r(4,5) by blast
  qed
  moreover have "fr_frames s \<le> 8 * (fr_bm_frames s * PAGE_SIZE)"
  proof -
    have "fr_bm_frames s = ?n"
      using s u(2) t'(2) reserve_low_bm_frames [of u]
      by (simp add: u_def same_layout_def frames_start_def Let_def PAGE_SIZE_def)
    moreover have "top div PAGE_SIZE \<le> div_ceil (top div PAGE_SIZE) 8 * 8"
        "div_ceil (top div PAGE_SIZE) 8 \<le> ?n * PAGE_SIZE"
      by (rule div_ceil_mult_ge, simp add: PAGE_SIZE_def)+
    ultimately show ?thesis
      by (simp add: frames)
  qed
  ultimately show ?thesis by blast
qed

definition small_map :: "raw_region list" where
  "small_map = [\<lparr>rg_start = 0, rg_len = 0x8000, rg_kind = 0\<rparr>]"

lemma upt_8: "[0..<8] = [0, 1, 2, 3, 4, 5, 6, 7 :: nat]"
  by (simp add: upt_rec)

lemma small_map_new: "\<exists>s. frames_new 8 small_map mem = Inr s"
  by (simp add: frames_new_def small_map_def MAX_REGIONS_def map_extent_def checked_add64_def
      Let_def KIND_USABLE_def PAGE_SIZE_def MAX_TRACKED_PHYS_def div_ceil_def align_up_u64_def
      saturating_add64_def frames_start_def release_usable_def release_region_def upt_8
      release_one_def is_used_def fr_byte_def set_free_def)

theorem frames_new_correct_witness:
  "\<exists>s. frames_new 8 small_map (\<lambda>a. 0) = Inr s \<and> frames_inv s"
proof -
  obtain s where s: "frames_new 8 small_map (\<lambda>a. 0) = Inr s"
    using small_map_new by blast
  have "\<forall>r\<in>set small_map. rg_start r < 2 ^ 64"
    by (simp add: small_map_def)
  then show ?thesis
    using frames_new_correct [OF s] s by blast
qed

end
