(* ===== verification/PageCache.thy ===== *)
theory PageCache
  imports Frames "HOL-Library.AList" "HOL-Library.Product_Lexorder"
begin

text \<open>
  The cache of program-file pages (\<^verbatim>\<open>crates/kernel/src/mm/pagecache.rs\<close>).  A page read for
  one process is kept, as one more owner of its frame, and lent to the next process that maps
  the same page of the same file.  The map is a list of entries in the order of their keys,
  like the source's \<^verbatim>\<open>BTreeMap\<close>; the frame pool is the client's view of \<open>frame_pool\<close>.
\<close>

section \<open>Operations\<close>

text \<open>A key: the file (its file system and number), the offset of the page, the bytes wanted.\<close>

type_synonym page_key = "(nat \<times> nat) \<times> nat \<times> nat"

type_synonym ('f, 's) page_cache = "(page_key \<times> 'f) list \<times> 's"

definition SHARE_OF_MEMORY :: nat where
  "SHARE_OF_MEMORY = 4"

definition pc_take ::
  "('f \<Rightarrow> 's \<Rightarrow> bool \<times> 's) \<Rightarrow> page_key \<Rightarrow> ('f, 's) page_cache \<Rightarrow> 'f option \<times> ('f, 's) page_cache" where
  "pc_take shr key cs =
     (case cs of (cache, s) \<Rightarrow>
       (case map_of cache key of
          None \<Rightarrow> (None, (cache, s))
        | Some frame \<Rightarrow>
            (let (ok, s') = shr frame s in (if ok then Some frame else None, (cache, s')))))"

definition pc_keep ::
  "('f \<Rightarrow> 's \<Rightarrow> bool \<times> 's) \<Rightarrow> nat \<Rightarrow> page_key \<Rightarrow> 'f \<Rightarrow> ('f, 's) page_cache \<Rightarrow> ('f, 's) page_cache" where
  "pc_keep shr pages key frame cs =
     (case cs of (cache, s) \<Rightarrow>
       if map_of cache key \<noteq> None \<or> pages div SHARE_OF_MEMORY \<le> length cache then (cache, s)
       else (let (ok, s') = shr frame s in
             if ok then (insort_key fst (key, frame) cache, s') else (cache, s')))"

fun pc_drop ::
  "('f \<Rightarrow> 's \<Rightarrow> 's) \<Rightarrow> page_key list \<Rightarrow> ('f, 's) page_cache \<Rightarrow> ('f, 's) page_cache" where
  "pc_drop release [] cs = cs"
| "pc_drop release (key # keys) (cache, s) =
     (case map_of cache key of
        Some frame \<Rightarrow> pc_drop release keys (AList.delete key cache, release frame s)
      | None \<Rightarrow> pc_drop release keys (cache, s))"

definition pc_forget ::
  "('f \<Rightarrow> 's \<Rightarrow> 's) \<Rightarrow> nat \<times> nat \<Rightarrow> ('f, 's) page_cache \<Rightarrow> ('f, 's) page_cache" where
  "pc_forget release file cs =
     (let gone = filter (\<lambda>key. fst key = file) (map fst (fst cs))
      in if gone = [] then cs else pc_drop release gone cs)"

text \<open>\<^verbatim>\<open>retain\<close> of \<open>shrink\<close>: the entries in order, with the number of pages freed so far.\<close>

fun pc_retain ::
  "('f \<Rightarrow> 's \<Rightarrow> 's) \<Rightarrow> ('f \<Rightarrow> 's \<Rightarrow> bool) \<Rightarrow> nat \<Rightarrow> nat \<Rightarrow> (page_key \<times> 'f) list \<Rightarrow> 's \<Rightarrow>
     nat \<times> ('f, 's) page_cache" where
  "pc_retain release shared want freed [] s = (freed, ([], s))"
| "pc_retain release shared want freed ((key, frame) # rest) s =
     (if want \<le> freed \<or> shared frame s
      then (let (n, (cache, s')) = pc_retain release shared want freed rest s
            in (n, ((key, frame) # cache, s')))
      else pc_retain release shared want (freed + 1) rest (release frame s))"

definition pc_shrink ::
  "('f \<Rightarrow> 's \<Rightarrow> 's) \<Rightarrow> ('f \<Rightarrow> 's \<Rightarrow> bool) \<Rightarrow> nat \<Rightarrow> ('f, 's) page_cache \<Rightarrow> nat \<times> ('f, 's) page_cache" where
  "pc_shrink release shared want cs =
     (case cs of (cache, s) \<Rightarrow> pc_retain release shared want 0 cache s)"

definition pc_pages :: "('f, 's) page_cache \<Rightarrow> nat" where
  "pc_pages cs = length (fst cs)"

section \<open>What the cache owns\<close>

text \<open>How many entries hold a frame, what other owners it has, and the invariant: the cache is
  an owner of its frames once per entry.\<close>

definition held :: "(page_key \<times> 'f) list \<Rightarrow> 'f \<Rightarrow> nat" where
  "held cache f = length (filter (\<lambda>e. snd e = f) cache)"

definition others :: "('s \<Rightarrow> 'f \<Rightarrow> nat) \<Rightarrow> ('f, 's) page_cache \<Rightarrow> 'f \<Rightarrow> nat" where
  "others own cs f = own (snd cs) f - held (fst cs) f"

definition pc_inv ::
  "('s \<Rightarrow> bool) \<Rightarrow> ('s \<Rightarrow> 'f \<Rightarrow> bool) \<Rightarrow> ('s \<Rightarrow> 'f \<Rightarrow> nat) \<Rightarrow> ('f, 's) page_cache \<Rightarrow> bool" where
  "pc_inv good valid own cs =
     (case cs of (cache, s) \<Rightarrow>
       good s \<and> distinct (map fst cache) \<and> (\<forall>e\<in>set cache. valid s (snd e)) \<and>
       (\<forall>f. valid s f \<longrightarrow> held cache f \<le> own s f))"

lemma held_simps [simp]:
  "held [] f = 0" "held (e # cache) f = (if snd e = f then 1 else 0) + held cache f"
  by (simp_all add: held_def)

lemma held_pos: "(k, f) \<in> set cache \<Longrightarrow> 0 < held cache f"
  by (induction cache) auto

lemma held_insort: "held (insort_key fst e cache) f = held (e # cache) f"
  by (induction cache) auto

lemma delete_notin: "key \<notin> fst ` set cache \<Longrightarrow> AList.delete key cache = cache"
  by (induction cache) auto

lemma held_delete:
  "distinct (map fst cache) \<Longrightarrow> map_of cache key = Some f \<Longrightarrow>
   held cache g = held (AList.delete key cache) g + (if g = f then 1 else 0)"
proof (induction cache)
  case (Cons e cache)
  then show ?case
    by (cases e; cases "fst e = key") (simp_all add: delete_notin)
qed simp

lemma held_append [simp]: "held (xs @ ys) f = held xs f + held ys f"
  by (simp add: held_def)

lemma distinct_insort_fst:
  "distinct (map fst cache) \<Longrightarrow> map_of cache (fst e) = None \<Longrightarrow>
   distinct (map fst (insort_key fst e cache))"
  by (induction cache) (auto simp: map_of_eq_None_iff set_insort_key split: if_splits)

context frame_pool
begin

lemma take_inv:
  assumes "pc_inv inv valid owners (cache, s)" and "pc_take share key (cache, s) = (r, (cache', s'))"
  shows "cache' = cache \<and> pc_inv inv valid owners (cache, s') \<and>
    (case r of
       None \<Rightarrow> s' = s
     | Some f \<Rightarrow> map_of cache key = Some f \<and>
         others owners (cache, s') f = others owners (cache, s) f + 1 \<and>
         (\<forall>g. valid s g \<and> g \<noteq> f \<and> 0 < owners s g \<longrightarrow>
           others owners (cache, s') g = others owners (cache, s) g))"
proof (cases "map_of cache key")
  case None
  then show ?thesis using assms by (auto simp: pc_take_def)
next
  case (Some f)
  obtain ok s1 where sh: "share f s = (ok, s1)" by fastforce
  have f: "inv s" "valid s f" "held cache f \<le> owners s f" "(key, f) \<in> set cache"
    using assms(1) Some map_of_SomeD [OF Some] by (auto simp: pc_inv_def)
  show ?thesis
  proof (cases ok)
    case False
    then show ?thesis
      using assms share_no [OF f(1,2)] sh by (auto simp: pc_take_def Some)
  next
    case True
    then have s1: "inv s1" "valid s1 = valid s" "owners s1 f = owners s f + 1"
      "\<And>g. valid s g \<Longrightarrow> g \<noteq> f \<Longrightarrow> 0 < owners s g \<Longrightarrow> owners s1 g = owners s g"
      using share_yes [OF f(1,2)] sh by auto
    have "held cache g \<le> owners s1 g" if "valid s g" for g
    proof (cases "g = f")
      case False
      then show ?thesis
        using that assms(1) s1(4) [OF that False] by (cases "owners s g = 0") (auto simp: pc_inv_def)
    qed (use f s1 in simp)
    then show ?thesis
      using assms s1 f sh True by (auto simp: pc_take_def Some pc_inv_def others_def Suc_diff_le)
  qed
qed

lemma keep_inv:
  assumes "pc_inv inv valid owners (cache, s)" and "valid s f"
    and "pc_keep share pages key f (cache, s) = (cache', s')"
  shows "pc_inv inv valid owners (cache', s') \<and>
    (\<forall>g. valid s g \<and> 0 < owners s g \<longrightarrow>
      others owners (cache', s') g = others owners (cache, s) g)"
proof (cases "map_of cache key \<noteq> None \<or> pages div SHARE_OF_MEMORY \<le> length cache")
  case True
  then show ?thesis using assms by (auto simp: pc_keep_def)
next
  case False
  obtain ok s1 where sh: "share f s = (ok, s1)" by fastforce
  have inv: "inv s" using assms(1) by (simp add: pc_inv_def)
  show ?thesis
  proof (cases ok)
    case ok: False
    then show ?thesis
      using assms False share_no [OF inv assms(2)] sh by (auto simp: pc_keep_def)
  next
    case True
    then have s1: "inv s1" "valid s1 = valid s" "owners s1 f = owners s f + 1"
      "\<And>g. valid s g \<Longrightarrow> g \<noteq> f \<Longrightarrow> 0 < owners s g \<Longrightarrow> owners s1 g = owners s g"
      using share_yes [OF inv assms(2)] sh by auto
    have r: "cache' = insort_key fst (key, f) cache" "s' = s1"
      using assms(3) False sh True by (simp_all add: pc_keep_def)
    have "held cache' g \<le> owners s1 g" if "valid s g" for g
    proof (cases "g = f")
      case False
      then show ?thesis
        using that assms(1) s1(4) [OF that False]
        by (cases "owners s g = 0") (auto simp: pc_inv_def r held_insort)
    qed (use assms(1,2) s1 in \<open>auto simp: pc_inv_def r held_insort\<close>)
    moreover have "distinct (map fst cache')"
    proof -
      have "map_of cache key = None" and "distinct (map fst cache)"
        using False assms(1) by (blast, simp add: pc_inv_def)
      then show ?thesis
        using distinct_insort_fst [of cache "(key, f)", unfolded fst_conv] r(1) by blast
    qed
    moreover have "\<forall>e\<in>set cache'. valid s (snd e)"
      using assms(1,2) by (auto simp: r pc_inv_def set_insort_key)
    moreover have "others owners (cache', s1) g = others owners (cache, s) g"
      if "valid s g" "0 < owners s g" for g
      using that s1(3,4) by (cases "g = f") (auto simp: others_def r held_insort)
    ultimately show ?thesis
      using s1(1,2) by (simp add: pc_inv_def r(2))
  qed
qed

lemma release_held:
  assumes "inv s" and "valid s f" and "0 < owners s f"
  shows "inv (release f s)" and "valid (release f s) = valid s"
    and "valid s g \<Longrightarrow> owners s g = owners (release f s) g + (if g = f then 1 else 0)"
  using release [OF assms(1,2)] assms(3) by auto

lemma drop_inv:
  "pc_inv inv valid owners (cache, s) \<Longrightarrow> pc_drop release keys (cache, s) = (cache', s') \<Longrightarrow>
   pc_inv inv valid owners (cache', s') \<and> valid s' = valid s \<and>
   cache' = filter (\<lambda>e. fst e \<notin> set keys) cache \<and>
   (\<forall>g. valid s g \<longrightarrow> others owners (cache', s') g = others owners (cache, s) g)"
proof (induction keys arbitrary: cache s)
  case (Cons key keys)
  show ?case
  proof (cases "map_of cache key")
    case None
    then have "key \<notin> fst ` set cache"
      by (simp add: map_of_eq_None_iff)
    then have "filter (\<lambda>e. fst e \<notin> set (key # keys)) cache = filter (\<lambda>e. fst e \<notin> set keys) cache"
      by (intro filter_cong) auto
    then show ?thesis
      using Cons.IH [of cache s] Cons.prems None by auto
  next
    case (Some f)
    let ?c = "AList.delete key cache" and ?s = "release f s"
    have f: "inv s" "valid s f" "distinct (map fst cache)" "0 < held cache f"
      "\<And>g. valid s g \<Longrightarrow> held cache g \<le> owners s g"
      using Cons.prems(1) map_of_SomeD [OF Some] held_pos [of key f cache] by (auto simp: pc_inv_def)
    then have pos: "0 < owners s f"
      using f(5) [OF f(2)] by linarith
    note rel = release_held [OF f(1,2) pos] and del = held_delete [OF f(3) Some]
    have held: "held ?c g \<le> owners ?s g" if "valid s g" for g
      using f(5) [OF that] rel(3) [OF that] del [of g] by (simp split: if_splits)
    have "pc_inv inv valid owners (?c, ?s)"
      using Cons.prems(1) rel(1,2) held
      by (auto simp: pc_inv_def AList.delete_eq distinct_map_filter)
    moreover have "others owners (?c, ?s) g = others owners (cache, s) g" if "valid s g" for g
      using rel(3) [OF that] del [of g] by (simp add: others_def split: if_splits)
    moreover have "filter (\<lambda>e. fst e \<notin> set keys) ?c = filter (\<lambda>e. fst e \<notin> set (key # keys)) cache"
      by (auto simp: AList.delete_eq intro!: filter_cong)
    ultimately show ?thesis
      using Cons.IH [of ?c ?s] Cons.prems(2) Some rel(2) by auto
  qed
qed (simp add: pc_inv_def)

lemma retain_inv:
  "pc_inv inv valid owners (kept @ cache, s) \<Longrightarrow>
   pc_retain release shared want freed cache s = (n, (cache', s')) \<Longrightarrow>
   pc_inv inv valid owners (kept @ cache', s') \<and> valid s' = valid s \<and>
   (\<forall>g. valid s g \<longrightarrow> others owners (kept @ cache', s') g = others owners (kept @ cache, s) g) \<and>
   n + length cache' = freed + length cache \<and> set cache' \<subseteq> set cache \<and>
   (\<forall>e\<in>set cache - set cache'. owners s' (snd e) = 0) \<and>
   (\<forall>g. valid s g \<and> owners s g = 0 \<longrightarrow> owners s' g = 0)"
proof (induction cache arbitrary: kept s freed n cache' s')
  case (Cons e cache)
  obtain key f where e: "e = (key, f)" by fastforce
  show ?case
  proof (cases "want \<le> freed \<or> shared f s")
    case True
    obtain c where r: "pc_retain release shared want freed cache s = (n, (c, s'))" "cache' = e # c"
      using Cons.prems(2) True by (auto simp: e split: prod.splits)
    have "pc_inv inv valid owners ((kept @ [e]) @ cache, s)"
      using Cons.prems(1) by simp
    from Cons.IH [OF this r(1)] show ?thesis
      by (auto simp: r(2))
  next
    case False
    let ?s = "release f s"
    have inv: "inv s" "valid s f" "distinct (map fst (kept @ cache))"
      "\<And>g. valid s g \<Longrightarrow> held (kept @ e # cache) g \<le> owners s g"
      using Cons.prems(1) by (auto simp: pc_inv_def e)
    have one: "owners s f = 1"
      using False inv(4) [OF inv(2)] shared_iff [OF inv(1,2)] by (simp add: e)
    note rel = release_held [OF inv(1,2), unfolded one, OF zero_less_one]
    have "pc_inv inv valid owners (kept @ cache, ?s)"
      using Cons.prems(1) rel(1,2) inv(3,4) rel(3)
      by (fastforce simp: pc_inv_def e split: if_splits)
    moreover have "pc_retain release shared want (freed + 1) cache ?s = (n, (cache', s'))"
      using Cons.prems(2) False by (simp add: e)
    ultimately have ih: "pc_inv inv valid owners (kept @ cache', s') \<and> valid s' = valid ?s \<and>
       (\<forall>g. valid ?s g \<longrightarrow> others owners (kept @ cache', s') g = others owners (kept @ cache, ?s) g) \<and>
       n + length cache' = freed + 1 + length cache \<and> set cache' \<subseteq> set cache \<and>
       (\<forall>e\<in>set cache - set cache'. owners s' (snd e) = 0) \<and>
       (\<forall>g. valid ?s g \<and> owners ?s g = 0 \<longrightarrow> owners s' g = 0)"
      by (rule Cons.IH)
    have "owners ?s f = 0"
      using rel(3) [OF inv(2)] one by simp
    moreover have "others owners (kept @ cache, ?s) g = others owners (kept @ e # cache, s) g"
      if "valid s g" for g
      using rel(3) [OF that] by (simp add: others_def e)
    moreover have "owners ?s g = 0" if "valid s g" "owners s g = 0" for g
      using rel(3) [OF that(1)] that(2) by simp
    ultimately show ?thesis
      using ih rel(2) inv(2) by (auto simp: e)
  qed
qed (simp add: pc_inv_def)

end

section \<open>The cache on the frame allocator\<close>

abbreviation cache_ok :: "(nat, frames) page_cache \<Rightarrow> bool" where
  "cache_ok \<equiv> pc_inv frames_inv releasable owners"

text \<open>
  C14.  The page cache never takes a page from anyone: lending a cached page adds one owner to
  it, and keeping a page, forgetting a file and shrinking the cache leave every frame the
  owners it has beside the cache; the cache stays the owner of each of its pages.
\<close>

theorem page_cache_keeps_others:
  assumes "cache_ok (cache, s)" and "releasable s f" and "releasable s g" and "0 < owners s g"
  shows "(case pc_take share key (cache, s) of
        (None, cs') \<Rightarrow> cs' = (cache, s)
      | (Some h, cs') \<Rightarrow> cache_ok cs' \<and> map_of cache key = Some h \<and>
          others owners cs' g = others owners (cache, s) g + (if g = h then 1 else 0)) \<and>
    (cache_ok (pc_keep share pages key f (cache, s)) \<and>
      others owners (pc_keep share pages key f (cache, s)) g = others owners (cache, s) g) \<and>
    (cache_ok (pc_forget free_frame file (cache, s)) \<and>
      others owners (pc_forget free_frame file (cache, s)) g = others owners (cache, s) g) \<and>
    (cache_ok (snd (pc_shrink free_frame is_shared want (cache, s))) \<and>
      others owners (snd (pc_shrink free_frame is_shared want (cache, s))) g =
        others owners (cache, s) g)"
proof (intro conjI)
  obtain r cache' s' where t: "pc_take share key (cache, s) = (r, (cache', s'))"
    by (cases "pc_take share key (cache, s)") auto
  show "case pc_take share key (cache, s) of
        (None, cs') \<Rightarrow> cs' = (cache, s)
      | (Some h, cs') \<Rightarrow> cache_ok cs' \<and> map_of cache key = Some h \<and>
          others owners cs' g = others owners (cache, s) g + (if g = h then 1 else 0)"
    using pool.take_inv [OF assms(1) t] assms(3,4) unfolding t by (cases r) auto
  obtain kc ks where k: "pc_keep share pages key f (cache, s) = (kc, ks)"
    by fastforce
  show "cache_ok (pc_keep share pages key f (cache, s))"
    "others owners (pc_keep share pages key f (cache, s)) g = others owners (cache, s) g"
    using pool.keep_inv [OF assms(1,2) k] assms(3,4) unfolding k by blast+
  obtain dc ds where d: "pc_drop free_frame (filter (\<lambda>key. fst key = file) (map fst cache)) (cache, s) = (dc, ds)"
    by fastforce
  show "cache_ok (pc_forget free_frame file (cache, s))"
    "others owners (pc_forget free_frame file (cache, s)) g = others owners (cache, s) g"
    using pool.drop_inv [OF assms(1) d] assms(1,3) d by (auto simp: pc_forget_def Let_def)
  obtain n rc rs where h: "pc_retain free_frame is_shared want 0 cache s = (n, (rc, rs))"
    by (cases "pc_retain free_frame is_shared want 0 cache s") auto
  show "cache_ok (snd (pc_shrink free_frame is_shared want (cache, s)))"
    "others owners (snd (pc_shrink free_frame is_shared want (cache, s))) g =
        others owners (cache, s) g"
    using pool.retain_inv [of "[]", unfolded append_Nil, OF assms(1) h] assms(3)
    unfolding pc_shrink_def prod.case h snd_conv by blast+
qed

text \<open>
  C15.  Shrinking the cache really frees memory: the count it returns is the number of pages
  that left the cache, each of which is free afterwards; forgetting a file drops exactly the
  entries of that file.
\<close>

theorem page_cache_shrink_frees:
  assumes "cache_ok (cache, s)"
  shows "(case pc_shrink free_frame is_shared want (cache, s) of
      (n, (cache', s')) \<Rightarrow> n + length cache' = length cache \<and> set cache' \<subseteq> set cache \<and>
        (\<forall>e\<in>set cache - set cache'. owners s' (snd e) = 0)) \<and>
    fst (pc_forget free_frame file (cache, s)) = filter (\<lambda>e. fst (fst e) \<noteq> file) cache"
proof
  obtain n rc rs where h: "pc_retain free_frame is_shared want 0 cache s = (n, (rc, rs))"
    by (cases "pc_retain free_frame is_shared want 0 cache s") auto
  show "case pc_shrink free_frame is_shared want (cache, s) of
      (n, (cache', s')) \<Rightarrow> n + length cache' = length cache \<and> set cache' \<subseteq> set cache \<and>
        (\<forall>e\<in>set cache - set cache'. owners s' (snd e) = 0)"
    using pool.retain_inv [of "[]", unfolded append_Nil, OF assms h]
    unfolding pc_shrink_def prod.case h by simp
  obtain dc ds where d: "pc_drop free_frame (filter (\<lambda>key. fst key = file) (map fst cache)) (cache, s) = (dc, ds)"
    by fastforce
  have "filter (\<lambda>e. fst e \<notin> set (filter (\<lambda>key. fst key = file) (map fst cache))) cache =
      filter (\<lambda>e. fst (fst e) \<noteq> file) cache"
    by (rule filter_cong) auto
  then show "fst (pc_forget free_frame file (cache, s)) = filter (\<lambda>e. fst (fst e) \<noteq> file) cache"
    using pool.drop_inv [OF assms d] d
    by (auto simp: pc_forget_def Let_def filter_empty_conv filter_id_conv)
qed

text \<open>A cache with one page, in a frame of a small pool, which nobody else owns.\<close>

definition one_page_pool :: frames where
  "one_page_pool = small_pool\<lparr>fr_bits := [7, 0], fr_free := 13\<rparr>"

definition one_page :: "(page_key \<times> nat) list" where
  "one_page = [(((1, 1), 0, 4096), 8192)]"

lemma one_page_unused: "unused one_page_pool = {3..<16}"
proof -
  have "is_used one_page_pool i \<longleftrightarrow> i < 3" if "i < 16" for i
  proof -
    have "i \<in> {0, 1, 2, 3, 4, 5, 6, 7, 8, 9, 10, 11, 12, 13, 14, 15}"
      using that unfolding insert_iff empty_iff by presburger
    then show ?thesis
      by (auto simp: is_used_def fr_byte_def one_page_pool_def)
  qed
  then show ?thesis
    by (force simp: unused_def one_page_pool_def small_pool_def)
qed

lemma one_page_ok:
  "cache_ok (one_page, one_page_pool)" "releasable one_page_pool 8192"
  "owners one_page_pool 8192 = 1"
proof -
  have "frames_inv one_page_pool"
    unfolding frames_inv_def frames_shape_def one_page_unused
    by (simp add: one_page_pool_def small_pool_def bitmap_frame_def extra_def div_ceil_def)
  moreover have "2 \<notin> unused one_page_pool"
    by (simp add: one_page_unused)
  then show o: "owners one_page_pool 8192 = 1"
    by (simp add: owners_def unused_def one_page_pool_def small_pool_def PAGE_SIZE_def extra_def)
  show r: "releasable one_page_pool 8192"
    by (simp add: releasable_def one_page_pool_def small_pool_def PAGE_SIZE_def bitmap_frame_def)
  ultimately show "cache_ok (one_page, one_page_pool)"
    using o by (simp add: pc_inv_def one_page_def)
qed

theorem page_cache_keeps_others_witness:
  "cache_ok (snd (pc_shrink free_frame is_shared 1 (one_page, one_page_pool)))"
  using page_cache_keeps_others [OF one_page_ok(1,2,2)] one_page_ok(3) by simp

theorem page_cache_shrink_frees_witness:
  "fst (pc_forget free_frame (2, 2) (one_page, one_page_pool)) = one_page"
  using page_cache_shrink_frees [OF one_page_ok(1), of _ "(2, 2)"] by (simp add: one_page_def)

end
