(* ===== verification/Pipe.thy ===== *)
theory Pipe
  imports Interfaces
begin

text \<open>
  Pipes between processes (\<^verbatim>\<open>crates/kernel/src/user/pipe.rs\<close>): a ring of 4096 bytes with the
  numbers of open read and write ends.  A call that has to wait is \<open>Sleep\<close>: the code sleeps on
  the pipe and tries again when it is woken.  \<open>pi_wakes\<close> counts the times the code wakes the
  threads that sleep on the pipe (\<^verbatim>\<open>sched::wake_lock\<close> and \<^verbatim>\<open>io_events::notify\<close>, always called
  together).
\<close>

section \<open>The ring\<close>

definition PIPE_CAPACITY :: nat where
  "PIPE_CAPACITY = 4096"

datatype pipe_error = Broken | WouldBlock | OutOfMemory

record pipe =
  pi_bytes :: "u8 list"
  pi_head :: nat
  pi_len :: nat
  pi_readers :: nat
  pi_writers :: nat
  pi_wakes :: nat

definition pipe_free :: "pipe \<Rightarrow> nat" where
  "pipe_free p = PIPE_CAPACITY - pi_len p"

definition pipe_push :: "u8 list \<Rightarrow> pipe \<Rightarrow> nat \<times> pipe" where
  "pipe_push data p =
     (let take_n = min (length data) (pipe_free p);
          start = (pi_head p + pi_len p) mod PIPE_CAPACITY;
          bytes = fold (\<lambda>offset bytes. bytes[(start + offset) mod PIPE_CAPACITY := data ! offset])
                    [0..<take_n] (pi_bytes p)
      in (take_n, p\<lparr>pi_bytes := bytes, pi_len := pi_len p + take_n\<rparr>))"

definition pipe_pop :: "nat \<Rightarrow> pipe \<Rightarrow> u8 list \<times> pipe" where
  "pipe_pop buffer_len p =
     (let take_n = min buffer_len (pi_len p);
          bytes = map (\<lambda>offset. pi_bytes p ! ((pi_head p + offset) mod PIPE_CAPACITY)) [0..<take_n]
      in (bytes, p\<lparr>pi_head := (pi_head p + take_n) mod PIPE_CAPACITY, pi_len := pi_len p - take_n\<rparr>))"

section \<open>The ends\<close>

definition pipe_create :: "bool \<Rightarrow> pipe_error + pipe" where
  "pipe_create memory =
     (if \<not> memory then Inl OutOfMemory
      else Inr \<lparr>pi_bytes = replicate PIPE_CAPACITY 0, pi_head = 0, pi_len = 0,
                pi_readers = 1, pi_writers = 1, pi_wakes = 0\<rparr>)"

definition pipe_wake :: "pipe \<Rightarrow> pipe" where
  "pipe_wake p = p\<lparr>pi_wakes := pi_wakes p + 1\<rparr>"

datatype 'a outcome = Done 'a | Fail pipe_error | Sleep

definition reader_read :: "nat \<Rightarrow> bool \<Rightarrow> pipe \<Rightarrow> u8 list outcome \<times> pipe" where
  "reader_read buffer_len blocking p =
     (if 0 < pi_len p then let (bytes, p') = pipe_pop buffer_len p in (Done bytes, pipe_wake p')
      else if pi_writers p = 0 then (Done [], p)
      else if \<not> blocking then (Fail WouldBlock, p)
      else (Sleep, p))"

definition reader_ready :: "pipe \<Rightarrow> bool" where
  "reader_ready p \<longleftrightarrow> 0 < pi_len p \<or> pi_writers p = 0"

definition reader_hangup :: "pipe \<Rightarrow> bool" where
  "reader_hangup p \<longleftrightarrow> pi_writers p = 0"

definition reader_clone :: "pipe \<Rightarrow> pipe" where
  "reader_clone p = p\<lparr>pi_readers := pi_readers p + 1\<rparr>"

definition reader_drop :: "pipe \<Rightarrow> pipe" where
  "reader_drop p = pipe_wake (p\<lparr>pi_readers := pi_readers p - 1\<rparr>)"

definition writer_write :: "u8 list \<Rightarrow> bool \<Rightarrow> pipe \<Rightarrow> nat outcome \<times> pipe" where
  "writer_write data blocking p =
     (if data = [] then (Done 0, p)
      else if pi_readers p = 0 then (Fail Broken, p)
      else if 0 < pipe_free p
      then let (written, p') = pipe_push data p in (Done written, pipe_wake p')
      else if \<not> blocking then (Fail WouldBlock, p)
      else (Sleep, p))"

definition writer_ready :: "pipe \<Rightarrow> bool" where
  "writer_ready p \<longleftrightarrow> 0 < pipe_free p \<or> pi_readers p = 0"

definition writer_hangup :: "pipe \<Rightarrow> bool" where
  "writer_hangup p \<longleftrightarrow> pi_readers p = 0"

definition writer_clone :: "pipe \<Rightarrow> pipe" where
  "writer_clone p = p\<lparr>pi_writers := pi_writers p + 1\<rparr>"

definition writer_drop :: "pipe \<Rightarrow> pipe" where
  "writer_drop p = pipe_wake (p\<lparr>pi_writers := pi_writers p - 1\<rparr>)"

section \<open>The ring is a queue\<close>

definition pipe_inv :: "pipe \<Rightarrow> bool" where
  "pipe_inv p \<longleftrightarrow> length (pi_bytes p) = PIPE_CAPACITY \<and> pi_head p < PIPE_CAPACITY \<and>
     pi_len p \<le> PIPE_CAPACITY"

definition pipe_content :: "pipe \<Rightarrow> u8 list" where
  "pipe_content p =
     map (\<lambda>i. pi_bytes p ! ((pi_head p + i) mod PIPE_CAPACITY)) [0..<pi_len p]"

lemma PIPE_CAPACITY_pos [simp]: "0 < PIPE_CAPACITY"
  by (simp add: PIPE_CAPACITY_def)

lemma length_pipe_content [simp]: "length (pipe_content p) = pi_len p"
  by (simp add: pipe_content_def)

lemma ring_index:
  "a < n \<Longrightarrow> i \<le> n \<Longrightarrow> (a + i) mod n = (if a + i < n then a + i else a + i - n)" for n :: nat
  by (simp add: le_mod_geq)

lemma ring_index_inj:
  "a < n \<Longrightarrow> i < n \<Longrightarrow> j < n \<Longrightarrow> (a + i) mod n = (a + j) mod n \<longleftrightarrow> i = j" for n :: nat
  by (auto simp: ring_index split: if_splits)

lemma fold_ring:
  assumes "length bytes = PIPE_CAPACITY" and "head < PIPE_CAPACITY" and "len + n \<le> PIPE_CAPACITY"
  shows "length (fold (\<lambda>k bytes. bytes[(head + (len + k)) mod PIPE_CAPACITY := data ! k]) [0..<n] bytes)
      = PIPE_CAPACITY \<and>
    (\<forall>i < PIPE_CAPACITY.
      fold (\<lambda>k bytes. bytes[(head + (len + k)) mod PIPE_CAPACITY := data ! k]) [0..<n] bytes
        ! ((head + i) mod PIPE_CAPACITY) =
      (if len \<le> i \<and> i < len + n then data ! (i - len) else bytes ! ((head + i) mod PIPE_CAPACITY)))"
  using assms(3)
proof (induction n)
  case (Suc n)
  then show ?case
    using assms(1,2) by (auto simp: nth_list_update ring_index_inj less_Suc_eq)
qed (auto simp: assms(1))

lemma pipe_push_fifo:
  assumes "pipe_inv p" and "pipe_push data p = (n, p')"
  shows "pipe_inv p' \<and> n = min (length data) (PIPE_CAPACITY - length (pipe_content p)) \<and>
    pipe_content p' = pipe_content p @ take n data"
proof -
  have inv: "length (pi_bytes p) = PIPE_CAPACITY" "pi_head p < PIPE_CAPACITY" "pi_len p \<le> PIPE_CAPACITY"
    using assms(1) by (simp_all add: pipe_inv_def)
  have n: "n = min (length data) (PIPE_CAPACITY - pi_len p)"
    using assms(2) by (simp add: pipe_push_def pipe_free_def Let_def)
  let ?b = "fold (\<lambda>k bytes. bytes[(pi_head p + (pi_len p + k)) mod PIPE_CAPACITY := data ! k]) [0..<n] (pi_bytes p)"
  have p': "p' = p\<lparr>pi_bytes := ?b, pi_len := pi_len p + n\<rparr>"
    using assms(2) n
    by (auto simp: pipe_push_def pipe_free_def Let_def mod_add_left_eq add.assoc)
  have le: "pi_len p + n \<le> PIPE_CAPACITY"
    using n inv(3) by simp
  note ring = fold_ring [OF inv(1,2) le, of data]
  have "pipe_inv p'"
    using ring le inv(2) by (simp add: pipe_inv_def p')
  moreover have "pipe_content p' = pipe_content p @ take n data"
  proof (intro nth_equalityI)
    fix i
    assume i: "i < length (pipe_content p')"
    then have "i < PIPE_CAPACITY" "i < pi_len p + n"
      using le by (simp_all add: p' pipe_content_def)
    then show "pipe_content p' ! i = (pipe_content p @ take n data) ! i"
      using ring by (simp add: p' pipe_content_def nth_append)
  qed (use n in \<open>simp add: p'\<close>)
  ultimately show ?thesis
    using n by simp
qed

lemma pipe_pop_fifo:
  assumes "pipe_inv p" and "pipe_pop n p = (bs, p')"
  shows "pipe_inv p' \<and> bs = take n (pipe_content p) \<and> pipe_content p' = drop n (pipe_content p)"
proof -
  have p': "p' = p\<lparr>pi_head := (pi_head p + min n (pi_len p)) mod PIPE_CAPACITY,
      pi_len := pi_len p - min n (pi_len p)\<rparr>"
    and bs: "bs = map (\<lambda>i. pi_bytes p ! ((pi_head p + i) mod PIPE_CAPACITY)) [0..<min n (pi_len p)]"
    using assms(2) by (auto simp: pipe_pop_def Let_def)
  have "pipe_inv p'"
    using assms(1) by (auto simp: pipe_inv_def p')
  moreover have "bs = take n (pipe_content p)"
    by (simp add: bs pipe_content_def take_map take_upt min_def)
  moreover have "pipe_content p' = drop n (pipe_content p)"
    by (intro nth_equalityI) (auto simp: p' pipe_content_def mod_add_left_eq add.assoc min_def)
  ultimately show ?thesis by simp
qed

interpretation pipe: byte_channel pipe_push pipe_pop pipe_content "\<lambda>_. PIPE_CAPACITY" pipe_inv
  by unfold_locales (use pipe_push_fifo pipe_pop_fifo in blast)+

text \<open>
  C16.  A pipe is a first-in first-out channel: over any sequence of pushes and pops on a new
  pipe the bytes accepted are the bytes taken followed by the bytes still in the ring, of
  which there are never more than the capacity.
\<close>

theorem pipe_fifo:
  "case pipe_create True of
     Inl e \<Rightarrow> False
   | Inr p \<Rightarrow> (case pipe.run ops p of
       (accepted, taken, p') \<Rightarrow>
         accepted = taken @ pipe_content p' \<and> length (pipe_content p') \<le> PIPE_CAPACITY)"
proof -
  obtain p where p: "pipe_create True = Inr p" "pipe_inv p" "pipe_content p = []"
    by (simp add: pipe_create_def pipe_inv_def pipe_content_def)
  obtain accepted taken p' where r: "pipe.run ops p = (accepted, taken, p')"
    using prod_cases3 by blast
  show ?thesis
    using pipe.run_fifo [OF p(2) r] p(3) by (simp add: p(1) r) (simp add: pipe_inv_def)
qed

section \<open>Reading, writing and sleeping\<close>


text \<open>One operation of another thread on the pipe.\<close>

inductive pipe_step :: "pipe \<Rightarrow> pipe \<Rightarrow> bool" where
  take: "pipe_step p (snd (reader_read n blocking p))"
| put: "pipe_step p (snd (writer_write data blocking p))"
| clone_reader: "0 < pi_readers p \<Longrightarrow> pipe_step p (reader_clone p)"
| clone_writer: "0 < pi_writers p \<Longrightarrow> pipe_step p (writer_clone p)"
| drop_reader: "0 < pi_readers p \<Longrightarrow> pipe_step p (reader_drop p)"
| drop_writer: "0 < pi_writers p \<Longrightarrow> pipe_step p (writer_drop p)"

text \<open>
  C18.  No wake-up is lost: whatever operation makes a pipe ready for a reader or a writer that
  was not ready before also wakes the threads that sleep on the pipe.
\<close>

theorem pipe_no_lost_wakeup:
  assumes "pipe_step p p'" and "pipe_inv p"
    and "\<not> reader_ready p \<and> reader_ready p' \<or> \<not> writer_ready p \<and> writer_ready p'"
  shows "pi_wakes p' = pi_wakes p + 1 \<and> pipe_inv p'"
  using assms
proof (cases rule: pipe_step.cases)
  case (take n blocking)
  obtain bs q where pop: "pipe_pop n p = (bs, q)" by fastforce
  then have "pi_wakes q = pi_wakes p"
    by (auto simp: pipe_pop_def Let_def)
  then show ?thesis
    using take assms(2,3) pipe_pop_fifo [OF assms(2) pop]
    by (auto simp: reader_read_def pop pipe_wake_def pipe_inv_def split: if_splits)
next
  case (put data blocking)
  obtain n q where push: "pipe_push data p = (n, q)" by fastforce
  then have "pi_wakes q = pi_wakes p"
    by (auto simp: pipe_push_def Let_def)
  then show ?thesis
    using put assms(2,3) pipe_push_fifo [OF assms(2) push]
    by (auto simp: writer_write_def push pipe_wake_def pipe_inv_def split: if_splits)
qed (auto simp: reader_clone_def writer_clone_def reader_drop_def writer_drop_def pipe_wake_def
    pipe_inv_def reader_ready_def writer_ready_def pipe_free_def)

definition full_pipe :: pipe where
  "full_pipe = \<lparr>pi_bytes = replicate PIPE_CAPACITY 1, pi_head = 0, pi_len = PIPE_CAPACITY,
     pi_readers = 1, pi_writers = 1, pi_wakes = 5\<rparr>"

lemma full_pipe_inv: "pipe_inv full_pipe"
  by (simp add: pipe_inv_def full_pipe_def)


theorem pipe_no_lost_wakeup_witness: "pi_wakes (snd (reader_read 1 True full_pipe)) = 6"
proof -
  have "\<not> writer_ready full_pipe \<and> writer_ready (snd (reader_read 1 True full_pipe))"
    by (simp add: writer_ready_def reader_read_def full_pipe_def pipe_free_def pipe_pop_def Let_def
        pipe_wake_def)
  then have "pi_wakes (snd (reader_read 1 True full_pipe)) = pi_wakes full_pipe + 1"
    using pipe_no_lost_wakeup [OF pipe_step.take full_pipe_inv] by blast
  then show ?thesis
    by (simp add: full_pipe_def)
qed

end
