(* ===== verification/Block.thy ===== *)
theory Block
  imports Interfaces
begin

text \<open>
  Block devices: the disk in memory (\<^verbatim>\<open>crates/disk/src/mem.rs\<close>), the counter of requests
  (\<^verbatim>\<open>crates/kernel/src/block/mod.rs\<close>), and the read cache every file system sits on
  (\<^verbatim>\<open>crates/kernel/src/block/cache.rs\<close>), written over any device that keeps the contract
  \<open>block_device\<close> and interpreted on the disk in memory.
\<close>

section \<open>A disk in memory\<close>

datatype disk_error =
  Io | OutOfRange | UnsupportedSectorSize nat | Unaligned | TooSmall | NoSpace | BadName
| NotADirectory | ReadOnly | NotPartitioned | NotFat32 | NotFound | Corrupt

definition MAX_SECTOR_SIZE :: nat where
  "MAX_SECTOR_SIZE = 4096"

definition sector_size_supported :: "nat \<Rightarrow> bool" where
  "sector_size_supported n \<longleftrightarrow>
     512 \<le> n \<and> n \<le> MAX_SECTOR_SIZE \<and> n \<in> set (map (\<lambda>k. 2 ^ k) [0..<32])"

record mem_disk =
  md_data :: "u8 list"
  md_sector :: nat

definition mem_from_vec :: "u8 list \<Rightarrow> nat \<Rightarrow> mem_disk option" where
  "mem_from_vec data sector =
     (if \<not> sector_size_supported sector then None
      else if length data mod sector \<noteq> 0 \<or> data = [] then None
      else Some \<lparr>md_data = data, md_sector = sector\<rparr>)"

definition mem_with_sector_size :: "nat \<Rightarrow> nat \<Rightarrow> mem_disk option" where
  "mem_with_sector_size sectors sector =
     (if \<not> sector_size_supported sector then None
      else if 2 ^ 64 \<le> sectors * sector then None
      else Some \<lparr>md_data = replicate (sectors * sector) 0, md_sector = sector\<rparr>)"

definition mem_range :: "mem_disk \<Rightarrow> nat \<Rightarrow> nat \<Rightarrow> disk_error + nat \<times> nat" where
  "mem_range d lba len =
     (if len mod md_sector d \<noteq> 0 \<or> len = 0 then Inl Unaligned
      else if 2 ^ 64 \<le> lba * md_sector d then Inl OutOfRange
      else let start = lba * md_sector d in
        (case checked_add64 start len of
           None \<Rightarrow> Inl OutOfRange
         | Some stop \<Rightarrow> if length (md_data d) < stop then Inl OutOfRange else Inr (start, stop)))"

definition mem_read :: "nat \<Rightarrow> nat \<Rightarrow> mem_disk \<Rightarrow> (disk_error + u8 list) \<times> mem_disk" where
  "mem_read lba n d =
     (case mem_range d lba n of
        Inl e \<Rightarrow> (Inl e, d)
      | Inr (start, stop) \<Rightarrow> (Inr (subrange start stop (md_data d)), d))"

definition mem_write :: "nat \<Rightarrow> u8 list \<Rightarrow> mem_disk \<Rightarrow> disk_error option \<times> mem_disk" where
  "mem_write lba bs d =
     (case mem_range d lba (length bs) of
        Inl e \<Rightarrow> (Some e, d)
      | Inr (start, stop) \<Rightarrow> (None, d\<lparr>md_data := blit start bs (md_data d)\<rparr>))"

definition mem_sector_count :: "mem_disk \<Rightarrow> nat" where
  "mem_sector_count d = length (md_data d) div md_sector d"

definition mem_image :: "mem_disk \<Rightarrow> nat \<Rightarrow> u8" where
  "mem_image d a = (if a < length (md_data d) then md_data d ! a else 0)"

definition mem_good :: "mem_disk \<Rightarrow> bool" where
  "mem_good d \<longleftrightarrow> 0 < md_sector d"

lemma mem_range_Inr:
  "mem_range d lba n = Inr (start, stop) \<longleftrightarrow>
     n mod md_sector d = 0 \<and> 0 < n \<and> start = lba * md_sector d \<and> stop = start + n \<and>
     stop < 2 ^ 64 \<and> stop \<le> length (md_data d)"
  by (auto simp: mem_range_def Let_def checked_add64_def split: option.splits if_splits)

lemma mem_range_Inl:
  "mem_range d lba n = Inl e \<Longrightarrow>
   \<not> (n mod md_sector d = 0 \<and> 0 < n \<and> lba * md_sector d + n < 2 ^ 64 \<and>
       lba * md_sector d + n \<le> length (md_data d))"
  by (auto simp: mem_range_def Let_def checked_add64_def split: if_splits)

lemma max_1: "0 < ss \<Longrightarrow> max ss (1::nat) = ss"
  by simp

lemma sectors_of_multiple: "0 < ss \<Longrightarrow> n mod ss = 0 \<Longrightarrow> sectors_of ss n * ss = n"
proof -
  assume ss: "0 < ss" and "n mod ss = 0"
  then obtain q where n: "n = q * ss"
    by (metis mod_mult_div_eq add_0 mult.commute)
  have "div_ceil (q * ss) ss = q"
    by (rule antisym) (use ss div_ceil_le_iff [OF ss, of "q * ss" "q"]
      div_ceil_mult_ge [OF ss, of "q * ss"] in auto)
  then show ?thesis
    using ss by (simp add: sectors_of_def n max_1)
qed

lemma sectors_of_ge: "0 < ss \<Longrightarrow> n \<le> sectors_of ss n * ss"
  using div_ceil_mult_ge [of ss n] unfolding sectors_of_def by (simp only: max_1)

lemma subrange_bytes_at:
  "stop \<le> length (md_data d) \<Longrightarrow> start \<le> stop \<Longrightarrow>
   subrange start stop (md_data d) = bytes_at (mem_image d) start (stop - start)"
  by (rule nth_equalityI) (auto simp: subrange_def bytes_at_def mem_image_def)

lemma mem_image_blit:
  "start + length bs \<le> length (md_data d) \<Longrightarrow>
   mem_image (d\<lparr>md_data := blit start bs (md_data d)\<rparr>) = overlay (mem_image d) start bs"
  by (auto simp: fun_eq_iff mem_image_def overlay_def nth_blit)

lemma mem_read_cases:
  "mem_read lba n d = (r, d') \<longleftrightarrow> d' = d \<and>
     r = (case mem_range d lba n of Inl e \<Rightarrow> Inl e
          | Inr (start, stop) \<Rightarrow> Inr (subrange start stop (md_data d)))"
  by (auto simp: mem_read_def split: sum.splits)

lemma mem_read_Inr:
  "mem_read lba n d = (Inr bs, d') \<longleftrightarrow> d' = d \<and>
     n mod md_sector d = 0 \<and> 0 < n \<and> lba * md_sector d + n < 2 ^ 64 \<and>
     lba * md_sector d + n \<le> length (md_data d) \<and>
     bs = bytes_at (mem_image d) (lba * md_sector d) n"
  by (auto simp: mem_read_cases mem_range_Inr subrange_bytes_at dest: mem_range_Inl split: sum.splits)

lemma mem_write_spec:
  "mem_write lba bs d = (r, d') \<Longrightarrow>
   md_sector d' = md_sector d \<and> length (md_data d') = length (md_data d) \<and>
   mem_image d' = (if r = None then overlay (mem_image d) (lba * md_sector d) bs else mem_image d)"
  by (auto simp: mem_write_def mem_range_Inr mem_image_blit split: sum.splits)

section \<open>Counting requests\<close>

record 'd counted =
  co_inner :: 'd
  co_requests :: nat

definition counted_read ::
  "(nat \<Rightarrow> nat \<Rightarrow> 'd \<Rightarrow> ('e + u8 list) \<times> 'd) \<Rightarrow> nat \<Rightarrow> nat \<Rightarrow> 'd counted \<Rightarrow> ('e + u8 list) \<times> 'd counted" where
  "counted_read rd lba n c =
     (let c = c\<lparr>co_requests := co_requests c + 1\<rparr>; (r, d) = rd lba n (co_inner c)
      in (r, c\<lparr>co_inner := d\<rparr>))"

definition counted_write ::
  "(nat \<Rightarrow> u8 list \<Rightarrow> 'd \<Rightarrow> 'e option \<times> 'd) \<Rightarrow> nat \<Rightarrow> u8 list \<Rightarrow> 'd counted \<Rightarrow> 'e option \<times> 'd counted" where
  "counted_write wr lba bs c =
     (let c = c\<lparr>co_requests := co_requests c + 1\<rparr>; (r, d) = wr lba bs (co_inner c)
      in (r, c\<lparr>co_inner := d\<rparr>))"

section \<open>The read cache\<close>

definition CACHE_CAPACITY :: nat where
  "CACHE_CAPACITY = 1024"

definition MAX_UNIT :: nat where
  "MAX_UNIT = 4096"

definition LBA_NONE :: nat where
  "LBA_NONE = 2 ^ 64 - 1"

record entry =
  en_lba :: nat
  en_data :: "u8 list"
  en_used :: bool

text \<open>\<open>ca_room\<close> is the number of entries the heap has memory for; \<open>try_reserve\<close> fails beyond.\<close>

record 'd cached =
  ca_inner :: 'd
  ca_entries :: "entry list"
  ca_index :: "nat \<rightharpoonup> nat"
  ca_hand :: nat
  ca_room :: nat

definition cached_new :: "nat \<Rightarrow> 'd \<Rightarrow> 'd cached" where
  "cached_new room inner =
     \<lparr>ca_inner = inner, ca_entries = [], ca_index = Map.empty, ca_hand = 0, ca_room = room\<rparr>"

text \<open>The clock: pass over entries used since the last visit, and take the first one that was
  not; at most one full round, since every entry passed loses its mark.\<close>

function clock :: "entry list \<Rightarrow> nat \<Rightarrow> entry list \<times> nat \<times> nat" where
  "clock entries hand =
     (let slot = hand; hand = (hand + 1) mod length entries in
      if slot < length entries \<and> en_used (entries ! slot)
      then clock (entries[slot := (entries ! slot)\<lparr>en_used := False\<rparr>]) hand
      else (entries, slot, hand))"
  by pat_completeness auto
termination
proof (relation "measure (\<lambda>(entries, hand). length (filter en_used entries))", goal_cases)
  case (2 entries hand slot)
  then have u: "hand < length entries" "en_used (entries ! hand)" by simp_all
  have "filter en_used (entries[hand := (entries ! hand)\<lparr>en_used := False\<rparr>]) =
      filter en_used (take hand entries) @ filter en_used (drop (Suc hand) entries)"
    using u by (simp add: upd_conv_take_nth_drop)
  moreover have "filter en_used entries =
      filter en_used (take hand entries) @ entries ! hand # filter en_used (drop (Suc hand) entries)"
    using u by (subst id_take_nth_drop [OF u(1)]) (simp add: filter_append del: append_take_drop_id)
  ultimately show ?case
    using 2 by simp
qed simp

declare clock.simps [simp del]

definition remember :: "nat \<Rightarrow> u8 list \<Rightarrow> 'd cached \<Rightarrow> 'd cached" where
  "remember lba data c =
     (if length (ca_entries c) < CACHE_CAPACITY then
        if ca_room c \<le> length (ca_entries c) then c
        else c\<lparr>ca_index := (ca_index c)(lba \<mapsto> length (ca_entries c)),
               ca_entries := ca_entries c @ [\<lparr>en_lba = lba, en_data = data, en_used = False\<rparr>]\<rparr>
      else
        let (entries, slot, hand) = clock (ca_entries c) (ca_hand c);
            index = (ca_index c)(en_lba (entries ! slot) := None)
        in c\<lparr>ca_entries := entries[slot := (entries ! slot)\<lparr>en_data := data, en_lba := lba\<rparr>],
             ca_hand := hand, ca_index := index(lba \<mapsto> slot)\<rparr>)"

definition forget_entry :: "nat \<Rightarrow> nat \<Rightarrow> nat \<times> nat \<Rightarrow> 'd cached \<Rightarrow> 'd cached" where
  "forget_entry ss lba ks c =
     (case ks of (key, slot) \<Rightarrow>
       let span = sectors_of ss (length (en_data (ca_entries c ! slot))) in
       if lba < key + span
       then c\<lparr>ca_index := (ca_index c)(key := None),
              ca_entries := (ca_entries c)[slot := (ca_entries c ! slot)\<lparr>en_used := False, en_lba := LBA_NONE\<rparr>]\<rparr>
       else c)"

definition forget :: "nat \<Rightarrow> nat \<Rightarrow> nat \<Rightarrow> 'd cached \<Rightarrow> 'd cached" where
  "forget ss lba count c =
     (let back = sectors_of ss MAX_UNIT;
          start = lba - back;
          stop = saturating_add64 lba count;
          stale = map (\<lambda>key. (key, the (ca_index c key)))
                    (filter (\<lambda>key. ca_index c key \<noteq> None) [start..<stop])
      in fold (forget_entry ss lba) stale c)"

definition cached_hit :: "nat \<Rightarrow> nat \<Rightarrow> 'd cached \<Rightarrow> nat option" where
  "cached_hit lba n c =
     (case ca_index c lba of
        Some slot \<Rightarrow> if length (en_data (ca_entries c ! slot)) = n then Some slot else None
      | None \<Rightarrow> None)"

definition cached_read ::
  "(nat \<Rightarrow> nat \<Rightarrow> 'd \<Rightarrow> ('e + u8 list) \<times> 'd) \<Rightarrow> ('d \<Rightarrow> nat) \<Rightarrow> nat \<Rightarrow> nat \<Rightarrow> 'd cached \<Rightarrow>
     ('e + u8 list) \<times> 'd cached" where
  "cached_read rd ss lba n c =
     (if MAX_UNIT < n then let (r, d) = rd lba n (ca_inner c) in (r, c\<lparr>ca_inner := d\<rparr>)
      else case cached_hit lba n c of
        Some slot \<Rightarrow>
          (Inr (en_data (ca_entries c ! slot)),
           c\<lparr>ca_entries := (ca_entries c)[slot := (ca_entries c ! slot)\<lparr>en_used := True\<rparr>]\<rparr>)
      | None \<Rightarrow>
          (let (r, d) = rd lba n (ca_inner c); c = c\<lparr>ca_inner := d\<rparr> in
           case r of
             Inl e \<Rightarrow> (Inl e, c)
           | Inr buf \<Rightarrow>
               (let c = (if ca_index c lba \<noteq> None then forget (ss d) lba (sectors_of (ss d) n) c else c)
                in (Inr buf, remember lba buf c))))"

definition cached_write ::
  "(nat \<Rightarrow> u8 list \<Rightarrow> 'd \<Rightarrow> 'e option \<times> 'd) \<Rightarrow> ('d \<Rightarrow> nat) \<Rightarrow> nat \<Rightarrow> u8 list \<Rightarrow> 'd cached \<Rightarrow>
     'e option \<times> 'd cached" where
  "cached_write wr ss lba bs c =
     (let c = forget (ss (ca_inner c)) lba (sectors_of (ss (ca_inner c)) (length bs)) c;
          (r, d) = wr lba bs (ca_inner c)
      in (r, c\<lparr>ca_inner := d\<rparr>))"

section \<open>What is in the cache\<close>

definition cached_at :: "'d cached \<Rightarrow> nat \<Rightarrow> u8 list option" where
  "cached_at c k = map_option (\<lambda>slot. en_data (ca_entries c ! slot)) (ca_index c k)"

definition cached_struct :: "'d cached \<Rightarrow> bool" where
  "cached_struct c \<longleftrightarrow>
     (\<forall>k slot. ca_index c k = Some slot \<longrightarrow>
       slot < length (ca_entries c) \<and> en_lba (ca_entries c ! slot) = k) \<and>
     ca_hand c < CACHE_CAPACITY \<and> length (ca_entries c) \<le> CACHE_CAPACITY"

lemma clock_spec:
  "clock entries hand = (es, slot, h) \<Longrightarrow> hand < length entries \<Longrightarrow>
   length es = length entries \<and> slot < length entries \<and> h < length entries \<and>
   (\<forall>i < length entries. en_lba (es ! i) = en_lba (entries ! i) \<and> en_data (es ! i) = en_data (entries ! i))"
proof (induction entries hand arbitrary: es slot h rule: clock.induct)
  case (1 entries hand)
  have pos: "0 < length entries" using "1.prems"(2) by linarith
  then have h: "(hand + 1) mod length entries < length entries" by simp
  show ?case
  proof (cases "en_used (entries ! hand)")
    case True
    then have c: "clock (entries[hand := (entries ! hand)\<lparr>en_used := False\<rparr>]) ((hand + 1) mod length entries)
        = (es, slot, h)"
      using "1.prems" by (subst (asm) clock.simps) (simp add: Let_def)
    show ?thesis
      using "1.IH" [OF refl refl _ c] True "1.prems"(2) h by (auto simp: nth_list_update split: if_splits)
  next
    case False
    then show ?thesis
      using "1.prems" h by (subst (asm) clock.simps) (auto simp: Let_def)
  qed
qed

lemma remember_spec:
  assumes "cached_struct c"
  shows "cached_struct (remember lba data c)" and "ca_inner (remember lba data c) = ca_inner c"
    and "cached_at (remember lba data c) k = Some d \<Longrightarrow> (k = lba \<and> d = data) \<or> cached_at c k = Some d"
proof -
  have "cached_struct (remember lba data c) \<and> ca_inner (remember lba data c) = ca_inner c \<and>
    (\<forall>k d. cached_at (remember lba data c) k = Some d \<longrightarrow> (k = lba \<and> d = data) \<or> cached_at c k = Some d)"
  proof (cases "length (ca_entries c) < CACHE_CAPACITY")
    case True
    then show ?thesis
      using assms
      by (auto simp: remember_def cached_struct_def cached_at_def nth_append less_Suc_eq split: if_splits)
  next
    case False
    obtain es slot h where k: "clock (ca_entries c) (ca_hand c) = (es, slot, h)"
      using prod_cases3 by blast
    have "ca_hand c < length (ca_entries c)"
      using assms False by (simp add: cached_struct_def)
    note cl = clock_spec [OF k this]
    have st: "\<And>k slot. ca_index c k = Some slot \<Longrightarrow>
        slot < length (ca_entries c) \<and> en_lba (ca_entries c ! slot) = k"
      using assms by (simp add: cached_struct_def)
    have r: "remember lba data c = c\<lparr>ca_entries := es[slot := (es ! slot)\<lparr>en_data := data, en_lba := lba\<rparr>],
        ca_hand := h, ca_index := ((ca_index c)(en_lba (es ! slot) := None))(lba \<mapsto> slot)\<rparr>"
      using False k by (simp add: remember_def Let_def)
    have other: "s \<noteq> slot \<and> s < length es \<and> es ! s = es ! s \<and> en_lba (es ! s) = k \<and>
        en_data (es ! s) = en_data (ca_entries c ! s)"
      if "ca_index c k = Some s" "k \<noteq> en_lba (es ! slot)" for k s
      using st [OF that(1)] that(2) cl by auto
    have "cached_struct (remember lba data c)"
      using assms cl other by (auto simp: r cached_struct_def nth_list_update split: if_splits)
    moreover have "(k = lba \<and> d = data) \<or> cached_at c k = Some d"
      if "cached_at (remember lba data c) k = Some d" for k d
      using that cl other by (auto simp: r cached_at_def nth_list_update split: if_splits)
    ultimately show ?thesis
      by (simp add: r)
  qed
  then show "cached_struct (remember lba data c)" "ca_inner (remember lba data c) = ca_inner c"
    "cached_at (remember lba data c) k = Some d \<Longrightarrow> (k = lba \<and> d = data) \<or> cached_at c k = Some d"
    by blast+
qed

text \<open>An entry that reaches into the range that begins at sector \<open>lba\<close>.\<close>

definition reaches :: "nat \<Rightarrow> nat \<Rightarrow> nat \<Rightarrow> u8 list option \<Rightarrow> bool" where
  "reaches ss lba k d \<longleftrightarrow> (\<exists>data. d = Some data \<and> lba < k + sectors_of ss (length data))"

lemma forget_entry_spec:
  assumes "cached_struct c" and "ca_index c key = Some slot"
  shows "cached_struct (forget_entry ss lba (key, slot) c)"
    and "ca_inner (forget_entry ss lba (key, slot) c) = ca_inner c"
    and "ca_index (forget_entry ss lba (key, slot) c) k =
      (if k = key \<and> reaches ss lba k (cached_at c k) then None else ca_index c k)"
    and "cached_at (forget_entry ss lba (key, slot) c) k =
      (if k = key \<and> reaches ss lba k (cached_at c k) then None else cached_at c k)"
proof -
  have st: "\<And>k slot. ca_index c k = Some slot \<Longrightarrow>
      slot < length (ca_entries c) \<and> en_lba (ca_entries c ! slot) = k"
    using assms(1) by (simp add: cached_struct_def)
  have at: "cached_at c key = Some (en_data (ca_entries c ! slot))"
    by (simp add: cached_at_def assms(2))
  have ne: "slot \<noteq> s" if "ca_index c k = Some s" "k \<noteq> key" for k s
    using st [OF that(1)] st [OF assms(2)] that(2) by auto
  show "cached_struct (forget_entry ss lba (key, slot) c)"
    using assms(1) by (auto simp: forget_entry_def cached_struct_def Let_def nth_list_update_neq [OF ne])
  show "ca_inner (forget_entry ss lba (key, slot) c) = ca_inner c"
    by (simp add: forget_entry_def Let_def)
  show "ca_index (forget_entry ss lba (key, slot) c) k =
      (if k = key \<and> reaches ss lba k (cached_at c k) then None else ca_index c k)"
    using at by (auto simp: forget_entry_def Let_def reaches_def)
  show "cached_at (forget_entry ss lba (key, slot) c) k =
      (if k = key \<and> reaches ss lba k (cached_at c k) then None else cached_at c k)"
    using at ne by (cases "ca_index c k")
      (auto simp: forget_entry_def cached_at_def Let_def reaches_def nth_list_update)
qed

lemma fold_forget:
  "cached_struct c \<Longrightarrow> distinct keys \<Longrightarrow> \<forall>k\<in>set keys. ca_index c k \<noteq> None \<Longrightarrow>
   cached_struct (fold (forget_entry ss lba) (map (\<lambda>k. (k, the (ca_index c k))) keys) c) \<and>
   ca_inner (fold (forget_entry ss lba) (map (\<lambda>k. (k, the (ca_index c k))) keys) c) = ca_inner c \<and>
   (\<forall>k. cached_at (fold (forget_entry ss lba) (map (\<lambda>k. (k, the (ca_index c k))) keys) c) k =
     (if k \<in> set keys \<and> reaches ss lba k (cached_at c k) then None else cached_at c k))"
proof (induction keys arbitrary: c)
  case (Cons key keys)
  obtain slot where s: "ca_index c key = Some slot"
    using Cons.prems(3) by auto
  let ?c = "forget_entry ss lba (key, slot) c"
  note f = forget_entry_spec [OF Cons.prems(1) s, of ss lba]
  have ix: "\<forall>k\<in>set keys. ca_index ?c k = ca_index c k"
    using Cons.prems(2) by (auto simp: f(3))
  then have m: "map (\<lambda>k. (k, the (ca_index ?c k))) keys = map (\<lambda>k. (k, the (ca_index c k))) keys"
    by simp
  have "\<forall>k\<in>set keys. ca_index ?c k \<noteq> None"
    using ix Cons.prems(3) by simp
  note ih = Cons.IH [OF f(1) _ this, unfolded m]
  show ?case
    using ih Cons.prems(2) f(2,4) s by auto
qed simp

lemma forget_spec:
  assumes "cached_struct c"
  shows "cached_struct (forget ss lba count c)" and "ca_inner (forget ss lba count c) = ca_inner c"
    and "cached_at (forget ss lba count c) k =
      (if lba - sectors_of ss MAX_UNIT \<le> k \<and> k < saturating_add64 lba count \<and>
          reaches ss lba k (cached_at c k) then None else cached_at c k)"
proof -
  let ?ks = "filter (\<lambda>key. ca_index c key \<noteq> None)
    [lba - sectors_of ss MAX_UNIT..<saturating_add64 lba count]"
  have d: "distinct ?ks" and s: "\<forall>k\<in>set ?ks. ca_index c k \<noteq> None"
    by simp_all
  note ff = fold_forget [OF assms d s, of ss lba]
  have eq: "forget ss lba count c = fold (forget_entry ss lba) (map (\<lambda>k. (k, the (ca_index c k))) ?ks) c"
    by (simp only: forget_def Let_def)
  show "cached_struct (forget ss lba count c)" "ca_inner (forget ss lba count c) = ca_inner c"
    using ff by (simp_all only: eq)
  have "reaches ss lba k (cached_at c k) \<Longrightarrow> ca_index c k \<noteq> None"
    by (auto simp: reaches_def cached_at_def)
  then show "cached_at (forget ss lba count c) k =
      (if lba - sectors_of ss MAX_UNIT \<le> k \<and> k < saturating_add64 lba count \<and>
          reaches ss lba k (cached_at c k) then None else cached_at c k)"
    using ff unfolding eq by auto
qed

section \<open>The cache over any device\<close>

text \<open>Every cached unit is what the medium holds.\<close>

definition cached_true :: "('d \<Rightarrow> nat) \<Rightarrow> ('d \<Rightarrow> nat \<Rightarrow> u8) \<Rightarrow> 'd cached \<Rightarrow> bool" where
  "cached_true ss im c \<longleftrightarrow>
     (\<forall>k data. cached_at c k = Some data \<longrightarrow>
        length data \<le> MAX_UNIT \<and>
        k + sectors_of (ss (ca_inner c)) (length data) < 2 ^ 64 \<and>
        data = bytes_at (im (ca_inner c)) (k * ss (ca_inner c)) (length data))"

definition cached_good :: "('d \<Rightarrow> bool) \<Rightarrow> ('d \<Rightarrow> nat) \<Rightarrow> ('d \<Rightarrow> nat \<Rightarrow> u8) \<Rightarrow> 'd cached \<Rightarrow> bool" where
  "cached_good ok ss im c \<longleftrightarrow> ok (ca_inner c) \<and> cached_struct c \<and> cached_true ss im c"

lemma sectors_of_mono: "m \<le> n \<Longrightarrow> sectors_of ss m \<le> sectors_of ss n"
  by (simp add: sectors_of_def div_ceil_def div_le_mono)

lemma forget_clear:
  assumes "cached_struct c" and "cached_at (forget ss lba count c) k = Some data"
    and "length data \<le> MAX_UNIT" and "k + sectors_of ss (length data) < 2 ^ 64"
  shows "data = [] \<or> k + sectors_of ss (length data) \<le> lba \<or> lba + count \<le> k"
    and "cached_at c k = Some data"
proof -
  show at: "cached_at c k = Some data"
    using assms(2) unfolding forget_spec(3) [OF assms(1)] by (simp split: if_splits)
  have "\<not> (lba - sectors_of ss MAX_UNIT \<le> k \<and> k < saturating_add64 lba count \<and>
      lba < k + sectors_of ss (length data))"
    using assms(2) unfolding forget_spec(3) [OF assms(1)] at by (auto simp: reaches_def)
  then consider "k < lba - sectors_of ss MAX_UNIT" | "saturating_add64 lba count \<le> k"
    | "k + sectors_of ss (length data) \<le> lba"
    by linarith
  then show "data = [] \<or> k + sectors_of ss (length data) \<le> lba \<or> lba + count \<le> k"
  proof cases
    case 1
    then show ?thesis using sectors_of_mono [OF assms(3), of ss] by linarith
  next
    case 2
    then consider "lba + count \<le> k" | "2 ^ 64 - 1 \<le> k"
      by (auto simp: saturating_add64_def min_def split: if_splits)
    then show ?thesis
    proof cases
      case 2
      then have "sectors_of ss (length data) = 0"
        using assms(4) by simp
      then have "length data \<le> 0 * max ss 1"
        unfolding sectors_of_def using div_ceil_mult_ge [of "max ss 1" "length data"] by simp
      then show ?thesis by simp
    qed simp
  qed simp
qed

context block_device
begin

lemma hit_read:
  assumes "cached_good good sector image c" and "cached_hit lba n c = Some slot"
  shows "cached_at c lba = Some (en_data (ca_entries c ! slot))"
    and "en_data (ca_entries c ! slot) = bytes_at (image (ca_inner c)) (lba * sector (ca_inner c)) n"
    and "lba + sectors_of (sector (ca_inner c)) n < 2 ^ 64"
    and "slot < length (ca_entries c)"
proof -
  have h: "ca_index c lba = Some slot" "length (en_data (ca_entries c ! slot)) = n"
    using assms(2) by (auto simp: cached_hit_def split: option.splits if_splits)
  then show at: "cached_at c lba = Some (en_data (ca_entries c ! slot))"
    by (simp add: cached_at_def)
  show "en_data (ca_entries c ! slot) = bytes_at (image (ca_inner c)) (lba * sector (ca_inner c)) n"
    "lba + sectors_of (sector (ca_inner c)) n < 2 ^ 64"
    using assms(1) at h(2) by (auto simp: cached_good_def cached_true_def)
  show "slot < length (ca_entries c)"
    using assms(1) h(1) by (simp add: cached_good_def cached_struct_def)
qed

lemma mark_used:
  assumes "slot < length (ca_entries c)"
  shows "cached_struct (c\<lparr>ca_entries := (ca_entries c)[slot := (ca_entries c ! slot)\<lparr>en_used := True\<rparr>]\<rparr>)
      = cached_struct c"
    and "cached_at (c\<lparr>ca_entries := (ca_entries c)[slot := (ca_entries c ! slot)\<lparr>en_used := True\<rparr>]\<rparr>)
      = cached_at c"
proof -
  have e: "(ca_entries c)[slot := (ca_entries c ! slot)\<lparr>en_used := True\<rparr>] ! s =
      (if s = slot then (ca_entries c ! slot)\<lparr>en_used := True\<rparr> else ca_entries c ! s)" for s
    using assms by (simp add: nth_list_update)
  show "cached_struct (c\<lparr>ca_entries := (ca_entries c)[slot := (ca_entries c ! slot)\<lparr>en_used := True\<rparr>]\<rparr>)
      = cached_struct c"
    by (auto simp: cached_struct_def e split: if_splits)
  show "cached_at (c\<lparr>ca_entries := (ca_entries c)[slot := (ca_entries c ! slot)\<lparr>en_used := True\<rparr>]\<rparr>)
      = cached_at c"
    unfolding cached_at_def by (rule ext, rule option.map_cong) (simp_all add: e)
qed

lemma cached_inner:
  "cached_struct (c\<lparr>ca_inner := d\<rparr>) = cached_struct c" "cached_at (c\<lparr>ca_inner := d\<rparr>) = cached_at c"
  by (simp_all add: cached_struct_def cached_at_def fun_eq_iff)

lemma cached_good_inner:
  assumes "cached_good good sector image c" and "good d" and "sector d = sector (ca_inner c)"
    and "image d = image (ca_inner c)"
  shows "cached_good good sector image (c\<lparr>ca_inner := d\<rparr>)"
  using assms by (simp add: cached_good_def cached_true_def cached_inner)

lemma cached_good_forget:
  assumes "cached_good good sector image c"
  shows "cached_good good sector image (forget ss lba count c)"
  using assms forget_spec [of c ss lba count]
  by (auto simp: cached_good_def cached_true_def split: if_splits)

lemma cached_good_remember:
  assumes "cached_good good sector image c" and "length data \<le> MAX_UNIT"
    and "lba + sectors_of (sector (ca_inner c)) (length data) < 2 ^ 64"
    and "data = bytes_at (image (ca_inner c)) (lba * sector (ca_inner c)) (length data)"
  shows "cached_good good sector image (remember lba data c)"
  using assms remember_spec [of c lba data] unfolding cached_good_def cached_true_def by auto

lemma cached_read_spec:
  assumes "cached_good good sector image c" and "cached_read dev_read sector lba n c = (r, c')"
  shows "cached_good good sector image c' \<and> sector (ca_inner c') = sector (ca_inner c) \<and>
    image (ca_inner c') = image (ca_inner c) \<and>
    (\<forall>bs. r = Inr bs \<longrightarrow> bs = bytes_at (image (ca_inner c)) (lba * sector (ca_inner c)) n \<and>
      lba + sectors_of (sector (ca_inner c)) n < 2 ^ 64)"
proof -
  have g: "good (ca_inner c)"
    using assms(1) by (simp add: cached_good_def)
  obtain q d where rd: "dev_read lba n (ca_inner c) = (q, d)" by fastforce
  note keeps = read_keeps [OF g rd]
  note ok = read_ok [OF g, of lba n _ d]
  have gd: "cached_good good sector image (c\<lparr>ca_inner := d\<rparr>)"
    using cached_good_inner [OF assms(1)] keeps by blast
  show ?thesis
  proof (cases "MAX_UNIT < n")
    case True
    then have "r = q" "c' = c\<lparr>ca_inner := d\<rparr>"
      using assms(2) rd by (simp_all add: cached_read_def)
    then show ?thesis using gd keeps ok rd by auto
  next
    case small: False
    show ?thesis
    proof (cases "cached_hit lba n c")
      case (Some slot)
      note h = hit_read [OF assms(1) Some]
      have "r = Inr (en_data (ca_entries c ! slot))"
        "c' = c\<lparr>ca_entries := (ca_entries c)[slot := (ca_entries c ! slot)\<lparr>en_used := True\<rparr>]\<rparr>"
        using assms(2) small Some by (auto simp: cached_read_def)
      then show ?thesis
        using assms(1) h(2,3) mark_used [OF h(4)] by (simp add: cached_good_def cached_true_def)
    next
      case None
      show ?thesis
      proof (cases q)
        case (Inl e)
        then show ?thesis
          using assms(2) small None rd gd keeps by (auto simp: cached_read_def Let_def)
      next
        case (Inr buf)
        define f where "f = (if ca_index c lba \<noteq> None
          then forget (sector d) lba (sectors_of (sector d) n) (c\<lparr>ca_inner := d\<rparr>) else c\<lparr>ca_inner := d\<rparr>)"
        have "r = Inr buf" and c': "c' = remember lba buf f"
          using assms(2) small None rd Inr by (simp_all add: cached_read_def Let_def f_def)
        have f: "cached_good good sector image f"
          using gd cached_good_forget by (simp add: f_def)
        then have "cached_struct f" by (simp add: cached_good_def)
        then have "ca_inner c' = ca_inner f"
          by (simp only: c' remember_spec(2))
        moreover have "ca_inner f = d"
          using gd forget_spec(2) [of "c\<lparr>ca_inner := d\<rparr>"] by (simp add: cached_good_def f_def)
        ultimately have inner: "ca_inner c' = d" "ca_inner f = d" by simp_all
        have b: "buf = bytes_at (image (ca_inner c)) (lba * sector (ca_inner c)) n"
          "lba + sectors_of (sector (ca_inner c)) n < 2 ^ 64"
          using ok rd Inr by auto
        then have len: "length buf = n" by simp
        have "cached_good good sector image c'"
          unfolding c' using small b keeps
          by (intro cached_good_remember f) (simp_all add: inner(2) len)
        then show ?thesis
          using b keeps inner(1) \<open>r = Inr buf\<close> by simp
      qed
    qed
  qed
qed

lemma cached_write_spec:
  assumes "cached_good good sector image c" and "cached_write dev_write sector lba bs c = (w, c')"
  shows "cached_good good sector image c' \<and> sector (ca_inner c') = sector (ca_inner c) \<and>
    dev_write lba bs (ca_inner c) = (w, ca_inner c')"
proof -
  let ?ss = "sector (ca_inner c)"
  let ?f = "forget ?ss lba (sectors_of ?ss (length bs)) c"
  have g: "good (ca_inner c)" and st: "cached_struct c"
    using assms(1) by (simp_all add: cached_good_def)
  have fi: "ca_inner ?f = ca_inner c"
    by (rule forget_spec(2) [OF st])
  obtain d where wd: "dev_write lba bs (ca_inner c) = (w, d)" and c': "c' = ?f\<lparr>ca_inner := d\<rparr>"
    using assms(2) by (auto simp: cached_write_def Let_def fi split: prod.splits)
  note keeps = write_keeps [OF g wd]
  have gf: "cached_good good sector image ?f"
    by (rule cached_good_forget [OF assms(1)])
  have "cached_true sector image c'"
    unfolding cached_true_def
  proof (intro allI impI)
    fix k data
    assume "cached_at c' k = Some data"
    then have at: "cached_at ?f k = Some data"
      by (simp add: c' cached_inner)
    then have t: "length data \<le> MAX_UNIT" "k + sectors_of ?ss (length data) < 2 ^ 64"
      "data = bytes_at (image (ca_inner c)) (k * ?ss) (length data)"
      using gf fi by (simp_all add: cached_good_def cached_true_def)
    have ss: "0 < ?ss" by (rule sector_pos [OF g])
    have "image d a = image (ca_inner c) a" if a: "k * ?ss \<le> a" "a < k * ?ss + length data" for a
    proof -
      from forget_clear(1) [OF st at t(1,2)] a
      consider "k + sectors_of ?ss (length data) \<le> lba" | "lba + sectors_of ?ss (length bs) \<le> k"
        by fastforce
      then show ?thesis
      proof cases
        case 1
        have "a < (k + sectors_of ?ss (length data)) * ?ss"
          using a(2) div_ceil_mult_ge [OF ss, of "length data"] ss
          by (simp add: sectors_of_def add_mult_distrib max_absorb1)
        also have "\<dots> \<le> lba * ?ss"
          using 1 by simp
        finally show ?thesis using keeps by simp
      next
        case 2
        have "(lba + sectors_of ?ss (length bs)) * ?ss \<le> a"
          using mult_le_mono1 [OF 2, of ?ss] a(1) by (rule le_trans)
        then show ?thesis using keeps by blast
      qed
    qed
    then show "length data \<le> MAX_UNIT \<and>
        k + sectors_of (sector (ca_inner c')) (length data) < 2 ^ 64 \<and>
        data = bytes_at (image (ca_inner c')) (k * sector (ca_inner c')) (length data)"
      using t keeps bytes_at_cong [of "k * ?ss" "length data" "image d" "image (ca_inner c)"]
      by (simp add: c')
  qed
  then show ?thesis
    using gf wd keeps by (simp add: c' cached_good_def cached_inner)
qed

lemma cached_device:
  "block_device (cached_read dev_read sector) (cached_write dev_write sector)
     (\<lambda>c. sector (ca_inner c)) (\<lambda>c. image (ca_inner c)) (cached_good good sector image)"
proof (unfold_locales, goal_cases)
  case (1 d)
  then show ?case by (simp add: cached_good_def sector_pos)
next
  case (2 d lba n r d')
  then show ?case using cached_read_spec by blast
next
  case (3 d lba n bs d')
  then show ?case using cached_read_spec by blast
next
  case (4 d lba bs w d')
  then show ?case
    using cached_write_spec [OF 4] write_keeps [of "ca_inner d" lba bs w "ca_inner d'"]
    by (simp add: cached_good_def)
next
  case (5 d lba bs d')
  then show ?case
    using cached_write_spec [OF 5] write_ok [of "ca_inner d" lba bs "ca_inner d'"]
    by (simp add: cached_good_def)
qed

lemma cached_new_good: "good d \<Longrightarrow> cached_good good sector image (cached_new room d)"
  by (simp add: cached_good_def cached_new_def cached_struct_def cached_true_def cached_at_def
      CACHE_CAPACITY_def)

end

section \<open>Transparency\<close>

text \<open>A sequence of requests to a device, and what came back for each.\<close>

datatype dev_op = DevRead nat nat | DevWrite nat "u8 list"

datatype 'e dev_result = GotData "'e + u8 list" | Wrote "'e option"

fun run_dev ::
  "(nat \<Rightarrow> nat \<Rightarrow> 'd \<Rightarrow> ('e + u8 list) \<times> 'd) \<Rightarrow> (nat \<Rightarrow> u8 list \<Rightarrow> 'd \<Rightarrow> 'e option \<times> 'd) \<Rightarrow>
     dev_op list \<Rightarrow> 'd \<Rightarrow> 'e dev_result list \<times> 'd" where
  "run_dev rd wr [] d = ([], d)"
| "run_dev rd wr (DevRead lba n # ops) d =
     (let (r, d) = rd lba n d; (rs, d) = run_dev rd wr ops d in (GotData r # rs, d))"
| "run_dev rd wr (DevWrite lba bs # ops) d =
     (let (w, d) = wr lba bs d; (rs, d) = run_dev rd wr ops d in (Wrote w # rs, d))"

context quiet_device
begin

text \<open>What is cached could still be read from the device.\<close>

definition readable :: "'a cached \<Rightarrow> bool" where
  "readable c \<longleftrightarrow> (\<forall>k data. cached_at c k = Some data \<longrightarrow>
     (\<exists>d. dev_read k (length data) (ca_inner c) = (Inr data, d)))"

lemma quiet_read:
  assumes "cached_good good sector image c" and "readable c"
    and "cached_read dev_read sector lba n c = (r, c')"
  shows "dev_read lba n (ca_inner c) = (r, ca_inner c)" and "ca_inner c' = ca_inner c"
    and "readable c'"
proof -
  have g: "good (ca_inner c)" and st: "cached_struct c"
    using assms(1) by (simp_all add: cached_good_def)
  obtain q where rd: "dev_read lba n (ca_inner c) = (q, ca_inner c)"
    using read_pure [OF g, of lba n] by (cases "dev_read lba n (ca_inner c)") auto
  have same: "c\<lparr>ca_inner := ca_inner c\<rparr> = c" by simp
  have "dev_read lba n (ca_inner c) = (r, ca_inner c) \<and> ca_inner c' = ca_inner c \<and> readable c'"
  proof (cases "MAX_UNIT < n")
    case True
    then show ?thesis using assms rd by (simp add: cached_read_def)
  next
    case small: False
    show ?thesis
    proof (cases "cached_hit lba n c")
      case (Some slot)
      note h = hit_read [OF assms(1) Some]
      have r: "r = Inr (en_data (ca_entries c ! slot))"
        "c' = c\<lparr>ca_entries := (ca_entries c)[slot := (ca_entries c ! slot)\<lparr>en_used := True\<rparr>]\<rparr>"
        using assms(3) small Some by (auto simp: cached_read_def)
      have "length (en_data (ca_entries c ! slot)) = n"
        using h(2) by simp
      moreover obtain d where
        "dev_read lba (length (en_data (ca_entries c ! slot))) (ca_inner c) = (Inr (en_data (ca_entries c ! slot)), d)"
        using assms(2) h(1) unfolding readable_def by blast
      ultimately have "q = r"
        using rd r(1) by simp
      then show ?thesis
        using assms(2) mark_used [OF h(4)] rd by (simp add: r(2) readable_def)
    next
      case None
      show ?thesis
      proof (cases q)
        case (Inl e)
        then show ?thesis
          using assms small None rd by (simp add: cached_read_def Let_def)
      next
        case (Inr buf)
        define f where "f = (if ca_index c lba \<noteq> None
          then forget (sector (ca_inner c)) lba (sectors_of (sector (ca_inner c)) n) c else c)"
        have r: "r = Inr buf" and c': "c' = remember lba buf f"
          using assms(3) small None rd Inr
          by (cases "ca_index c lba"; simp add: cached_read_def Let_def f_def)+
        have f: "cached_struct f" "ca_inner f = ca_inner c"
          "\<And>k data. cached_at f k = Some data \<Longrightarrow> cached_at c k = Some data"
          using forget_spec [OF st] st by (auto simp: f_def split: if_splits)
        note rem = remember_spec [OF f(1), of lba buf]
        have "length buf = n"
          using read_ok [OF g rd [unfolded Inr]] by simp
        then have "readable c'"
          using assms(2) rem(2,3) f(2,3) rd Inr unfolding readable_def c' by metis
        then show ?thesis
          using rd r Inr rem(2) f(2) by (simp add: c')
      qed
    qed
  qed
  then show "dev_read lba n (ca_inner c) = (r, ca_inner c)" "ca_inner c' = ca_inner c" "readable c'"
    by simp_all
qed

lemma quiet_write:
  assumes "cached_good good sector image c" and "readable c"
    and "cached_write dev_write sector lba bs c = (w, c')"
  shows "readable c'"
proof -
  have g: "good (ca_inner c)" and st: "cached_struct c"
    using assms(1) by (simp_all add: cached_good_def)
  note spec = cached_write_spec [OF assms(1,3)]
  show ?thesis
    unfolding readable_def
  proof (intro allI impI)
    fix k data
    assume at: "cached_at c' k = Some data"
    then have "cached_at c k = Some data"
      using assms(3) forget_spec [OF st]
      by (auto simp: cached_write_def Let_def cached_inner split: prod.splits if_splits)
    then obtain d where "dev_read k (length data) (ca_inner c) = (Inr data, d)"
      using assms(2) by (auto simp: readable_def)
    then obtain data' d' where rd: "dev_read k (length data) (ca_inner c') = (Inr data', d')"
      using read_stable [OF g] spec by blast
    have "good (ca_inner c')" and "data = bytes_at (image (ca_inner c')) (k * sector (ca_inner c')) (length data)"
      using spec at by (auto simp: cached_good_def cached_true_def)
    then have "data' = data"
      using read_ok rd by metis
    then show "\<exists>d. dev_read k (length data) (ca_inner c') = (Inr data, d)"
      using rd by blast
  qed
qed

lemma cached_run:
  "cached_good good sector image c \<Longrightarrow> readable c \<Longrightarrow>
   fst (run_dev (cached_read dev_read sector) (cached_write dev_write sector) ops c) =
     fst (run_dev dev_read dev_write ops (ca_inner c)) \<and>
   ca_inner (snd (run_dev (cached_read dev_read sector) (cached_write dev_write sector) ops c)) =
     snd (run_dev dev_read dev_write ops (ca_inner c))"
proof (induction ops arbitrary: c)
  case (Cons op ops)
  show ?case
  proof (cases op)
    case (DevRead lba n)
    obtain r c1 where rd: "cached_read dev_read sector lba n c = (r, c1)" by fastforce
    note q = quiet_read [OF Cons.prems rd]
    have "cached_good good sector image c1"
      using cached_read_spec [OF Cons.prems(1) rd] by simp
    from Cons.IH [OF this q(3)] show ?thesis
      by (simp add: DevRead rd q(1,2) split_beta Let_def)
  next
    case (DevWrite lba bs)
    obtain w c1 where wr: "cached_write dev_write sector lba bs c = (w, c1)" by fastforce
    have g: "cached_good good sector image c1" and i: "dev_write lba bs (ca_inner c) = (w, ca_inner c1)"
      using cached_write_spec [OF Cons.prems(1) wr] by simp_all
    from Cons.IH [OF g quiet_write [OF Cons.prems wr]] show ?thesis
      by (simp add: DevWrite wr i split_beta Let_def)
  qed
qed simp

end

lemma mem_device: "block_device mem_read mem_write md_sector mem_image mem_good"
proof (unfold_locales, goal_cases)
  case (3 d lba n bs d')
  then have "0 < md_sector d" and r: "0 < n" "lba * md_sector d + n < 2 ^ 64"
      "bs = bytes_at (mem_image d) (lba * md_sector d) n"
    by (simp_all add: mem_good_def mem_read_Inr)
  then have "sectors_of (md_sector d) n \<le> n" "lba * 1 \<le> lba * md_sector d"
    by (simp add: sectors_of_def div_ceil_le_iff, intro mult_le_mono2, simp)
  then show ?case using r(2,3) by linarith
next
  case (4 d lba bs w d')
  then have ss: "0 < md_sector d" by (simp add: mem_good_def)
  have "overlay (mem_image d) (lba * md_sector d) bs a = mem_image d a"
    if "a < lba * md_sector d \<or> (lba + sectors_of (md_sector d) (length bs)) * md_sector d \<le> a" for a
    using that sectors_of_ge [OF ss, of "length bs"]
    by (intro overlay_outside) (auto simp: add_mult_distrib)
  then show ?case
    using mem_write_spec [OF 4(2)] 4(1) by (simp add: mem_good_def)
qed (auto simp: mem_good_def mem_read_cases dest: mem_write_spec)

interpretation mem: quiet_device mem_read mem_write md_sector mem_image mem_good
proof (intro quiet_device.intro mem_device quiet_device_axioms.intro)
  show "snd (mem_read lba n d) = d" if "mem_good d" for d lba n
    by (simp add: mem_read_def split: sum.split prod.split)
  show "\<exists>bs'' d''. mem_read lba n d' = (Inr bs'', d'')"
    if "mem_good d" "mem_read lba n d = (Inr bs, d1)" "mem_write lba' bs' d = (w, d')"
    for d lba n bs d1 lba' bs' w d'
    using that(2) mem_write_spec [OF that(3)] by (auto simp: mem_read_Inr)
qed

interpretation cached_mem: block_device "cached_read mem_read md_sector" "cached_write mem_write md_sector"
  "\<lambda>c. md_sector (ca_inner c)" "\<lambda>c. mem_image (ca_inner c)" "cached_good mem_good md_sector mem_image"
  by (rule mem.cached_device)

text \<open>
  C19.  The read cache is transparent: over any sequence of reads and writes, of any lengths
  and wherever they overlap, a cached disk gives exactly the results the disk alone gives,
  errors included, and leaves the same disk behind, whatever the eviction does.
\<close>

theorem cache_transparent:
  assumes "mem_from_vec data sector_size = Some d"
  shows "fst (run_dev (cached_read mem_read md_sector) (cached_write mem_write md_sector) ops
           (cached_new room d)) = fst (run_dev mem_read mem_write ops d) \<and>
         ca_inner (snd (run_dev (cached_read mem_read md_sector) (cached_write mem_write md_sector) ops
           (cached_new room d))) = snd (run_dev mem_read mem_write ops d)"
proof -
  have "mem_good d"
    using assms by (auto simp: mem_from_vec_def mem_good_def sector_size_supported_def split: if_splits)
  then have "cached_good mem_good md_sector mem_image (cached_new room d)"
    by (rule mem.cached_new_good)
  moreover have "mem.readable (cached_new room d)"
    by (simp add: mem.readable_def cached_new_def cached_at_def)
  ultimately show ?thesis
    using mem.cached_run [of "cached_new room d" ops] by (simp add: cached_new_def)
qed

text \<open>A disk of two sectors.\<close>

definition two_sectors :: mem_disk where
  "two_sectors = \<lparr>md_data = replicate 1024 7, md_sector = 512\<rparr>"

lemma two_sectors: "mem_from_vec (replicate 1024 7) 512 = Some two_sectors"
proof -
  have "(512 :: nat) \<in> set (map (\<lambda>k. 2 ^ k) [0..<32 :: nat])"
    unfolding set_map by (rule image_eqI [of _ _ 9]) simp_all
  then show ?thesis
    by (simp add: mem_from_vec_def two_sectors_def sector_size_supported_def MAX_SECTOR_SIZE_def)
qed

theorem cache_transparent_witness:
  "fst (run_dev (cached_read mem_read md_sector) (cached_write mem_write md_sector)
      [DevRead 0 512, DevWrite 0 (replicate 512 1), DevRead 0 512, DevRead 9 512] (cached_new 8 two_sectors)) =
   fst (run_dev mem_read mem_write
      [DevRead 0 512, DevWrite 0 (replicate 512 1), DevRead 0 512, DevRead 9 512] two_sectors)"
  using cache_transparent [OF two_sectors] by blast

lemma counted_device:
  "block_device (counted_read mem_read) (counted_write mem_write) (\<lambda>c. md_sector (co_inner c))
     (\<lambda>c. mem_image (co_inner c)) (\<lambda>c. mem_good (co_inner c))"
proof (unfold_locales, goal_cases)
  case (1 d)
  then show ?case by (rule mem.sector_pos)
next
  case (2 d lba n r d')
  then show ?case
    using mem.read_keeps [of "co_inner d" lba n] by (auto simp: counted_read_def Let_def split: prod.splits)
next
  case (3 d lba n bs d')
  then show ?case
    using mem.read_ok [of "co_inner d" lba n] by (auto simp: counted_read_def Let_def split: prod.splits)
next
  case (4 d lba bs w d')
  then show ?case
    using mem.write_keeps [of "co_inner d" lba bs] by (auto simp: counted_write_def Let_def split: prod.splits)
next
  case (5 d lba bs d')
  then show ?case
    using mem.write_ok [of "co_inner d" lba bs] by (auto simp: counted_write_def Let_def split: prod.splits)
qed

interpretation counted_mem: block_device "counted_read mem_read" "counted_write mem_write"
  "\<lambda>c. md_sector (co_inner c)" "\<lambda>c. mem_image (co_inner c)" "\<lambda>c. mem_good (co_inner c)"
  by (rule counted_device)

abbreviation disk_cache_ok :: "mem_disk counted cached \<Rightarrow> bool" where
  "disk_cache_ok \<equiv> cached_good (\<lambda>c. mem_good (co_inner c)) (\<lambda>c. md_sector (co_inner c))
     (\<lambda>c. mem_image (co_inner c))"

lemma remember_hit:
  assumes "cached_struct c" and "CACHE_CAPACITY \<le> ca_room c"
  shows "\<exists>slot. cached_hit lba (length data) (remember lba data c) = Some slot"
proof (cases "length (ca_entries c) < CACHE_CAPACITY")
  case True
  then show ?thesis
    using assms by (simp add: remember_def cached_hit_def)
next
  case False
  obtain es slot h where k: "clock (ca_entries c) (ca_hand c) = (es, slot, h)"
    using prod_cases3 by blast
  have "ca_hand c < length (ca_entries c)"
    using assms False by (simp add: cached_struct_def)
  then show ?thesis
    using clock_spec [OF k] False k by (simp add: remember_def Let_def cached_hit_def)
qed

lemma counted_read_twice:
  assumes "disk_cache_ok c" and "CACHE_CAPACITY \<le> ca_room c" and "n \<le> MAX_UNIT"
    and "cached_read (counted_read mem_read) (\<lambda>c. md_sector (co_inner c)) lba n c = (Inr bs, c1)"
  shows "\<exists>slot. cached_hit lba n c1 = Some slot"
proof (cases "cached_hit lba n c")
  case (Some slot)
  note h = counted_mem.hit_read [OF assms(1) Some]
  have "c1 = c\<lparr>ca_entries := (ca_entries c)[slot := (ca_entries c ! slot)\<lparr>en_used := True\<rparr>]\<rparr>"
    using assms(3,4) Some by (simp add: cached_read_def)
  then show ?thesis
    using Some h(4) by (auto simp: cached_hit_def split: option.splits if_splits)
next
  case None
  let ?ss = "\<lambda>c. md_sector (co_inner c)"
  obtain d where d: "counted_read mem_read lba n (ca_inner c) = (Inr bs, d)"
    and c1: "c1 = remember lba bs (if ca_index c lba \<noteq> None
      then forget (?ss d) lba (sectors_of (?ss d) n) (c\<lparr>ca_inner := d\<rparr>) else c\<lparr>ca_inner := d\<rparr>)"
    using assms(3,4) None by (auto simp: cached_read_def Let_def split: prod.splits sum.splits)
  have st: "cached_struct (c\<lparr>ca_inner := d\<rparr>)"
    using assms(1) by (simp add: cached_good_def counted_mem.cached_inner)
  have room: "ca_room (forget ss lba k e) = ca_room e" for ss k and e :: "mem_disk counted cached"
  proof -
    have "ca_room (fold (forget_entry ss lba) xs e) = ca_room e" for xs
      by (induction xs arbitrary: e) (auto simp: forget_entry_def Let_def)
    then show ?thesis by (simp add: forget_def Let_def)
  qed
  have "length bs = n"
    using counted_mem.read_ok [OF _ d] assms(1) by (auto simp: cached_good_def)
  then show ?thesis
    using remember_hit [of "if ca_index c lba \<noteq> None
        then forget (?ss d) lba (sectors_of (?ss d) n) (c\<lparr>ca_inner := d\<rparr>) else c\<lparr>ca_inner := d\<rparr>" lba bs]
      st forget_spec(1) [OF st] assms(2) room
    by (simp add: c1)
qed

text \<open>
  C20.  What is cached costs no request: after a read of at most a unit has succeeded through
  the cache, the same read gives the same bytes again and never asks the device, however full
  the cache is, as long as there was memory for an entry.
\<close>

theorem cache_hit_no_request:
  assumes "disk_cache_ok c" and "CACHE_CAPACITY \<le> ca_room c" and "n \<le> MAX_UNIT"
    and "cached_read (counted_read mem_read) (\<lambda>c. md_sector (co_inner c)) lba n c = (Inr bs, c1)"
  shows "case cached_read (counted_read mem_read) (\<lambda>c. md_sector (co_inner c)) lba n c1 of
      (r, c2) \<Rightarrow> r = Inr bs \<and> co_requests (ca_inner c2) = co_requests (ca_inner c1)"
proof -
  obtain slot where hit: "cached_hit lba n c1 = Some slot"
    using counted_read_twice [OF assms] by blast
  note spec = counted_mem.cached_read_spec [OF assms(1,4)]
  have "disk_cache_ok c1" using spec by simp
  note h = counted_mem.hit_read [OF this hit]
  show ?thesis
    using assms(3) spec h(2) hit by (simp add: cached_read_def)
qed

theorem cache_hit_no_request_witness:
  "\<exists>bs c1. cached_read (counted_read mem_read) (\<lambda>c. md_sector (co_inner c)) 1 512
       (cached_new 1024 \<lparr>co_inner = two_sectors, co_requests = 0\<rparr>) = (Inr bs, c1) \<and>
     (case cached_read (counted_read mem_read) (\<lambda>c. md_sector (co_inner c)) 1 512 c1 of
      (r, c2) \<Rightarrow> r = Inr bs \<and> co_requests (ca_inner c2) = co_requests (ca_inner c1))"
proof -
  let ?c = "cached_new 1024 \<lparr>co_inner = two_sectors, co_requests = 0\<rparr>"
  have ok: "disk_cache_ok ?c"
    by (rule counted_mem.cached_new_good) (simp add: mem_good_def two_sectors_def)
  have "mem_read 1 512 two_sectors = (Inr (bytes_at (mem_image two_sectors) 512 512), two_sectors)"
    by (simp add: mem_read_Inr two_sectors_def)
  then obtain bs c1 where r: "cached_read (counted_read mem_read) (\<lambda>c. md_sector (co_inner c)) 1 512 ?c = (Inr bs, c1)"
    by (simp add: cached_read_def MAX_UNIT_def cached_hit_def cached_new_def counted_read_def Let_def)
  show ?thesis
    using cache_hit_no_request [OF ok _ _ r] r by (auto simp: cached_new_def CACHE_CAPACITY_def MAX_UNIT_def)
qed

end
