(* ===== verification/Wire.thy ===== *)
theory Wire
  imports Text Interfaces
begin

text \<open>
  The wire formats of the network stack (\<^verbatim>\<open>crates/kernel/src/net/{ipv4,eth,arp,icmp,udp,tcp}.rs\<close>):
  addresses, the Internet checksum, and what each protocol writes and parses; and the table of
  neighbours of ARP.  A buffer is the list of its bytes, and a writer returns it changed.
\<close>

section \<open>Addresses\<close>

type_synonym ipv4 = u32

definition IP_UNSPECIFIED :: ipv4 where
  "IP_UNSPECIFIED = 0"

definition IP_BROADCAST :: ipv4 where
  "IP_BROADCAST = 0xFFFFFFFF"

definition ip_from_bytes :: "u8 list \<Rightarrow> ipv4" where
  "ip_from_bytes b = of_be32 (b ! 0) (b ! 1) (b ! 2) (b ! 3)"

definition ip_to_bytes :: "ipv4 \<Rightarrow> u8 list" where
  "ip_to_bytes a = be32 a"

definition is_unspecified :: "ipv4 \<Rightarrow> bool" where
  "is_unspecified a \<longleftrightarrow> a = 0"

definition is_broadcast :: "ipv4 \<Rightarrow> bool" where
  "is_broadcast a \<longleftrightarrow> a = IP_BROADCAST"

definition same_network :: "ipv4 \<Rightarrow> ipv4 \<Rightarrow> ipv4 \<Rightarrow> bool" where
  "same_network a b netmask \<longleftrightarrow> a AND netmask = b AND netmask"

definition network_broadcast :: "ipv4 \<Rightarrow> ipv4 \<Rightarrow> ipv4" where
  "network_broadcast a netmask = (a AND netmask) OR NOT netmask"

text \<open>The loop of \<^verbatim>\<open>Ipv4::parse\<close> over the parts between the dots.\<close>

fun ip_parts :: "nat \<Rightarrow> string list \<Rightarrow> u8 list \<Rightarrow> u8 list option" where
  "ip_parts index [] bytes = (if index = 4 then Some bytes else None)"
| "ip_parts index (part # parts) bytes =
     (if 4 \<le> index \<or> part = [] then None
      else case parse_uint 256 10 part of
        None \<Rightarrow> None
      | Some v \<Rightarrow> ip_parts (index + 1) parts (bytes[index := of_nat v]))"

definition ip_parse :: "string \<Rightarrow> ipv4 option" where
  "ip_parse txt = map_option ip_from_bytes (ip_parts 0 (split_on (CHR ''.'') txt) [0, 0, 0, 0])"

definition ip_display :: "ipv4 \<Rightarrow> string" where
  "ip_display a =
     (case map (\<lambda>b. decimal_loop (unat b) []) (ip_to_bytes a) of
        [b0, b1, b2, b3] \<Rightarrow> b0 @ ''.'' @ b1 @ ''.'' @ b2 @ ''.'' @ b3
      | _ \<Rightarrow> [])"

definition ip_from_prefix :: "nat \<Rightarrow> ipv4 option" where
  "ip_from_prefix bits =
     (if bits = 0 then Some 0
      else if bits \<le> 32 then Some (push_bit (32 - bits) 0xFFFFFFFF)
      else None)"

text \<open>\<^verbatim>\<open>leading_ones\<close>, and \<^verbatim>\<open>u32::<<\<close>.\<close>

definition leading_ones :: "u32 \<Rightarrow> nat" where
  "leading_ones a = length (takeWhile (\<lambda>i. bit a (31 - i)) [0..<32])"

definition ip_prefix :: "ipv4 \<Rightarrow> nat option" where
  "ip_prefix a =
     (let ones = leading_ones a in if ones = 32 \<or> push_bit ones a = 0 then Some ones else None)"

section \<open>The Internet checksum\<close>

text \<open>The sum is a \<open>nat\<close>; the code's \<^verbatim>\<open>u32\<close> holds it for everything up to 128 KiB
  (\<open>checksum_fits\<close>).\<close>

fun sum_bytes :: "nat \<Rightarrow> u8 list \<Rightarrow> nat \<times> u8 option" where
  "sum_bytes s (high # low # bytes) = sum_bytes (s + unat (of_be16 high low)) bytes"
| "sum_bytes s [high] = (s, Some high)"
| "sum_bytes s [] = (s, None)"

definition sum_part :: "u8 list \<Rightarrow> nat \<times> u8 option \<Rightarrow> nat \<times> u8 option" where
  "sum_part part acc =
     (case acc of
        (s, None) \<Rightarrow> sum_bytes s part
      | (s, Some high) \<Rightarrow>
          (case part of
             low # bytes \<Rightarrow> sum_bytes (s + unat (of_be16 high low)) bytes
           | [] \<Rightarrow> (s, Some high)))"

definition sum_parts :: "u8 list list \<Rightarrow> nat" where
  "sum_parts parts =
     (case fold sum_part parts (0, None) of
        (s, Some high) \<Rightarrow> s + unat (of_be16 high 0)
      | (s, None) \<Rightarrow> s)"

function fold_carry :: "nat \<Rightarrow> nat" where
  "fold_carry s = (if s div 65536 \<noteq> 0 then fold_carry (s mod 65536 + s div 65536) else s)"
  by pat_completeness auto
termination
proof (relation "measure id", goal_cases)
  case (2 s)
  define q r where "q = s div 65536" and "r = s mod 65536"
  have "s = q * 65536 + r" "0 < q"
    using 2 by (simp_all add: q_def r_def)
  then have "r + q < s" by simp
  then show ?case by (simp add: q_def r_def)
qed simp

declare fold_carry.simps [simp del]

definition checksum :: "u8 list list \<Rightarrow> u16" where
  "checksum parts = NOT (of_nat (fold_carry (sum_parts parts)))"

section \<open>IPv4\<close>

definition IP_HEADER :: nat where
  "IP_HEADER = 20"

definition PROTOCOL_ICMP :: u8 where "PROTOCOL_ICMP = 1"
definition PROTOCOL_UDP :: u8 where "PROTOCOL_UDP = 17"
definition PROTOCOL_TCP :: u8 where "PROTOCOL_TCP = 6"
definition TTL :: u8 where "TTL = 64"

record ip_packet =
  ip_source :: ipv4
  ip_destination :: ipv4
  ip_protocol :: u8
  ip_payload :: "u8 list"

definition ipv4_parse :: "u8 list \<Rightarrow> ip_packet option" where
  "ipv4_parse datagram =
     (if length datagram < IP_HEADER then None
      else
        let version = drop_bit 4 (datagram ! 0);
            header_len = unat (datagram ! 0 AND 0x0F) * 4
        in if version \<noteq> 4 \<or> header_len < IP_HEADER \<or> length datagram < header_len then None
        else
          let all = unat (of_be16 (datagram ! 2) (datagram ! 3)) in
          if all < header_len \<or> length datagram < all then None
          else
            let flags_and_offset = of_be16 (datagram ! 6) (datagram ! 7) in
            if flags_and_offset AND 0x2000 \<noteq> 0 \<or> flags_and_offset AND 0x1FFF \<noteq> 0 then None
            else if checksum [take header_len datagram] \<noteq> 0 then None
            else Some \<lparr>ip_source = ip_from_bytes (subrange 12 16 datagram),
                       ip_destination = ip_from_bytes (subrange 16 20 datagram),
                       ip_protocol = datagram ! 9,
                       ip_payload = subrange header_len all datagram\<rparr>)"

definition ipv4_write_header ::
  "u8 list \<Rightarrow> ipv4 \<Rightarrow> ipv4 \<Rightarrow> u8 \<Rightarrow> nat \<Rightarrow> u16 \<Rightarrow> u8 list" where
  "ipv4_write_header buffer source destination protocol payload_len ident =
     (let buffer = buffer[0 := 0x45, 1 := 0];
          buffer = blit 2 (be16 (of_nat (IP_HEADER + payload_len))) buffer;
          buffer = blit 4 (be16 ident) buffer;
          buffer = blit 6 (be16 0x4000) buffer;
          buffer = buffer[8 := TTL, 9 := protocol];
          buffer = blit 10 [0, 0] buffer;
          buffer = blit 12 (ip_to_bytes source) buffer;
          buffer = blit 16 (ip_to_bytes destination) buffer;
          check = checksum [take IP_HEADER buffer]
      in blit 10 (be16 check) buffer)"

section \<open>Ethernet\<close>

type_synonym mac = "u8 list"

definition MAC_BROADCAST :: mac where
  "MAC_BROADCAST = replicate 6 0xFF"

definition ETH_HEADER :: nat where
  "ETH_HEADER = 14"

definition TYPE_IPV4 :: u16 where "TYPE_IPV4 = 0x0800"
definition TYPE_ARP :: u16 where "TYPE_ARP = 0x0806"

record eth_frame =
  eth_destination :: mac
  eth_kind :: u16
  eth_payload :: "u8 list"

definition eth_parse :: "u8 list \<Rightarrow> eth_frame option" where
  "eth_parse frame =
     (if length frame < ETH_HEADER then None
      else Some \<lparr>eth_destination = take 6 frame, eth_kind = of_be16 (frame ! 12) (frame ! 13),
                 eth_payload = drop ETH_HEADER frame\<rparr>)"

definition eth_write_header :: "u8 list \<Rightarrow> mac \<Rightarrow> mac \<Rightarrow> u16 \<Rightarrow> u8 list" where
  "eth_write_header buffer destination source kind =
     blit 12 (be16 kind) (blit 6 source (blit 0 destination buffer))"

section \<open>ARP\<close>

definition ARP_PACKET :: nat where
  "ARP_PACKET = 28"

definition ARP_REQUEST :: u16 where "ARP_REQUEST = 1"
definition ARP_REPLY :: u16 where "ARP_REPLY = 2"
definition HARDWARE_ETHERNET :: u16 where "HARDWARE_ETHERNET = 1"
definition ARP_LIFETIME_MS :: nat where "ARP_LIFETIME_MS = 60000"
definition ARP_ENTRIES :: nat where "ARP_ENTRIES = 8"

record arp_packet =
  arp_operation :: u16
  arp_sender_mac :: mac
  arp_sender_ip :: ipv4
  arp_target_ip :: ipv4

definition arp_parse :: "u8 list \<Rightarrow> arp_packet option" where
  "arp_parse payload =
     (if length payload < ARP_PACKET then None
      else if of_be16 (payload ! 0) (payload ! 1) \<noteq> HARDWARE_ETHERNET \<or>
              of_be16 (payload ! 2) (payload ! 3) \<noteq> TYPE_IPV4 then None
      else if payload ! 4 \<noteq> 6 \<or> payload ! 5 \<noteq> 4 then None
      else Some \<lparr>arp_operation = of_be16 (payload ! 6) (payload ! 7),
                 arp_sender_mac = subrange 8 14 payload,
                 arp_sender_ip = ip_from_bytes (subrange 14 18 payload),
                 arp_target_ip = ip_from_bytes (subrange 24 28 payload)\<rparr>)"

definition arp_write :: "u8 list \<Rightarrow> u16 \<Rightarrow> mac \<Rightarrow> ipv4 \<Rightarrow> mac \<Rightarrow> ipv4 \<Rightarrow> u8 list" where
  "arp_write buffer operation sender_mac sender_ip target_mac target_ip =
     (let buffer = blit 0 (be16 HARDWARE_ETHERNET) buffer;
          buffer = blit 2 (be16 TYPE_IPV4) buffer;
          buffer = buffer[4 := 6, 5 := 4];
          buffer = blit 6 (be16 operation) buffer;
          buffer = blit 8 sender_mac buffer;
          buffer = blit 14 (ip_to_bytes sender_ip) buffer;
          buffer = blit 18 target_mac buffer
      in blit 24 (ip_to_bytes target_ip) buffer)"

record arp_entry =
  ae_ip :: ipv4
  ae_mac :: mac
  ae_expires :: nat

type_synonym arp_table = "arp_entry option list"

definition arp_new :: arp_table where
  "arp_new = replicate ARP_ENTRIES None"

definition arp_lookup :: "arp_table \<Rightarrow> ipv4 \<Rightarrow> nat \<Rightarrow> mac option" where
  "arp_lookup table ip now =
     map_option ae_mac
       (find (\<lambda>entry. ae_ip entry = ip \<and> now < ae_expires entry) (map the (filter (\<lambda>s. s \<noteq> None) table)))"

text \<open>\<^verbatim>\<open>min_by_key\<close>: the first slot with the least key.\<close>

fun min_slot :: "(arp_entry option \<Rightarrow> nat) \<Rightarrow> arp_table \<Rightarrow> nat option" where
  "min_slot key [] = None"
| "min_slot key (s # table) =
     (case min_slot key table of
        None \<Rightarrow> Some 0
      | Some i \<Rightarrow> if key (table ! i) < key s then Some (Suc i) else Some 0)"

definition arp_remember :: "arp_table \<Rightarrow> ipv4 \<Rightarrow> mac \<Rightarrow> nat \<Rightarrow> arp_table" where
  "arp_remember table ip mac now =
     (let new = Some \<lparr>ae_ip = ip, ae_mac = mac, ae_expires = now + ARP_LIFETIME_MS\<rparr> in
      case position (\<lambda>slot. case slot of Some entry \<Rightarrow> ae_ip entry = ip | None \<Rightarrow> False) table of
        Some i \<Rightarrow> table[i := new]
      | None \<Rightarrow>
          (case position (\<lambda>slot. case slot of None \<Rightarrow> True | Some entry \<Rightarrow> ae_expires entry \<le> now) table of
             Some i \<Rightarrow> table[i := new]
           | None \<Rightarrow>
               (case min_slot (\<lambda>slot. case slot of None \<Rightarrow> 0 | Some entry \<Rightarrow> ae_expires entry) table of
                  Some i \<Rightarrow> table[i := new]
                | None \<Rightarrow> table)))"

definition arp_list :: "arp_table \<Rightarrow> nat \<Rightarrow> (ipv4 \<times> mac \<times> nat) list" where
  "arp_list table now =
     map (\<lambda>entry. (ae_ip entry, ae_mac entry, ae_expires entry - now))
       (filter (\<lambda>entry. now < ae_expires entry) (map the (filter (\<lambda>s. s \<noteq> None) table)))"

section \<open>ICMP\<close>

definition ECHO_REPLY :: u8 where "ECHO_REPLY = 0"
definition ECHO_REQUEST :: u8 where "ECHO_REQUEST = 8"
definition ICMP_HEADER :: nat where "ICMP_HEADER = 8"

record echo =
  echo_kind :: u8
  echo_id :: u16
  echo_sequence :: u16
  echo_data :: "u8 list"

definition icmp_parse :: "u8 list \<Rightarrow> echo option" where
  "icmp_parse message =
     (if length message < ICMP_HEADER then None
      else let kind = message ! 0 in
        if kind \<noteq> ECHO_REQUEST \<and> kind \<noteq> ECHO_REPLY then None
        else if checksum [message] \<noteq> 0 then None
        else Some \<lparr>echo_kind = kind, echo_id = of_be16 (message ! 4) (message ! 5),
                   echo_sequence = of_be16 (message ! 6) (message ! 7),
                   echo_data = drop ICMP_HEADER message\<rparr>)"

definition icmp_write :: "u8 list \<Rightarrow> u8 \<Rightarrow> u16 \<Rightarrow> u16 \<Rightarrow> u8 list \<Rightarrow> nat \<times> u8 list" where
  "icmp_write buffer kind ident sequence data =
     (let len = ICMP_HEADER + length data;
          buffer = buffer[0 := kind, 1 := 0];
          buffer = blit 2 [0, 0] buffer;
          buffer = blit 4 (be16 ident) buffer;
          buffer = blit 6 (be16 sequence) buffer;
          buffer = blit ICMP_HEADER data buffer;
          check = checksum [take len buffer]
      in (len, blit 2 (be16 check) buffer))"

section \<open>UDP\<close>

definition UDP_HEADER :: nat where "UDP_HEADER = 8"

record udp_datagram =
  ud_source_port :: u16
  ud_destination_port :: u16
  ud_payload :: "u8 list"

definition pseudo_header :: "ipv4 \<Rightarrow> ipv4 \<Rightarrow> u8 \<Rightarrow> u8 list \<Rightarrow> u8 list" where
  "pseudo_header source destination protocol message =
     ip_to_bytes source @ ip_to_bytes destination @ [0, protocol] @ be16 (of_nat (length message))"

definition udp_checksum :: "ipv4 \<Rightarrow> ipv4 \<Rightarrow> u8 list \<Rightarrow> u16" where
  "udp_checksum source destination message =
     checksum [pseudo_header source destination PROTOCOL_UDP message, message]"

definition udp_parse :: "ipv4 \<Rightarrow> ipv4 \<Rightarrow> u8 list \<Rightarrow> udp_datagram option" where
  "udp_parse source destination message =
     (if length message < UDP_HEADER then None
      else let len = unat (of_be16 (message ! 4) (message ! 5)) in
        if len < UDP_HEADER \<or> length message < len then None
        else
          let message = take len message; check = of_be16 (message ! 6) (message ! 7)
          in if check \<noteq> 0 \<and> udp_checksum source destination message \<noteq> 0 then None
             else Some \<lparr>ud_source_port = of_be16 (message ! 0) (message ! 1),
                        ud_destination_port = of_be16 (message ! 2) (message ! 3),
                        ud_payload = drop UDP_HEADER message\<rparr>)"

definition udp_write ::
  "u8 list \<Rightarrow> ipv4 \<Rightarrow> ipv4 \<Rightarrow> u16 \<Rightarrow> u16 \<Rightarrow> u8 list \<Rightarrow> nat \<times> u8 list" where
  "udp_write buffer source destination source_port destination_port payload =
     (let len = UDP_HEADER + length payload;
          buffer = blit 0 (be16 source_port) buffer;
          buffer = blit 2 (be16 destination_port) buffer;
          buffer = blit 4 (be16 (of_nat len)) buffer;
          buffer = blit 6 [0, 0] buffer;
          buffer = blit UDP_HEADER payload buffer;
          check = udp_checksum source destination (take len buffer);
          check = (if check = 0 then 0xFFFF else check)
      in (len, blit 6 (be16 check) buffer))"

section \<open>TCP\<close>

definition TCP_HEADER :: nat where "TCP_HEADER = 20"
definition MSS :: nat where "MSS = 1460"

definition FIN :: u8 where "FIN = 0x01"
definition SYN :: u8 where "SYN = 0x02"
definition RST :: u8 where "RST = 0x04"
definition PSH :: u8 where "PSH = 0x08"
definition ACK :: u8 where "ACK = 0x10"

record segment =
  sg_source_port :: u16
  sg_destination_port :: u16
  sg_sequence :: u32
  sg_acknowledgement :: u32
  sg_flags :: u8
  sg_window :: u16
  sg_mss :: "u16 option"
  sg_payload :: "u8 list"

definition seg_has :: "segment \<Rightarrow> u8 \<Rightarrow> bool" where
  "seg_has sg flag \<longleftrightarrow> sg_flags sg AND flag \<noteq> 0"

definition seg_span :: "segment \<Rightarrow> u32" where
  "seg_span sg = of_nat (length (sg_payload sg)) + (if seg_has sg SYN then 1 else 0) +
     (if seg_has sg FIN then 1 else 0)"

function tcp_options :: "u8 list \<Rightarrow> nat \<Rightarrow> nat \<Rightarrow> u16 option \<Rightarrow> u16 option" where
  "tcp_options message offset at mss =
     (if at < offset then
        if message ! at = 0 then mss
        else if message ! at = 1 then tcp_options message offset (at + 1) mss
        else if offset \<le> at + 1 then mss
        else let len = unat (message ! (at + 1)) in
          if len < 2 \<or> offset < at + len then mss
          else tcp_options message offset (at + len)
                 (if message ! at = 2 \<and> len = 4
                  then Some (of_be16 (message ! (at + 2)) (message ! (at + 3))) else mss)
      else mss)"
  by pat_completeness auto
termination
  by (relation "measure (\<lambda>(message, offset, at, mss). offset - at)") auto

declare tcp_options.simps [simp del]

definition tcp_checksum :: "ipv4 \<Rightarrow> ipv4 \<Rightarrow> u8 list \<Rightarrow> u16" where
  "tcp_checksum source destination message =
     checksum [pseudo_header source destination PROTOCOL_TCP message, message]"

definition be32_at :: "u8 list \<Rightarrow> nat \<Rightarrow> u32" where
  "be32_at m i = of_be32 (m ! i) (m ! (i + 1)) (m ! (i + 2)) (m ! (i + 3))"

definition tcp_parse :: "ipv4 \<Rightarrow> ipv4 \<Rightarrow> u8 list \<Rightarrow> segment option" where
  "tcp_parse source destination message =
     (if length message < TCP_HEADER then None
      else let offset = unat (drop_bit 4 (message ! 12)) * 4 in
        if offset < TCP_HEADER \<or> length message < offset then None
        else if tcp_checksum source destination message \<noteq> 0 then None
        else Some \<lparr>sg_source_port = of_be16 (message ! 0) (message ! 1),
                   sg_destination_port = of_be16 (message ! 2) (message ! 3),
                   sg_sequence = be32_at message 4,
                   sg_acknowledgement = be32_at message 8,
                   sg_flags = message ! 13,
                   sg_window = of_be16 (message ! 14) (message ! 15),
                   sg_mss = tcp_options message offset TCP_HEADER None,
                   sg_payload = drop offset message\<rparr>)"

record outgoing =
  og_source_port :: u16
  og_destination_port :: u16
  og_sequence :: u32
  og_acknowledgement :: u32
  og_flags :: u8
  og_window :: u16
  og_with_mss :: bool
  og_payload :: "u8 list"

definition tcp_write :: "u8 list \<Rightarrow> ipv4 \<Rightarrow> ipv4 \<Rightarrow> outgoing \<Rightarrow> nat \<times> u8 list" where
  "tcp_write buffer source destination out =
     (let options = (if og_with_mss out then 4 else 0);
          offset = TCP_HEADER + options;
          len = offset + length (og_payload out);
          buffer = blit 0 (be16 (og_source_port out)) buffer;
          buffer = blit 2 (be16 (og_destination_port out)) buffer;
          buffer = blit 4 (be32 (og_sequence out)) buffer;
          buffer = blit 8 (be32 (og_acknowledgement out)) buffer;
          buffer = buffer[12 := push_bit 4 (of_nat (offset div 4)), 13 := og_flags out];
          buffer = blit 14 (be16 (og_window out)) buffer;
          buffer = blit 16 [0, 0] buffer;
          buffer = blit 18 [0, 0] buffer;
          buffer = (if og_with_mss out
                    then blit 22 (be16 (of_nat MSS)) (buffer[20 := 2, 21 := 4]) else buffer);
          buffer = blit offset (og_payload out) buffer;
          check = tcp_checksum source destination (take len buffer)
      in (len, blit 16 (be16 check) buffer))"

definition seq_before :: "u32 \<Rightarrow> u32 \<Rightarrow> bool" where
  "seq_before a b \<longleftrightarrow> sint (a - b) < 0"

definition seq_after :: "u32 \<Rightarrow> u32 \<Rightarrow> bool" where
  "seq_after a b \<longleftrightarrow> seq_before b a"

definition seq_between :: "u32 \<Rightarrow> u32 \<Rightarrow> u32 \<Rightarrow> bool" where
  "seq_between value low high \<longleftrightarrow> \<not> seq_before value low \<and> seq_before value high"

section \<open>Checksums add up\<close>

fun wordsum :: "u8 list \<Rightarrow> nat" where
  "wordsum (a # b # xs) = unat (of_be16 a b) + wordsum xs"
| "wordsum [a] = unat (of_be16 a 0)"
| "wordsum [] = 0"

lemma sum_bytes_wordsum:
  "sum_bytes s xs = (s', p) \<Longrightarrow>
   s' + wordsum ((case p of None \<Rightarrow> [] | Some h \<Rightarrow> [h]) @ rest) = s + wordsum (xs @ rest)"
  by (induction s xs rule: sum_bytes.induct) auto

lemma sum_part_wordsum:
  assumes "sum_part part (s, q) = (s', p)"
  shows "s' + wordsum ((case p of None \<Rightarrow> [] | Some h \<Rightarrow> [h]) @ rest) =
    s + wordsum ((case q of None \<Rightarrow> [] | Some h \<Rightarrow> [h]) @ part @ rest)"
proof (cases q)
  case None
  then show ?thesis using sum_bytes_wordsum [of s part s' p rest] assms by (simp add: sum_part_def)
next
  case (Some high)
  then show ?thesis
    using assms sum_bytes_wordsum [of _ "tl part" s' p rest]
    by (cases part) (auto simp: sum_part_def)
qed

lemma fold_sum_part:
  "fold sum_part parts (s, q) = (s', p) \<Longrightarrow>
   s' + wordsum ((case p of None \<Rightarrow> [] | Some h \<Rightarrow> [h]) @ rest) =
   s + wordsum ((case q of None \<Rightarrow> [] | Some h \<Rightarrow> [h]) @ concat parts @ rest)"
proof (induction parts arbitrary: s q)
  case (Cons part parts)
  obtain s1 q1 where 1: "sum_part part (s, q) = (s1, q1)" by fastforce
  then show ?case
    using Cons.IH [of s1 q1] Cons.prems sum_part_wordsum [OF 1, of "concat parts @ rest"] by simp
qed simp

lemma sum_parts_wordsum: "sum_parts parts = wordsum (concat parts)"
proof -
  obtain s p where f: "fold sum_part parts (0, None) = (s, p)" by fastforce
  show ?thesis
    using fold_sum_part [OF f, of "[]"] by (simp add: sum_parts_def f split: option.splits)
qed

lemma checksum_concat: "checksum parts = checksum [concat parts]"
  by (simp add: checksum_def sum_parts_wordsum)

lemma fold_carry_spec:
  "fold_carry s < 65536 \<and> fold_carry s mod 65535 = s mod 65535 \<and> (fold_carry s = 0 \<longleftrightarrow> s = 0)"
proof (induction s rule: fold_carry.induct)
  case (1 s)
  show ?case
  proof (cases "s div 65536 = 0")
    case True
    then have "s < 65536" by (simp add: div_eq_0_iff)
    then show ?thesis using True by (simp add: fold_carry.simps [of s])
  next
    case False
    define q r where "q = s div 65536" and "r = s mod 65536"
    have s: "s = q * 65536 + r" "0 < q"
      using False by (simp_all add: q_def r_def)
    have "s = r + q + q * 65535"
      using s(1) by linarith
    then have "s mod 65535 = (r + q + q * 65535) mod 65535"
      by (simp only:)
    also have "\<dots> = (r + q) mod 65535"
      by (rule mod_mult_self1)
    finally have "s mod 65535 = (r + q) mod 65535" .
    moreover have pos: "0 < s" using s by simp
    ultimately have "s mod 65535 = (r + q) mod 65535" by simp
    then show ?thesis
      using 1 [OF False] False s(2) pos by (simp add: fold_carry.simps [of s] flip: q_def r_def)
  qed
qed

lemma unat_checksum: "unat (checksum [bs]) = 65535 - fold_carry (wordsum bs)"
proof -
  have "unat (of_nat (fold_carry (wordsum bs)) :: u16) = fold_carry (wordsum bs)"
    using fold_carry_spec [of "wordsum bs"] by (simp add: unsigned_of_nat take_bit_nat_eq_self)
  moreover have "NOT w = - 1 - w" for w :: u16
    by (simp add: not_eq_complement)
  moreover have unat_max: "unat (- 1 :: u16) = 65535"
    by (simp add: unsigned_minus_1_eq_mask mask_eq_exp_minus_1)
  ultimately show ?thesis
    using fold_carry_spec [of "wordsum bs"]
    by (simp add: checksum_def sum_parts_wordsum unat_sub_if_size word_size unat_max)
qed

lemma checksum_zero:
  "wordsum bs mod 65535 = 0 \<Longrightarrow> 0 < wordsum bs \<Longrightarrow> checksum [bs] = 0"
proof -
  assume "wordsum bs mod 65535 = 0" and "0 < wordsum bs"
  then have "fold_carry (wordsum bs) mod 65535 = 0" "0 < fold_carry (wordsum bs)"
    "fold_carry (wordsum bs) < 65536"
    using fold_carry_spec [of "wordsum bs"] by simp_all
  moreover have "\<not> fold_carry (wordsum bs) < 65535"
    using calculation by (metis less_not_refl mod_less)
  ultimately have "fold_carry (wordsum bs) = 65535"
    by linarith
  then have "unat (checksum [bs]) = 0"
    by (simp add: unat_checksum)
  then show ?thesis
    by (simp add: unsigned_eq_0_iff)
qed

lemma wordsum_append: "even (length xs) \<Longrightarrow> wordsum (xs @ ys) = wordsum xs + wordsum ys"
  by (induction xs rule: wordsum.induct) auto

lemma wordsum_insert:
  "even (length p) \<Longrightarrow> wordsum (p @ be16 c @ q) = wordsum (p @ [0, 0] @ q) + unat c"
  by (simp add: wordsum_append be16_def)
    (simp add: of_be16_def)

lemma checksum_verifies:
  assumes "even (length p)"
  shows "checksum [p @ be16 (checksum [p @ [0, 0] @ q]) @ q] = 0"
    and "checksum [p @ [0, 0] @ q] = 0 \<Longrightarrow> checksum [p @ be16 0xFFFF @ q] = 0"
proof -
  let ?S = "wordsum (p @ [0, 0] @ q)" and ?c = "checksum [p @ [0, 0] @ q]"
  note f = fold_carry_spec [of ?S]
  have c: "unat ?c = 65535 - fold_carry ?S" by (rule unat_checksum)
  have total: "wordsum (p @ be16 ?c @ q) = ?S + (65535 - fold_carry ?S)"
    using wordsum_insert [OF assms, of ?c q] c by simp
  have le: "fold_carry ?S \<le> 65535" using f by linarith
  have "(?S + (65535 - fold_carry ?S)) mod 65535 = (?S mod 65535 + (65535 - fold_carry ?S)) mod 65535"
    by (simp add: mod_add_left_eq)
  also have "\<dots> = (fold_carry ?S mod 65535 + (65535 - fold_carry ?S)) mod 65535"
    using f by simp
  also have "\<dots> = (fold_carry ?S + (65535 - fold_carry ?S)) mod 65535"
    by (simp add: mod_add_left_eq)
  also have "\<dots> = 0" using le by simp
  finally have "wordsum (p @ be16 ?c @ q) mod 65535 = 0" by (simp only: total)
  moreover have "0 < wordsum (p @ be16 ?c @ q)"
    unfolding total using f by (cases "?S = 0") simp_all
  ultimately show "checksum [p @ be16 ?c @ q] = 0"
    by (rule checksum_zero)
  assume "?c = 0"
  then have "fold_carry ?S = 65535"
    using c le by simp
  then have "?S mod 65535 = 0"
    using f by simp
  then show "checksum [p @ be16 0xFFFF @ q] = 0"
    using wordsum_insert [OF assms, of "0xFFFF" q] by (intro checksum_zero) simp_all
qed

lemma wordsum_bound: "wordsum bs \<le> (length bs + 1) div 2 * 65535"
proof (induction bs rule: wordsum.induct)
  case (1 a b xs)
  have "unat (of_be16 a b) \<le> 65535" using unat_u16 [of "of_be16 a b"] by simp
  then show ?case using 1 by simp
next
  case (2 a)
  show ?case using unat_u16 [of "of_be16 a 0"] by simp
qed simp

lemma checksum_fits: "length (concat parts) \<le> 131072 \<Longrightarrow> sum_parts parts < 2 ^ 32"
proof -
  assume "length (concat parts) \<le> 131072"
  then have "(length (concat parts) + 1) div 2 * 65535 \<le> 65536 * 65535"
    by (intro mult_le_mono1) linarith
  then show ?thesis
    using wordsum_bound [of "concat parts"] by (simp add: sum_parts_wordsum)
qed

section \<open>What is written is what is parsed\<close>

text \<open>The writers fill a buffer from its start: \<open>written n p b\<close> is the buffer \<open>b\<close> after its
  first \<open>n\<close> bytes have been replaced by \<open>p\<close>.\<close>

definition written :: "nat \<Rightarrow> u8 list \<Rightarrow> u8 list \<Rightarrow> u8 list" where
  "written n p b = p @ drop n b"

lemma written_start: "blit 0 ys b = written (length ys) ys b"
  by (simp add: written_def blit_def)

lemma written_blit:
  "length p = n \<Longrightarrow> m = n \<Longrightarrow> blit m ys (written n p b) = written (n + length ys) (p @ ys) b"
  by (simp add: written_def blit_def add.commute)

lemma written_start2: "2 \<le> length b \<Longrightarrow> b[0 := x, Suc 0 := y] = written 2 [x, y] b"
  by (cases b; cases "tl b") (auto simp: written_def)

lemma written_update2:
  "length p = n \<Longrightarrow> k = n \<Longrightarrow> m = n + 1 \<Longrightarrow> n + 2 \<le> length b \<Longrightarrow>
   (written n p b)[k := x, m := y] = written (n + 2) (p @ [x, y]) b"
proof -
  assume "length p = n" "k = n" "m = n + 1" "n + 2 \<le> length b"
  moreover obtain c d r where "drop n b = c # d # r"
    using \<open>n + 2 \<le> length b\<close>
    by (metis Cons_nth_drop_Suc Suc_le_lessD add_2_eq_Suc' Suc_lessD)
  moreover from this have "drop (n + 2) b = r"
    by (metis add.commute add_2_eq_Suc drop_Suc drop_drop list.sel(3) tl_drop)
  ultimately show ?thesis
    by (simp add: written_def list_update_append)
qed

lemma take_written: "length p = n \<Longrightarrow> take n (written n p b) = p"
  by (simp add: written_def)

lemma ipv4_written:
  assumes "20 \<le> length buffer"
  shows "ipv4_write_header buffer source destination protocol n ident =
    (let p = [0x45, 0] @ be16 (of_nat (IP_HEADER + n)) @ be16 ident @ be16 0x4000 @ [TTL, protocol];
         q = be32 source @ be32 destination
     in p @ be16 (checksum [p @ [0, 0] @ q]) @ q @ drop 20 buffer)"
proof -
  define t f where "t = (of_nat (IP_HEADER + n) :: u16)" and "f = (0x4000 :: u16)"
  have one: "(1::nat) = Suc 0" by simp
  have h: "IP_HEADER = 20" by (simp add: IP_HEADER_def)
  show ?thesis
    unfolding ipv4_write_header_def t_def [symmetric] f_def [symmetric] Let_def ip_to_bytes_def one
    using assms
    by (simp add: written_start2 written_blit written_update2 take_written h del: list_update.simps)
      (simp add: written_def blit_def)
qed

lemma unat_u16_small: "n < 65536 \<Longrightarrow> unat (of_nat n :: u16) = n"
  by (simp add: unsigned_of_nat take_bit_nat_eq_self)

lemma be16_ex: "\<exists>a b. be16 w = [a, b] \<and> of_be16 a b = w"
  by (simp add: be16_def)

lemma be32_ex: "\<exists>a b c d. be32 w = [a, b, c, d] \<and> of_be32 a b c d = w"
  by (simp add: be32_def)

lemma take_exact: "length a = n \<Longrightarrow> take n (a @ b) = a"
  by simp

lemma ipv4_round_trip:
  assumes "IP_HEADER + n \<le> length buffer" and "IP_HEADER + n < 65536"
  shows "ipv4_parse (ipv4_write_header buffer source destination protocol n ident) =
    Some \<lparr>ip_source = source, ip_destination = destination, ip_protocol = protocol,
          ip_payload = take n (drop IP_HEADER buffer)\<rparr>"
proof -
  have h: "IP_HEADER = 20" by (simp add: IP_HEADER_def)
  obtain t1 t0 where t: "be16 (of_nat (IP_HEADER + n)) = [t1, t0]" "of_be16 t1 t0 = of_nat (IP_HEADER + n)"
    using be16_ex by blast
  obtain i1 i0 where i: "be16 ident = [i1, i0]" using be16_ex by blast
  obtain f1 f0 where f: "be16 0x4000 = [f1, f0]" "of_be16 f1 f0 = 0x4000" using be16_ex by blast
  obtain s0 s1 s2 s3 where sr: "be32 source = [s0, s1, s2, s3]" "of_be32 s0 s1 s2 s3 = source"
    using be32_ex by blast
  obtain d0 d1 d2 d3 where ds: "be32 destination = [d0, d1, d2, d3]" "of_be32 d0 d1 d2 d3 = destination"
    using be32_ex by blast
  define p where "p = [0x45, 0, t1, t0, i1, i0, f1, f0, TTL, protocol]"
  define q where "q = [s0, s1, s2, s3, d0, d1, d2, d3]"
  obtain c0 c1 where c: "be16 (checksum [p @ [0, 0] @ q]) = [c0, c1]" using be16_ex by blast
  define D where "D = ipv4_write_header buffer source destination protocol n ident"
  have D: "D = (p @ [c0, c1] @ q) @ drop 20 buffer"
    using ipv4_written [of buffer source destination protocol n ident] assms(1) c h
    unfolding D_def p_def q_def Let_def t i f sr ds by simp
  have "take 20 D = p @ be16 (checksum [p @ [0, 0] @ q]) @ q"
    unfolding D c by (rule take_exact) (simp add: p_def q_def)
  moreover have "even (length p)" by (simp add: p_def)
  ultimately have check: "checksum [take 20 D] = 0"
    using checksum_verifies(1) by simp
  have len: "length D = length buffer"
    using assms(1) by (simp add: D p_def q_def h)
  have at: "D ! 0 = 0x45" "D ! 2 = t1" "D ! 3 = t0" "D ! 6 = f1" "D ! 7 = f0" "D ! 9 = protocol"
    "subrange 12 16 D = [s0, s1, s2, s3]" "subrange 16 20 D = [d0, d1, d2, d3]"
    "drop 20 D = drop 20 buffer"
    by (simp_all add: D p_def q_def subrange_def)
  have head: "drop_bit 4 (0x45 :: u8) = 4" "unat ((0x45 :: u8) AND 0x0F) * 4 = 20"
    by simp_all
  have flags: "(0x4000 :: u16) AND 0x2000 = 0" "(0x4000 :: u16) AND 0x1FFF = 0"
    by simp_all
  show ?thesis
    unfolding D_def [symmetric] ipv4_parse_def Let_def at t(2) f(2) head flags
      unat_u16_small [OF assms(2)]
    using assms check len by (simp add: ip_from_bytes_def sr ds subrange_def at(9) h)
qed

lemma eth_round_trip:
  assumes "ETH_HEADER \<le> length buffer" and "length destination = 6" and "length source = 6"
  shows "eth_parse (eth_write_header buffer destination source kind) =
    Some \<lparr>eth_destination = destination, eth_kind = kind, eth_payload = drop ETH_HEADER buffer\<rparr>"
proof -
  obtain k1 k0 where k: "be16 kind = [k1, k0]" "of_be16 k1 k0 = kind" using be16_ex by blast
  have w: "eth_write_header buffer destination source kind =
      (destination @ source) @ [k1, k0] @ drop ETH_HEADER buffer"
    using assms unfolding eth_write_header_def k
    by (simp add: written_start written_blit ETH_HEADER_def) (simp add: written_def)
  show ?thesis
    unfolding w eth_parse_def using assms k(2) by (simp add: ETH_HEADER_def nth_append)
qed

lemma arp_round_trip:
  assumes "ARP_PACKET \<le> length buffer" and "length sender_mac = 6" and "length target_mac = 6"
  shows "arp_parse (arp_write buffer operation sender_mac sender_ip target_mac target_ip) =
    Some \<lparr>arp_operation = operation, arp_sender_mac = sender_mac, arp_sender_ip = sender_ip,
          arp_target_ip = target_ip\<rparr>"
proof -
  obtain h1 h0 where h: "be16 HARDWARE_ETHERNET = [h1, h0]" "of_be16 h1 h0 = HARDWARE_ETHERNET"
    using be16_ex by blast
  obtain t1 t0 where t: "be16 TYPE_IPV4 = [t1, t0]" "of_be16 t1 t0 = TYPE_IPV4" using be16_ex by blast
  obtain o1 o0 where o: "be16 operation = [o1, o0]" "of_be16 o1 o0 = operation" using be16_ex by blast
  obtain s0 s1 s2 s3 where s: "be32 sender_ip = [s0, s1, s2, s3]" "of_be32 s0 s1 s2 s3 = sender_ip"
    using be32_ex by blast
  obtain d0 d1 d2 d3 where d: "be32 target_ip = [d0, d1, d2, d3]" "of_be32 d0 d1 d2 d3 = target_ip"
    using be32_ex by blast
  have w: "arp_write buffer operation sender_mac sender_ip target_mac target_ip =
      [h1, h0, t1, t0, 6, 4, o1, o0] @ sender_mac @ [s0, s1, s2, s3] @ target_mac @
      [d0, d1, d2, d3] @ drop 28 buffer"
    using assms unfolding arp_write_def h t o Let_def ip_to_bytes_def s d
    by (simp add: written_start written_blit written_update2 ARP_PACKET_def del: list_update.simps)
      (simp add: written_def)
  show ?thesis
    unfolding w arp_parse_def using assms h(2) t(2) o(2) s(2) d(2)
    by (simp add: ARP_PACKET_def subrange_def nth_append ip_from_bytes_def)
qed

lemma icmp_round_trip:
  assumes "ICMP_HEADER + length data \<le> length buffer"
    and "kind = ECHO_REQUEST \<or> kind = ECHO_REPLY"
    and "icmp_write buffer kind ident sequence data = (len, buffer')"
  shows "icmp_parse (take len buffer') =
    Some \<lparr>echo_kind = kind, echo_id = ident, echo_sequence = sequence, echo_data = data\<rparr>"
proof -
  have h: "ICMP_HEADER = 8" by (simp add: ICMP_HEADER_def)
  obtain i1 i0 where i: "be16 ident = [i1, i0]" "of_be16 i1 i0 = ident" using be16_ex by blast
  obtain s1 s0 where s: "be16 sequence = [s1, s0]" "of_be16 s1 s0 = sequence" using be16_ex by blast
  define q where "q = [i1, i0, s1, s0] @ data"
  have one: "(1::nat) = Suc 0" by simp
  have b: "blit 8 data (blit 6 [s1, s0] (blit 4 [i1, i0] (blit 2 [0, 0] (buffer[0 := kind, Suc 0 := 0])))) =
      written (8 + length data) ([kind, 0] @ [0, 0] @ q) buffer"
    using assms(1) by (simp add: h written_start2 written_blit q_def del: list_update.simps)
  obtain c1 c0 where c: "be16 (checksum [[kind, 0] @ [0, 0] @ q]) = [c1, c0]" using be16_ex by blast
  have len: "len = 8 + length data" and b': "buffer' = [kind, 0, c1, c0] @ q @ drop (8 + length data) buffer"
    using assms(3) c unfolding icmp_write_def Let_def h one i s b
    by (auto simp: take_written q_def) (simp add: written_def blit_def)
  have msg: "take len buffer' = [kind, 0] @ be16 (checksum [[kind, 0] @ [0, 0] @ q]) @ q"
    using take_exact [of "[kind, 0, c1, c0, i1, i0, s1, s0] @ data" "8 + length data" "drop (8 + length data) buffer"]
    unfolding b' len c by (simp add: q_def)
  have check: "checksum [take len buffer'] = 0"
    unfolding msg by (rule checksum_verifies) simp
  have at: "take len buffer' = [kind, 0, c1, c0, i1, i0, s1, s0] @ data"
    unfolding msg c by (simp add: q_def)
  show ?thesis
    using check assms(2) unfolding at icmp_parse_def Let_def h by (auto simp: i(2) s(2))
qed

lemma checksum_pseudo:
  "checksum [ph, m] = checksum [ph @ m]"
  by (subst checksum_concat) simp

lemma udp_round_trip:
  assumes "UDP_HEADER + length payload \<le> length buffer" and "UDP_HEADER + length payload < 65536"
    and "udp_write buffer source destination source_port destination_port payload = (len, buffer')"
  shows "udp_parse source destination (take len buffer') =
    Some \<lparr>ud_source_port = source_port, ud_destination_port = destination_port, ud_payload = payload\<rparr>"
    and "len = UDP_HEADER + length payload"
proof -
  have h: "UDP_HEADER = 8" by (simp add: UDP_HEADER_def)
  obtain a1 a0 where a: "be16 source_port = [a1, a0]" "of_be16 a1 a0 = source_port" using be16_ex by blast
  obtain d1 d0 where d: "be16 destination_port = [d1, d0]" "of_be16 d1 d0 = destination_port"
    using be16_ex by blast
  obtain l1 l0 where l: "be16 (of_nat (8 + length payload)) = [l1, l0]"
    "of_be16 l1 l0 = of_nat (8 + length payload)" using be16_ex by blast
  define p where "p = [a1, a0, d1, d0, l1, l0]"
  define m where "m = p @ [0, 0] @ payload"
  have b: "blit 8 payload (blit 6 [0, 0] (blit 4 [l1, l0] (blit 2 [d1, d0] (blit 0 [a1, a0] buffer)))) =
      written (length m) m buffer"
    using assms(1) by (simp add: h written_start written_blit m_def p_def del: list_update.simps)
  have lm: "length m = 8 + length payload" by (simp add: m_def p_def)
  note b = b [unfolded lm]
  define c where "c = (let c = udp_checksum source destination m in if c = 0 then 0xFFFF else c)"
  obtain c1 c0 where c: "be16 c = [c1, c0]" "of_be16 c1 c0 = c" using be16_ex by blast
  have len: "len = 8 + length payload" and b': "buffer' = p @ [c1, c0] @ payload @ drop (8 + length payload) buffer"
    using assms(3) unfolding udp_write_def Let_def h a d l b take_written [OF lm] c_def [unfolded Let_def, symmetric] c
    by (auto simp: written_def m_def blit_def p_def)
  then show "len = UDP_HEADER + length payload" by (simp add: h)
  have msg: "take len buffer' = p @ be16 c @ payload"
    using take_exact [of "p @ [c1, c0] @ payload" "8 + length payload" "drop (8 + length payload) buffer"]
    unfolding b' len c by (simp add: p_def)
  define ph where "ph = pseudo_header source destination PROTOCOL_UDP m"
  have ph: "pseudo_header source destination PROTOCOL_UDP (p @ be16 c @ payload) = ph"
    by (simp add: ph_def pseudo_header_def lm p_def add.commute)
  have even: "even (length (ph @ p))"
    by (simp add: ph_def pseudo_header_def p_def ip_to_bytes_def)
  have u: "udp_checksum source destination m = checksum [(ph @ p) @ [0, 0] @ payload]"
    by (simp add: udp_checksum_def checksum_pseudo ph_def m_def)
  have "checksum [(ph @ p) @ be16 c @ payload] = 0"
    using checksum_verifies [OF even, of payload] by (simp add: c_def Let_def u)
  then have check: "udp_checksum source destination (p @ be16 c @ payload) = 0"
    by (simp add: udp_checksum_def checksum_pseudo ph)
  have full: "take len buffer' = [a1, a0, d1, d0, l1, l0, c1, c0] @ payload"
    unfolding msg c by (simp add: p_def)
  have ln: "unat (of_be16 l1 l0) = 8 + length payload"
    using assms(2) unfolding l(2) h by (rule unat_u16_small)
  show "udp_parse source destination (take len buffer') =
    Some \<lparr>ud_source_port = source_port, ud_destination_port = destination_port, ud_payload = payload\<rparr>"
    using check [unfolded c p_def] unfolding full udp_parse_def Let_def h
    by (simp add: ln a(2) d(2))
qed

lemma tcp_round_trip:
  assumes "TCP_HEADER + 4 + length (og_payload out) \<le> length buffer"
    and "tcp_write buffer source destination out = (len, buffer')"
  shows "tcp_parse source destination (take len buffer') =
    Some \<lparr>sg_source_port = og_source_port out, sg_destination_port = og_destination_port out,
      sg_sequence = og_sequence out, sg_acknowledgement = og_acknowledgement out,
      sg_flags = og_flags out, sg_window = og_window out,
      sg_mss = (if og_with_mss out then Some (of_nat MSS) else None), sg_payload = og_payload out\<rparr>"
    and "len = TCP_HEADER + (if og_with_mss out then 4 else 0) + length (og_payload out)"
proof -
  define offset where "offset = TCP_HEADER + (if og_with_mss out then 4 else 0)"
  have off: "offset = (if og_with_mss out then 24 else 20)" by (simp add: offset_def TCP_HEADER_def)
  obtain a1 a0 where a: "be16 (og_source_port out) = [a1, a0]" "of_be16 a1 a0 = og_source_port out"
    using be16_ex by blast
  obtain d1 d0 where d: "be16 (og_destination_port out) = [d1, d0]" "of_be16 d1 d0 = og_destination_port out"
    using be16_ex by blast
  obtain s3 s2 s1 s0 where s: "be32 (og_sequence out) = [s3, s2, s1, s0]" "of_be32 s3 s2 s1 s0 = og_sequence out"
    using be32_ex by blast
  obtain k3 k2 k1 k0 where k: "be32 (og_acknowledgement out) = [k3, k2, k1, k0]"
    "of_be32 k3 k2 k1 k0 = og_acknowledgement out" using be32_ex by blast
  obtain w1 w0 where w: "be16 (og_window out) = [w1, w0]" "of_be16 w1 w0 = og_window out"
    using be16_ex by blast
  obtain m1 m0 where m: "be16 (of_nat MSS) = [m1, m0]" "of_be16 m1 m0 = of_nat MSS" using be16_ex by blast
  define ob :: u8 where "ob = push_bit 4 (of_nat (offset div 4))"
  define p where "p = [a1, a0, d1, d0, s3, s2, s1, s0, k3, k2, k1, k0, ob, og_flags out, w1, w0]"
  define opts where "opts = (if og_with_mss out then [2, 4, m1, m0] else [])"
  define q where "q = [0, 0] @ opts @ og_payload out"
  define M where "M = p @ [0, 0] @ q"
  have lM: "length M = offset + length (og_payload out)"
    by (simp add: M_def p_def q_def opts_def off)
  let ?b16 = "blit 18 [0, 0] (blit 16 [0, 0] (blit 14 [w1, w0] ((blit 8 [k3, k2, k1, k0]
      (blit 4 [s3, s2, s1, s0] (blit 2 [d1, d0] (blit 0 [a1, a0] buffer))))[12 := ob, 13 := og_flags out])))"
  have b16: "?b16 = written (length (p @ [0, 0, 0, 0])) (p @ [0, 0, 0, 0]) buffer"
    using assms(1) by (simp add: written_start written_blit written_update2 p_def TCP_HEADER_def
        del: list_update.simps)
  have l16: "length (p @ [0, 0, 0, 0]) = 20" by (simp add: p_def)
  have b: "blit offset (og_payload out)
      (if og_with_mss out then blit 22 [m1, m0] (?b16[20 := 2, 21 := 4]) else ?b16) =
      written (offset + length (og_payload out)) M buffer"
  proof (cases "og_with_mss out")
    case True
    then have o24: "offset = 24" by (simp add: off)
    show ?thesis
      using assms(1) True unfolding b16 o24 l16
      by (simp add: written_blit written_update2 M_def q_def opts_def p_def TCP_HEADER_def
          del: list_update.simps)
  next
    case False
    then have o20: "offset = 20" by (simp add: off)
    show ?thesis
      using assms(1) False unfolding b16 o20 l16
      by (simp add: written_blit M_def q_def opts_def p_def TCP_HEADER_def del: list_update.simps)
  qed
  define c where "c = tcp_checksum source destination M"
  obtain c1 c0 where c: "be16 c = [c1, c0]" using be16_ex by blast
  have len: "len = offset + length (og_payload out)"
    and b': "buffer' = blit 16 [c1, c0] (written (offset + length (og_payload out)) M buffer)"
    using assms(2) unfolding tcp_write_def Let_def a d s k w m offset_def [symmetric] ob_def [symmetric]
      b take_written [OF lM] c_def [symmetric] c prod.inject by blast+
  then show "len = TCP_HEADER + (if og_with_mss out then 4 else 0) + length (og_payload out)"
    by (simp add: offset_def)
  have b2: "buffer' = (p @ [c1, c0] @ q) @ drop (offset + length (og_payload out)) buffer"
    unfolding b' by (simp add: written_def blit_def M_def p_def)
  have msg: "take len buffer' = p @ be16 c @ q"
    unfolding b2 len c using lM by (intro take_exact) (simp add: M_def)
  define ph where "ph = pseudo_header source destination PROTOCOL_TCP M"
  have ph: "pseudo_header source destination PROTOCOL_TCP (p @ be16 c @ q) = ph"
    by (simp add: ph_def pseudo_header_def M_def)
  have even: "even (length (ph @ p))"
    by (simp add: ph_def pseudo_header_def p_def ip_to_bytes_def)
  have u: "c = checksum [(ph @ p) @ [0, 0] @ q]"
    by (simp add: c_def tcp_checksum_def checksum_pseudo ph_def M_def)
  have "checksum [(ph @ p) @ be16 c @ q] = 0"
    unfolding u by (rule checksum_verifies(1) [OF even])
  then have check: "tcp_checksum source destination (take len buffer') = 0"
    by (simp add: msg tcp_checksum_def checksum_pseudo ph)
  define D where "D = take len buffer'"
  have D: "D = p @ [c1, c0] @ q" by (simp add: D_def msg c)
  have at: "D ! 0 = a1" "D ! 1 = a0" "D ! 2 = d1" "D ! 3 = d0" "D ! 12 = ob" "D ! 13 = og_flags out"
    "D ! 14 = w1" "D ! 15 = w0" "be32_at D 4 = og_sequence out" "be32_at D 8 = og_acknowledgement out"
    using s(2) k(2) by (simp_all add: D p_def be32_at_def)
  have ob: "unat (drop_bit 4 ob) * 4 = offset"
    by (simp add: ob_def off)
  have lD: "length D = offset + length (og_payload out)" "20 \<le> length D" "TCP_HEADER = 20"
    by (simp_all add: D p_def q_def opts_def off TCP_HEADER_def)
  have pay: "drop offset D = og_payload out"
    by (simp add: D p_def q_def opts_def off)
  have mss: "tcp_options D offset 20 None = (if og_with_mss out then Some (of_nat MSS) else None)"
  proof (cases "og_with_mss out")
    case True
    then have "D ! 20 = 2" "D ! 21 = 4" "D ! 22 = m1" "D ! 23 = m0" "offset = 24"
      by (simp_all add: D p_def q_def opts_def off)
    then show ?thesis
      using True m(2) by (simp add: tcp_options.simps [of _ _ 20] tcp_options.simps [of _ _ 24] Let_def)
  qed (simp add: tcp_options.simps off)
  show "tcp_parse source destination (take len buffer') =
    Some \<lparr>sg_source_port = og_source_port out, sg_destination_port = og_destination_port out,
      sg_sequence = og_sequence out, sg_acknowledgement = og_acknowledgement out,
      sg_flags = og_flags out, sg_window = og_window out,
      sg_mss = (if og_with_mss out then Some (of_nat MSS) else None), sg_payload = og_payload out\<rparr>"
    using check lD(1,2) a(2) d(2) w(2)
    unfolding D_def [symmetric] tcp_parse_def Let_def at ob pay lD(3) mss by (simp add: off)
qed

interpretation arp_codec: codec
  "\<lambda>(operation, mac, ip, target). arp_write (replicate ARP_PACKET 0) operation mac ip (replicate 6 0) target"
  "\<lambda>bytes. map_option (\<lambda>p. (arp_operation p, arp_sender_mac p, arp_sender_ip p, arp_target_ip p)) (arp_parse bytes)"
  "\<lambda>(operation, mac, ip, target). length mac = 6"
  by unfold_locales (auto simp: arp_round_trip)

interpretation ipv4_codec: codec
  "\<lambda>(source, destination, protocol, payload).
     ipv4_write_header (replicate IP_HEADER 0 @ payload) source destination protocol (length payload) 0"
  "\<lambda>bytes. map_option (\<lambda>p. (ip_source p, ip_destination p, ip_protocol p, ip_payload p)) (ipv4_parse bytes)"
  "\<lambda>(source, destination, protocol, payload). IP_HEADER + length payload < 65536"
  by unfold_locales (auto simp: ipv4_round_trip)

text \<open>
  C21.  Every protocol of the stack understands what the stack itself sends: whatever the
  buffer held before, a written IPv4 datagram (with any padding after it), ARP packet, echo
  request or reply, UDP datagram and TCP segment parses back to exactly the fields and the payload it
  was written from, with checksums that verify.
\<close>

theorem wire_round_trip:
  assumes "IP_HEADER + n \<le> length buffer" and "IP_HEADER + n < 65536"
    and "length sender_mac = 6" and "length target_mac = 6" and "ARP_PACKET \<le> length buffer"
    and "ICMP_HEADER + length data \<le> length buffer" and "length data < 65500"
    and "TCP_HEADER + 4 + length (og_payload out) \<le> length buffer"
  shows "ipv4_parse (ipv4_write_header buffer source destination protocol n ident) =
      Some \<lparr>ip_source = source, ip_destination = destination, ip_protocol = protocol,
            ip_payload = take n (drop IP_HEADER buffer)\<rparr> \<and>
    arp_parse (arp_write buffer operation sender_mac source target_mac destination) =
      Some \<lparr>arp_operation = operation, arp_sender_mac = sender_mac, arp_sender_ip = source,
            arp_target_ip = destination\<rparr> \<and>
    (\<forall>kind\<in>{ECHO_REQUEST, ECHO_REPLY}. case icmp_write buffer kind ident sequence data of
       (len, buffer') \<Rightarrow> icmp_parse (take len buffer') =
         Some \<lparr>echo_kind = kind, echo_id = ident, echo_sequence = sequence, echo_data = data\<rparr>) \<and>
    (case udp_write buffer source destination sport dport data of
       (len, buffer') \<Rightarrow> udp_parse source destination (take len buffer') =
         Some \<lparr>ud_source_port = sport, ud_destination_port = dport, ud_payload = data\<rparr>) \<and>
    (case tcp_write buffer source destination out of
       (len, buffer') \<Rightarrow> tcp_parse source destination (take len buffer') =
         Some \<lparr>sg_source_port = og_source_port out, sg_destination_port = og_destination_port out,
           sg_sequence = og_sequence out, sg_acknowledgement = og_acknowledgement out,
           sg_flags = og_flags out, sg_window = og_window out,
           sg_mss = (if og_with_mss out then Some (of_nat MSS) else None),
           sg_payload = og_payload out\<rparr>)"
  using assms ipv4_round_trip [OF assms(1,2)] arp_round_trip [OF assms(5,3,4)]
    icmp_round_trip [OF assms(6), of ECHO_REQUEST ident sequence]
    icmp_round_trip [OF assms(6), of ECHO_REPLY ident sequence]
    udp_round_trip(1) [of data buffer source destination sport dport]
    tcp_round_trip(1) [OF assms(8), of source destination]
  by (auto simp: UDP_HEADER_def ICMP_HEADER_def split: prod.split)

theorem wire_round_trip_witness:
  "ipv4_parse (ipv4_write_header (replicate 64 7) 1 2 17 10 0) =
     Some \<lparr>ip_source = 1, ip_destination = 2, ip_protocol = 17, ip_payload = replicate 10 7\<rparr>"
  using wire_round_trip [of 10 "replicate 64 7" "replicate 6 0" "replicate 6 0" "[]"
      "\<lparr>og_source_port = 1, og_destination_port = 2, og_sequence = 3, og_acknowledgement = 4,
        og_flags = 0, og_window = 0, og_with_mss = True, og_payload = []\<rparr>" 1 2 17 0]
  by (simp add: IP_HEADER_def ARP_PACKET_def ICMP_HEADER_def TCP_HEADER_def)

section \<open>Addresses as text, and prefixes\<close>

lemma ip_display_parse: "ip_parse (ip_display a) = Some a"
proof -
  obtain b0 b1 b2 b3 where b: "be32 a = [b0, b1, b2, b3]" "of_be32 b0 b1 b2 b3 = a"
    using be32_ex by blast
  define t :: "u8 \<Rightarrow> string" where "t = (\<lambda>b. decimal_loop (unat b) [])"
  have digits: "CHR ''.'' \<notin> set (t b)" "t b \<noteq> []" for b
    using decimal_loop_digits [of _ "unat b"] by (fastforce simp: t_def code_def)+
  have parse: "parse_uint 256 10 (t b) = Some (unat b)" for b
    using unat_u8 [of b] by (simp add: t_def parse_uint_decimal)
  have d: "ip_display a = t b0 @ CHR ''.'' # t b1 @ CHR ''.'' # t b2 @ CHR ''.'' # t b3"
    by (simp add: ip_display_def ip_to_bytes_def b t_def)
  have "split_on CHR ''.'' (ip_display a) = [t b0, t b1, t b2, t b3]"
    unfolding d using digits by (simp add: split_on_append_sep split_on_no_sep)
  then show ?thesis
    using digits parse b(2)
    by (simp add: ip_parse_def ip_from_bytes_def)
qed

lemma takeWhile_less: "takeWhile (\<lambda>i. i < n) [0..<m] = take n [0..<m]"
  by (rule takeWhile_eq_take_P_nth) auto

lemma ip_prefix_of_prefix:
  assumes "bits < 33"
  shows "\<exists>netmask. ip_from_prefix bits = Some netmask \<and> ip_prefix netmask = Some bits"
proof (cases "bits = 0")
  case True
  then show ?thesis
    by (simp add: ip_from_prefix_def ip_prefix_def leading_ones_def upt_rec)
next
  case False
  define a :: u32 where "a = push_bit (32 - bits) (- 1)"
  have m1: "(0xFFFFFFFF :: u32) = - 1" by simp
  have a: "ip_from_prefix bits = Some a"
    using False assms unfolding ip_from_prefix_def m1 by (simp add: a_def)
  have "bit a (31 - i) \<longleftrightarrow> i < bits" if "i < 32" for i
    using that assms by (auto simp: a_def bit_simps)
  then have "leading_ones a = length (takeWhile (\<lambda>i. i < bits) [0..<32])"
    unfolding leading_ones_def by (intro arg_cong [where f = length] takeWhile_cong) auto
  then have ones: "leading_ones a = bits"
    using assms by (simp add: takeWhile_less)
  have "push_bit bits a = 0"
    by (rule bit_word_eqI) (use assms in \<open>auto simp: a_def bit_simps\<close>)
  then show ?thesis
    using a by (simp add: ip_prefix_def ones)
qed

text \<open>
  C22.  An address survives being printed and read back, and a network mask made from a prefix
  length is recognised as that prefix, for every length there is.
\<close>

theorem ip_text_round_trip:
  "ip_parse (ip_display a) = Some a \<and>
   list_all (\<lambda>bits. \<exists>netmask. ip_from_prefix bits = Some netmask \<and> ip_prefix netmask = Some bits) [0..<33]"
proof
  show "ip_parse (ip_display a) = Some a" by (rule ip_display_parse)
  show "list_all (\<lambda>bits. \<exists>netmask. ip_from_prefix bits = Some netmask \<and> ip_prefix netmask = Some bits) [0..<33]"
    using ip_prefix_of_prefix by (auto simp: list_all_iff)
qed

section \<open>The table of neighbours\<close>

definition arp_inv :: "arp_table \<Rightarrow> bool" where
  "arp_inv table \<longleftrightarrow> length table = ARP_ENTRIES \<and>
     (\<forall>i j e f. i < length table \<and> j < length table \<and> table ! i = Some e \<and> table ! j = Some f \<and>
        ae_ip e = ae_ip f \<longrightarrow> i = j)"

lemma arp_lookup_iff:
  assumes "arp_inv table"
  shows "arp_lookup table ip now = Some m \<longleftrightarrow>
    (\<exists>i e. i < length table \<and> table ! i = Some e \<and> ae_ip e = ip \<and> now < ae_expires e \<and> ae_mac e = m)"
proof
  assume "arp_lookup table ip now = Some m"
  then obtain e where f: "find (\<lambda>e. ae_ip e = ip \<and> now < ae_expires e) (map the (filter (\<lambda>s. s \<noteq> None) table)) = Some e"
    and m: "ae_mac e = m"
    by (auto simp: arp_lookup_def)
  then have e: "ae_ip e = ip" "now < ae_expires e" "e \<in> set (map the (filter (\<lambda>s. s \<noteq> None) table))"
    using find_SomeD [OF f] by auto
  then have "Some e \<in> set table" by auto
  then show "\<exists>i e. i < length table \<and> table ! i = Some e \<and> ae_ip e = ip \<and> now < ae_expires e \<and> ae_mac e = m"
    using e m unfolding in_set_conv_nth by auto
next
  assume "\<exists>i e. i < length table \<and> table ! i = Some e \<and> ae_ip e = ip \<and> now < ae_expires e \<and> ae_mac e = m"
  then obtain i e where e: "i < length table" "table ! i = Some e" "ae_ip e = ip" "now < ae_expires e" "ae_mac e = m"
    by blast
  then have "e \<in> set (map the (filter (\<lambda>s. s \<noteq> None) table))"
    using nth_mem [OF e(1)] by (force simp: image_iff)
  then obtain e' where f: "find (\<lambda>e. ae_ip e = ip \<and> now < ae_expires e) (map the (filter (\<lambda>s. s \<noteq> None) table)) = Some e'"
    using e(3,4) by (cases "find (\<lambda>e. ae_ip e = ip \<and> now < ae_expires e) (map the (filter (\<lambda>s. s \<noteq> None) table))")
      (auto simp: find_None_iff)
  then have e': "ae_ip e' = ip" "Some e' \<in> set table"
    using find_SomeD [OF f] by auto
  then obtain j where "j < length table" "table ! j = Some e'"
    by (auto simp: in_set_conv_nth)
  then have "e' = e"
    using assms e e'(1) unfolding arp_inv_def by (metis option.inject)
  then show "arp_lookup table ip now = Some m"
    using f e(5) by (simp add: arp_lookup_def)
qed

lemma min_slot_less: "min_slot key table = Some i \<Longrightarrow> i < length table"
  by (induction table arbitrary: i) (auto split: option.splits if_splits)

lemma min_slot_None: "min_slot key table = None \<longleftrightarrow> table = []"
  by (cases table) (auto split: option.splits if_splits)

lemma min_slot_least:
  "min_slot key table = Some i \<Longrightarrow> j < length table \<Longrightarrow> key (table ! i) \<le> key (table ! j)"
proof (induction table arbitrary: i j)
  case (Cons s table)
  show ?case
  proof (cases "min_slot key table")
    case None
    then show ?thesis using Cons.prems by (simp add: min_slot_None)
  next
    case (Some k)
    then show ?thesis
      using Cons.prems Cons.IH [OF Some, of "j - 1"] by (cases j) (auto split: if_splits)
  qed
qed simp

text \<open>The slot \<open>arp_remember\<close> writes: the neighbour's own, or a free or expired one, or the
  one that would expire first.\<close>

lemma arp_remember_slot:
  assumes "arp_inv table"
  obtains i where "i < length table"
    "arp_remember table ip mac now =
       table[i := Some \<lparr>ae_ip = ip, ae_mac = mac, ae_expires = now + ARP_LIFETIME_MS\<rparr>]"
    "\<And>e j. j < length table \<Longrightarrow> table ! j = Some e \<Longrightarrow> ae_ip e = ip \<Longrightarrow> j = i"
    "\<And>e. table ! i = Some e \<Longrightarrow> ae_ip e \<noteq> ip \<Longrightarrow> now < ae_expires e \<Longrightarrow>
       (\<forall>j < length table. \<exists>e'. table ! j = Some e' \<and> ae_expires e \<le> ae_expires e')"
proof -
  let ?own = "\<lambda>slot. case slot of Some entry \<Rightarrow> ae_ip entry = ip | None \<Rightarrow> False"
  let ?dead = "\<lambda>slot. case slot of None \<Rightarrow> True | Some entry \<Rightarrow> ae_expires entry \<le> now"
  let ?key = "\<lambda>slot. case slot of None \<Rightarrow> 0 | Some entry \<Rightarrow> ae_expires entry"
  have uniq: "i = j" if "i < length table" "j < length table" "table ! i = Some e" "table ! j = Some f"
      "ae_ip e = ae_ip f" for i j e f
    using assms that by (simp add: arp_inv_def)
  show ?thesis
  proof (cases "position ?own table")
    case (Some i)
    note p = position_SomeD [OF Some]
    then obtain e where "table ! i = Some e" "ae_ip e = ip"
      by (auto split: option.splits)
    then show ?thesis
      using that [of i] p Some uniq by (auto simp: arp_remember_def Let_def)
  next
    case own: None
    then have none: "ae_ip e \<noteq> ip" if "j < length table" "table ! j = Some e" for j e
      using that nth_mem [OF that(1)] by (fastforce simp: position_None_iff)
    show ?thesis
    proof (cases "position ?dead table")
      case (Some i)
      note p = position_SomeD [OF Some]
      then show ?thesis
        using that [of i] own Some none by (auto simp: arp_remember_def Let_def split: option.splits)
    next
      case dead: None
      have "table \<noteq> []"
        using assms by (auto simp: arp_inv_def ARP_ENTRIES_def)
      then obtain i where i: "min_slot ?key table = Some i"
        using min_slot_None by fastforce
      have live: "\<exists>e'. table ! j = Some e'" if "j < length table" for j
        using dead nth_mem [OF that] by (fastforce simp: position_None_iff split: option.splits)
      show ?thesis
      proof (rule that [of i])
        show "i < length table" by (rule min_slot_less [OF i])
        show "arp_remember table ip mac now =
            table[i := Some \<lparr>ae_ip = ip, ae_mac = mac, ae_expires = now + ARP_LIFETIME_MS\<rparr>]"
          using own dead i by (simp add: arp_remember_def Let_def)
        show "\<And>e j. j < length table \<Longrightarrow> table ! j = Some e \<Longrightarrow> ae_ip e = ip \<Longrightarrow> j = i"
          using none by blast
        fix e
        assume e: "table ! i = Some e"
        show "\<forall>j < length table. \<exists>e'. table ! j = Some e' \<and> ae_expires e \<le> ae_expires e'"
          using min_slot_least [OF i] live e by fastforce
      qed
    qed
  qed
qed

lemma arp_new_inv: "arp_inv arp_new"
  by (auto simp: arp_inv_def arp_new_def)

text \<open>
  C23.  The table of neighbours: a neighbour just heard of is found until its minute is over;
  every other neighbour is found as before, unless the table was full of live ones, and then
  only one that expires no later than any other is given up; no address is ever there twice.
\<close>

theorem arp_table_correct:
  assumes "arp_inv table"
  shows "arp_inv (arp_remember table ip mac now) \<and>
    (\<forall>t < now + ARP_LIFETIME_MS. arp_lookup (arp_remember table ip mac now) ip t = Some mac) \<and>
    (\<forall>other t. other \<noteq> ip \<and> now \<le> t \<longrightarrow>
      arp_lookup (arp_remember table ip mac now) other t = arp_lookup table other t \<or>
      (\<exists>e. Some e \<in> set table \<and> ae_ip e = other \<and>
        (\<forall>slot\<in>set table. \<exists>e'. slot = Some e' \<and> ae_expires e \<le> ae_expires e')))"
proof -
  obtain i where i: "i < length table"
    and r: "arp_remember table ip mac now =
       table[i := Some \<lparr>ae_ip = ip, ae_mac = mac, ae_expires = now + ARP_LIFETIME_MS\<rparr>]"
    and own: "\<And>e j. j < length table \<Longrightarrow> table ! j = Some e \<Longrightarrow> ae_ip e = ip \<Longrightarrow> j = i"
    and victim: "\<And>e. table ! i = Some e \<Longrightarrow> ae_ip e \<noteq> ip \<Longrightarrow> now < ae_expires e \<Longrightarrow>
       (\<forall>j < length table. \<exists>e'. table ! j = Some e' \<and> ae_expires e \<le> ae_expires e')"
    using arp_remember_slot [OF assms] by blast
  let ?new = "\<lparr>ae_ip = ip, ae_mac = mac, ae_expires = now + ARP_LIFETIME_MS\<rparr>"
  have inv: "arp_inv (arp_remember table ip mac now)"
    using assms own i unfolding r arp_inv_def
    by (auto simp: nth_list_update split: if_splits)
  have found: "arp_lookup (arp_remember table ip mac now) ip t = Some mac"
    if "t < now + ARP_LIFETIME_MS" for t
    unfolding arp_lookup_iff [OF inv] using i that
    by (intro exI [of _ i] exI [of _ ?new]) (simp add: r)
  have kept: "arp_lookup (arp_remember table ip mac now) other t = arp_lookup table other t"
    if o: "other \<noteq> ip" "now \<le> t"
      and nv: "\<And>e. table ! i = Some e \<Longrightarrow> ae_ip e = other \<Longrightarrow> ae_expires e \<le> now" for other t
  proof (rule option_eqI)
    fix m
    show "arp_lookup (arp_remember table ip mac now) other t = Some m \<longleftrightarrow> arp_lookup table other t = Some m"
      unfolding arp_lookup_iff [OF inv] arp_lookup_iff [OF assms]
      using o nv i by (fastforce simp: r nth_list_update split: if_splits)
  qed
  have "arp_lookup (arp_remember table ip mac now) other t = arp_lookup table other t \<or>
      (\<exists>e. Some e \<in> set table \<and> ae_ip e = other \<and>
        (\<forall>slot\<in>set table. \<exists>e'. slot = Some e' \<and> ae_expires e \<le> ae_expires e'))"
    if o: "other \<noteq> ip" "now \<le> t" for other t
  proof (cases "\<exists>e. table ! i = Some e \<and> ae_ip e = other \<and> now < ae_expires e")
    case True
    then obtain e where e: "table ! i = Some e" "ae_ip e = other" "now < ae_expires e" by blast
    have "\<forall>j < length table. \<exists>e'. table ! j = Some e' \<and> ae_expires e \<le> ae_expires e'"
      using victim [OF e(1)] e(2,3) o(1) by blast
    then have "\<forall>slot\<in>set table. \<exists>e'. slot = Some e' \<and> ae_expires e \<le> ae_expires e'"
      by (metis in_set_conv_nth)
    moreover have "Some e \<in> set table"
      using nth_mem [OF i] e(1) by simp
    ultimately show ?thesis
      using e(2) by blast
  next
    case False
    then show ?thesis using kept [OF o] by fastforce
  qed
  then show ?thesis
    using inv found by blast
qed

theorem arp_table_correct_witness:
  "arp_lookup (arp_remember arp_new 5 [1, 2, 3, 4, 5, 6] 10) 5 100 = Some [1, 2, 3, 4, 5, 6]"
  using arp_table_correct [OF arp_new_inv, of 5 "[1, 2, 3, 4, 5, 6]" 10]
  by (simp add: ARP_LIFETIME_MS_def)

end
