(* ===== verification/Streams.thy ===== *)
theory Streams
  imports Wire
begin

text \<open>
  TCP connections (\<^verbatim>\<open>crates/kernel/src/net/stream.rs\<close>): the state of one connection, its buffers
  and timers, and the table of connections.  What goes on the wire is decided in
  \<^verbatim>\<open>net/mod.rs\<close>, which is the theory \<open>Stack\<close>.
\<close>

section \<open>Constants and states\<close>

definition MAX_STREAMS :: nat where "MAX_STREAMS = 64"
definition RECEIVE_BUFFER :: nat where "RECEIVE_BUFFER = 8192"
definition SEND_BUFFER :: nat where "SEND_BUFFER = 8192"
definition RTO_MS :: nat where "RTO_MS = 300"
definition RTO_MAX_MS :: nat where "RTO_MAX_MS = 4000"
definition MAX_RETRIES :: nat where "MAX_RETRIES = 6"
definition TIME_WAIT_MS :: nat where "TIME_WAIT_MS = 2000"
definition BACKLOG :: nat where "BACKLOG = 4"

type_synonym task_id = nat

datatype tcp_state =
  Closed | Listen | SynSent | SynReceived | Established | FinWait1 | FinWait2
| Closing | TimeWait | CloseWait | LastAck

definition is_open :: "tcp_state \<Rightarrow> bool" where
  "is_open st \<longleftrightarrow> st = Established \<or> st = CloseWait"

fun tcp_state_name :: "tcp_state \<Rightarrow> string" where
  "tcp_state_name Closed = ''closed''"
| "tcp_state_name Listen = ''listen''"
| "tcp_state_name SynSent = ''syn-sent''"
| "tcp_state_name SynReceived = ''syn-received''"
| "tcp_state_name Established = ''established''"
| "tcp_state_name FinWait1 = ''fin-wait-1''"
| "tcp_state_name FinWait2 = ''fin-wait-2''"
| "tcp_state_name Closing = ''closing''"
| "tcp_state_name TimeWait = ''time-wait''"
| "tcp_state_name CloseWait = ''close-wait''"
| "tcp_state_name LastAck = ''last-ack''"

section \<open>One connection\<close>

record conn =
  c_owner :: task_id
  c_state :: tcp_state
  c_local_port :: u16
  c_remote :: ipv4
  c_remote_port :: u16
  c_snd_una :: u32
  c_snd_nxt :: u32
  c_snd_wnd :: u16
  c_peer_mss :: u16
  c_rcv_nxt :: u32
  c_send :: "u8 list"
  c_recv :: "u8 list"
  c_retransmit_at :: nat
  c_rto_ms :: nat
  c_retries :: nat
  c_expires_at :: nat
  c_need_ack :: bool
  c_closing :: bool
  c_fin_sent :: bool
  c_peer_closed :: bool
  c_reset :: bool
  c_backlog :: "nat list"
  c_listener :: "nat option"

definition conn_new :: "task_id \<Rightarrow> tcp_state \<Rightarrow> u16 \<Rightarrow> conn" where
  "conn_new owner st local_port =
     \<lparr>c_owner = owner, c_state = st, c_local_port = local_port,
      c_remote = IP_UNSPECIFIED, c_remote_port = 0,
      c_snd_una = 0, c_snd_nxt = 0, c_snd_wnd = 0, c_peer_mss = of_nat MSS, c_rcv_nxt = 0,
      c_send = [], c_recv = [],
      c_retransmit_at = 0, c_rto_ms = RTO_MS, c_retries = 0, c_expires_at = 0,
      c_need_ack = False, c_closing = False, c_fin_sent = False, c_peer_closed = False,
      c_reset = False, c_backlog = [], c_listener = None\<rparr>"

definition window :: "conn \<Rightarrow> u16" where
  "window c = of_nat (RECEIVE_BUFFER - min (length (c_recv c)) RECEIVE_BUFFER)"

definition in_flight :: "conn \<Rightarrow> u32" where
  "in_flight c = c_snd_nxt c - c_snd_una c"

definition sendable :: "conn \<Rightarrow> nat" where
  "sendable c =
     (if c_state c \<noteq> Established \<and> c_state c \<noteq> CloseWait then 0
      else
        let unsent = length (c_send c) - unat (in_flight c);
            wnd = unat (c_snd_wnd c) - unat (in_flight c)
        in min (min unsent wnd) (min (unat (c_peer_mss c)) MSS))"

definition acknowledge :: "u32 \<Rightarrow> conn \<Rightarrow> conn" where
  "acknowledge ack c =
     (if \<not> seq_after ack (c_snd_una c) then c
      else
        let acked = unat (ack - c_snd_una c);
            acked = (if c_fin_sent c \<and> ack = c_snd_nxt c \<and> 0 < acked then acked - 1 else acked)
        in c\<lparr>c_send := drop (min acked (length (c_send c))) (c_send c),
             c_snd_una := ack, c_retries := 0, c_rto_ms := RTO_MS, c_retransmit_at := 0\<rparr>)"

definition accept_data :: "u32 \<Rightarrow> u8 list \<Rightarrow> conn \<Rightarrow> bool \<times> conn" where
  "accept_data sequence data c =
     (if data = [] then (True, c)
      else if sequence \<noteq> c_rcv_nxt c then (False, c\<lparr>c_need_ack := True\<rparr>)
      else
        let room = RECEIVE_BUFFER - min (length (c_recv c)) RECEIVE_BUFFER;
            taken = min (length data) room
        in (taken = length data,
            c\<lparr>c_recv := c_recv c @ take taken data, c_rcv_nxt := c_rcv_nxt c + of_nat taken,
              c_need_ack := True\<rparr>))"

definition arm :: "nat \<Rightarrow> conn \<Rightarrow> conn" where
  "arm now c =
     (if c_retransmit_at c = 0 \<and> 0 < in_flight c
      then c\<lparr>c_retransmit_at := now + c_rto_ms c\<rparr> else c)"

definition disarm :: "conn \<Rightarrow> conn" where
  "disarm c = c\<lparr>c_retransmit_at := 0, c_rto_ms := RTO_MS, c_retries := 0\<rparr>"

definition timed_out :: "nat \<Rightarrow> conn \<Rightarrow> bool" where
  "timed_out now c \<longleftrightarrow> c_retransmit_at c \<noteq> 0 \<and> c_retransmit_at c \<le> now"

definition back_off :: "nat \<Rightarrow> conn \<Rightarrow> conn" where
  "back_off now c =
     (let rto = min (c_rto_ms c * 2) RTO_MAX_MS
      in c\<lparr>c_retries := c_retries c + 1, c_rto_ms := rto, c_retransmit_at := now + rto\<rparr>)"

definition gave_up :: "conn \<Rightarrow> bool" where
  "gave_up c \<longleftrightarrow> MAX_RETRIES \<le> c_retries c"

section \<open>The table\<close>

type_synonym streams = "conn option list"

datatype stream_error =
  TooMany
| BadStream
| PortTaken u16
| NotConnected
| Reset
| NotListening
| StreamClosed
| WouldBlock

fun stream_error_text :: "stream_error \<Rightarrow> string" where
  "stream_error_text TooMany =
     ''all '' @ decimal_loop MAX_STREAMS [] @ '' connections are in use''"
| "stream_error_text BadStream = ''no such connection''"
| "stream_error_text (PortTaken port) =
     ''port '' @ decimal_loop (unat port) [] @ '' is already taken''"
| "stream_error_text NotConnected = ''the connection is not established yet''"
| "stream_error_text Reset = ''the connection was reset''"
| "stream_error_text NotListening = ''this socket does not listen''"
| "stream_error_text StreamClosed = ''the connection is closed for sending''"
| "stream_error_text WouldBlock = ''the send buffer is full''"

definition streams_new :: streams where
  "streams_new = replicate MAX_STREAMS None"

definition free_slot :: "streams \<Rightarrow> nat option" where
  "free_slot ss = position (\<lambda>s. s = None) ss"

definition streams_open :: "task_id \<Rightarrow> streams \<Rightarrow> (stream_error + nat) \<times> streams" where
  "streams_open owner ss =
     (case free_slot ss of
        None \<Rightarrow> (Inl TooMany, ss)
      | Some index \<Rightarrow> (Inr index, ss[index := Some (conn_new owner Closed 0)]))"

text \<open>\<^verbatim>\<open>slots.get(index).and_then(Option::as_ref)\<close>: \<^verbatim>\<open>at\<close> and \<^verbatim>\<open>peek\<close>.\<close>

definition peek :: "nat \<Rightarrow> streams \<Rightarrow> conn option" where
  "peek index ss = (if index < length ss then ss ! index else None)"

definition get_stream :: "task_id \<Rightarrow> nat \<Rightarrow> streams \<Rightarrow> stream_error + conn" where
  "get_stream owner index ss =
     (case peek index ss of
        None \<Rightarrow> Inl BadStream
      | Some c \<Rightarrow> if c_owner c = owner then Inr c else Inl BadStream)"

text \<open>A change through the reference that \<^verbatim>\<open>at\<close> or \<^verbatim>\<open>get_mut\<close> gave.\<close>

definition change :: "nat \<Rightarrow> (conn \<Rightarrow> conn) \<Rightarrow> streams \<Rightarrow> streams" where
  "change index f ss = (case peek index ss of None \<Rightarrow> ss | Some c \<Rightarrow> ss[index := Some (f c)])"

definition stream_exists :: "nat \<Rightarrow> streams \<Rightarrow> bool" where
  "stream_exists index ss \<longleftrightarrow> peek index ss \<noteq> None"

definition streams_bind :: "task_id \<Rightarrow> nat \<Rightarrow> u16 \<Rightarrow> streams \<Rightarrow> (stream_error + u16) \<times> streams" where
  "streams_bind owner index port ss =
     (if list_ex (\<lambda>(i, s). i \<noteq> index \<and>
           (case s of None \<Rightarrow> False | Some c \<Rightarrow> c_local_port c = port \<and> c_state c = Listen))
          (enumerate 0 ss)
      then (Inl (PortTaken port), ss)
      else
        (case get_stream owner index ss of
           Inl e \<Rightarrow> (Inl e, ss)
         | Inr c \<Rightarrow> (Inr port, change index (\<lambda>c. c\<lparr>c_local_port := port\<rparr>) ss)))"

definition streams_listen :: "task_id \<Rightarrow> nat \<Rightarrow> streams \<Rightarrow> stream_error option \<times> streams" where
  "streams_listen owner index ss =
     (case get_stream owner index ss of
        Inl e \<Rightarrow> (Some e, ss)
      | Inr c \<Rightarrow>
          if c_local_port c = 0 then (Some NotConnected, ss)
          else (None, change index (\<lambda>c. c\<lparr>c_state := Listen\<rparr>) ss))"

definition streams_accept ::
  "task_id \<Rightarrow> nat \<Rightarrow> streams \<Rightarrow> (stream_error + nat option) \<times> streams" where
  "streams_accept owner index ss =
     (case get_stream owner index ss of
        Inl e \<Rightarrow> (Inl e, ss)
      | Inr c \<Rightarrow>
          if c_state c \<noteq> Listen then (Inl NotListening, ss)
          else
            (case c_backlog c of
               [] \<Rightarrow> (Inr None, ss)
             | i # rest \<Rightarrow> (Inr (Some i), change index (\<lambda>c. c\<lparr>c_backlog := rest\<rparr>) ss)))"

definition streams_lookup :: "u16 \<Rightarrow> ipv4 \<Rightarrow> u16 \<Rightarrow> streams \<Rightarrow> nat option" where
  "streams_lookup local_port remote remote_port ss =
     position (\<lambda>s. case s of None \<Rightarrow> False
       | Some c \<Rightarrow> c_state c \<noteq> Listen \<and> c_local_port c = local_port \<and> c_remote c = remote \<and>
                   c_remote_port c = remote_port) ss"

definition listener_for :: "u16 \<Rightarrow> streams \<Rightarrow> nat option" where
  "listener_for local_port ss =
     position (\<lambda>s. case s of None \<Rightarrow> False
       | Some c \<Rightarrow> c_state c = Listen \<and> c_local_port c = local_port) ss"

text \<open>\<^verbatim>\<open>mss.clamp(536, MSS)\<close>.\<close>

definition clamp_mss :: "u16 \<Rightarrow> u16" where
  "clamp_mss mss = (if mss < 536 then 536 else if of_nat MSS < mss then of_nat MSS else mss)"

definition accept_syn ::
  "nat \<Rightarrow> ipv4 \<Rightarrow> u16 \<Rightarrow> u32 \<Rightarrow> u16 \<Rightarrow> u16 option \<Rightarrow> u32 \<Rightarrow> streams \<Rightarrow> nat option \<times> streams" where
  "accept_syn listener remote remote_port sequence wnd mss iss ss =
     (case peek listener ss of
        None \<Rightarrow> (None, ss)
      | Some l \<Rightarrow>
          if BACKLOG \<le> length (c_backlog l) then (None, ss)
          else
            (case free_slot ss of
               None \<Rightarrow> (None, ss)
             | Some index \<Rightarrow>
                 let c = conn_new (c_owner l) SynReceived (c_local_port l);
                     c = c\<lparr>c_remote := remote, c_remote_port := remote_port,
                           c_rcv_nxt := sequence + 1, c_snd_una := iss, c_snd_nxt := iss,
                           c_snd_wnd := wnd\<rparr>;
                     c = (case mss of None \<Rightarrow> c | Some m \<Rightarrow> c\<lparr>c_peer_mss := clamp_mss m\<rparr>);
                     c = c\<lparr>c_listener := Some listener, c_need_ack := True\<rparr>
                 in (Some index, ss[index := Some c])))"

text \<open>The slot of the listener a connection was born of.\<close>

definition listener_of :: "nat \<Rightarrow> streams \<Rightarrow> nat option" where
  "listener_of index ss = Option.bind (peek index ss) c_listener"

definition hand_to_listener :: "nat \<Rightarrow> streams \<Rightarrow> streams" where
  "hand_to_listener index ss =
     (case listener_of index ss of
        None \<Rightarrow> ss
      | Some listener \<Rightarrow> change listener (\<lambda>l. l\<lparr>c_backlog := c_backlog l @ [index]\<rparr>) ss)"

definition streams_close :: "nat \<Rightarrow> streams \<Rightarrow> streams" where
  "streams_close index ss =
     (let ss = (case listener_of index ss of
                  None \<Rightarrow> ss
                | Some listener \<Rightarrow>
                    change listener (\<lambda>l. l\<lparr>c_backlog := filter (\<lambda>w. w \<noteq> index) (c_backlog l)\<rparr>) ss)
      in if index < length ss then ss[index := None] else ss)"

text \<open>The loop of \<^verbatim>\<open>close_owner\<close>, over the slots still ahead.\<close>

fun close_owner_loop :: "nat list \<Rightarrow> task_id \<Rightarrow> nat \<Rightarrow> streams \<Rightarrow> nat \<times> streams" where
  "close_owner_loop [] owner closed ss = (closed, ss)"
| "close_owner_loop (index # indices) owner closed ss =
     (case peek index ss of
        None \<Rightarrow> close_owner_loop indices owner closed ss
      | Some c \<Rightarrow>
          if c_owner c = owner
          then close_owner_loop indices owner (closed + 1) (streams_close index ss)
          else close_owner_loop indices owner closed ss)"

definition streams_close_owner :: "task_id \<Rightarrow> streams \<Rightarrow> nat \<times> streams" where
  "streams_close_owner owner ss = close_owner_loop [0..<MAX_STREAMS] owner 0 ss"

definition streams_summary :: "streams \<Rightarrow> nat \<times> nat" where
  "streams_summary ss =
     (let live = List.map_filter id ss
      in (length live, length (filter (\<lambda>c. c_state c = Established) live)))"

definition streams_describe ::
  "streams \<Rightarrow> (nat \<times> tcp_state \<times> u16 \<times> ipv4 \<times> u16 \<times> nat \<times> nat) list" where
  "streams_describe ss =
     List.map_filter (\<lambda>(i, s). map_option (\<lambda>c.
       (i, c_state c, c_local_port c, c_remote c, c_remote_port c,
        length (c_send c), length (c_recv c))) s) (enumerate 0 ss)"

definition stream_indices :: "streams \<Rightarrow> nat list" where
  "stream_indices ss = filter (\<lambda>i. ss ! i \<noteq> None) [0..<MAX_STREAMS]"

definition stream_expired :: "nat \<Rightarrow> nat \<Rightarrow> streams \<Rightarrow> bool" where
  "stream_expired index now ss =
     (case ss ! index of None \<Rightarrow> False
      | Some c \<Rightarrow> c_state c = TimeWait \<and> c_expires_at c \<le> now)"

definition initial_sequence :: "nat \<Rightarrow> u32" where
  "initial_sequence now = of_nat (now * 250000)"

definition time_wait_until :: "nat \<Rightarrow> nat" where
  "time_wait_until now = now + TIME_WAIT_MS"

section \<open>Looking connections up\<close>

lemma peek_set: "peek i (ss[j := x]) = (if i = j \<and> j < length ss then x else peek i ss)"
  by (auto simp: peek_def)

lemma peek_len: "peek i ss = Some c \<Longrightarrow> i < length ss"
  by (auto simp: peek_def split: if_splits)

lemma peek_change [simp]: "peek i (change j f ss) = (if i = j then map_option f (peek j ss) else peek i ss)"
  by (auto simp: change_def peek_set dest: peek_len split: option.splits)

lemma length_change [simp]: "length (change j f ss) = length ss"
  by (simp add: change_def split: option.split)

lemma change_absent: "peek j ss = None \<Longrightarrow> change j f ss = ss"
  by (simp add: change_def)

lemma streams_eqI: "length ss = length ts \<Longrightarrow> (\<And>i. peek i ss = peek i ts) \<Longrightarrow> ss = ts"
  by (rule nth_equalityI) (auto simp: peek_def split: if_splits dest: meta_spec)

lemma get_stream_iff: "get_stream own i ss = Inr c \<longleftrightarrow> peek i ss = Some c \<and> c_owner c = own"
  by (auto simp: get_stream_def split: option.splits)

lemma get_stream_error: "get_stream own i ss = Inl e \<Longrightarrow> e = BadStream"
  by (auto simp: get_stream_def split: option.splits if_splits)

lemma get_stream_cases:
  obtains "get_stream own i ss = Inl BadStream"
  | c where "get_stream own i ss = Inr c" "peek i ss = Some c" "c_owner c = own"
  using get_stream_iff get_stream_error by (cases "get_stream own i ss") blast+

lemma free_slot_Some: "free_slot ss = Some i \<Longrightarrow> i < length ss \<and> peek i ss = None"
  using position_SomeD by (fastforce simp: free_slot_def peek_def)

lemma streams_lookup_Some:
  "streams_lookup p r rp ss = Some i \<Longrightarrow> \<exists>c. peek i ss = Some c \<and> c_state c \<noteq> Listen \<and>
     c_local_port c = p \<and> c_remote c = r \<and> c_remote_port c = rp"
  by (auto simp: streams_lookup_def peek_def dest!: position_SomeD split: option.splits)

lemma listener_for_Some:
  "listener_for p ss = Some i \<Longrightarrow> \<exists>c. peek i ss = Some c \<and> c_state c = Listen \<and> c_local_port c = p"
  by (auto simp: listener_for_def peek_def dest!: position_SomeD split: option.splits)

lemma peek_close:
  "peek i (streams_close j ss) =
     (if i = j then None
      else case listener_of j ss of
        Some l \<Rightarrow> if i = l
          then map_option (\<lambda>c. c\<lparr>c_backlog := filter (\<lambda>w. w \<noteq> j) (c_backlog c)\<rparr>) (peek i ss)
          else peek i ss
      | None \<Rightarrow> peek i ss)"
  by (auto simp: streams_close_def Let_def peek_set dest: peek_len split: option.split)
    (auto simp: peek_def)

lemma length_close [simp]: "length (streams_close j ss) = length ss"
  by (simp add: streams_close_def Let_def split: option.split)

lemma length_hand [simp]: "length (hand_to_listener j ss) = length ss"
  by (simp add: hand_to_listener_def split: option.split)

lemma length_close_owner [simp]: "length (snd (close_owner_loop is own n ss)) = length ss"
  by (induction "is" own n ss rule: close_owner_loop.induct) (auto split: option.split)

lemma peek_indices: "i \<in> set (stream_indices ss) \<Longrightarrow> length ss = MAX_STREAMS \<Longrightarrow> peek i ss \<noteq> None"
  by (auto simp: stream_indices_def peek_def)

section \<open>The invariants\<close>

text \<open>
  A connection keeps its buffers within bounds; a table keeps 64 slots, and an index that waits
  in a listener's queue is a live connection that the listener's slot gave birth to.
\<close>

definition conn_ok :: "conn \<Rightarrow> bool" where
  "conn_ok c \<longleftrightarrow> length (c_recv c) \<le> RECEIVE_BUFFER \<and> length (c_send c) \<le> SEND_BUFFER \<and>
     RTO_MS \<le> c_rto_ms c \<and> c_rto_ms c \<le> RTO_MAX_MS \<and> c_retries c \<le> MAX_RETRIES \<and>
     536 \<le> c_peer_mss c \<and> unat (c_peer_mss c) \<le> MSS"

definition streams_ok :: "streams \<Rightarrow> bool" where
  "streams_ok ss \<longleftrightarrow> length ss = MAX_STREAMS \<and> (\<forall>i c. peek i ss = Some c \<longrightarrow> conn_ok c) \<and>
     (\<forall>l c i. peek l ss = Some c \<longrightarrow> i \<in> set (c_backlog c) \<longrightarrow>
        (\<exists>d. peek i ss = Some d \<and> c_listener d = Some l))"

lemma streams_okD:
  assumes "streams_ok ss"
  shows "length ss = MAX_STREAMS" and "peek i ss = Some c \<Longrightarrow> conn_ok c"
    and "peek l ss = Some c \<Longrightarrow> i \<in> set (c_backlog c) \<Longrightarrow>
      \<exists>d. peek i ss = Some d \<and> c_listener d = Some l"
  using assms unfolding streams_ok_def by blast+

lemma streams_okI:
  assumes "length ss = MAX_STREAMS" and "\<And>i c. peek i ss = Some c \<Longrightarrow> conn_ok c"
    and "\<And>l c i. peek l ss = Some c \<Longrightarrow> i \<in> set (c_backlog c) \<Longrightarrow>
      \<exists>d. peek i ss = Some d \<and> c_listener d = Some l"
  shows "streams_ok ss"
  using assms unfolding streams_ok_def by blast

lemma conn_ok_new [inv_intros]: "conn_ok (conn_new own st p)"
  by (simp add: conn_ok_def conn_new_def RECEIVE_BUFFER_def SEND_BUFFER_def RTO_MS_def RTO_MAX_MS_def
      MAX_RETRIES_def MSS_def word_le_nat_alt)

lemma clamp_mss_range: "536 \<le> clamp_mss m \<and> unat (clamp_mss m) \<le> MSS"
  by (auto simp: clamp_mss_def MSS_def word_le_nat_alt word_less_nat_alt)

lemma conn_ok_acknowledge [inv_intros]: "conn_ok c \<Longrightarrow> conn_ok (acknowledge a c)"
  by (auto simp: conn_ok_def acknowledge_def Let_def RTO_MS_def RTO_MAX_MS_def)

lemma conn_ok_accept_data [inv_intros]: "conn_ok c \<Longrightarrow> conn_ok (snd (accept_data s d c))"
  by (auto simp: conn_ok_def accept_data_def Let_def)

lemma conn_ok_arm [inv_intros]: "conn_ok c \<Longrightarrow> conn_ok (arm now c)"
  by (simp add: conn_ok_def arm_def)

lemma conn_ok_disarm [inv_intros]: "conn_ok c \<Longrightarrow> conn_ok (disarm c)"
  by (simp add: conn_ok_def disarm_def RTO_MS_def RTO_MAX_MS_def)

lemma conn_ok_back_off [inv_intros]: "conn_ok c \<Longrightarrow> \<not> gave_up c \<Longrightarrow> conn_ok (back_off now c)"
  by (auto simp: conn_ok_def back_off_def gave_up_def Let_def RTO_MS_def RTO_MAX_MS_def)

text \<open>What a change of one connection must respect.\<close>

definition links :: "conn \<Rightarrow> nat option \<times> nat list" where
  "links c = (c_listener c, c_backlog c)"

lemma streams_ok_change:
  assumes ok: "streams_ok ss" and f: "\<And>c. peek i ss = Some c \<Longrightarrow> conn_ok c \<Longrightarrow>
      conn_ok (f c) \<and> c_listener (f c) = c_listener c \<and> set (c_backlog (f c)) \<subseteq> set (c_backlog c)"
  shows "streams_ok (change i f ss)"
proof (rule streams_okI)
  show "length (change i f ss) = MAX_STREAMS" using streams_okD(1) [OF ok] by simp
next
  fix j c assume "peek j (change i f ss) = Some c"
  then show "conn_ok c" using f streams_okD(2) [OF ok] by (auto split: if_splits)
next
  fix l c k
  assume l: "peek l (change i f ss) = Some c" and k: "k \<in> set (c_backlog c)"
  obtain c0 where c0: "peek l ss = Some c0" "k \<in> set (c_backlog c0)"
    using l k f streams_okD(2) [OF ok] by (fastforce split: if_splits)
  then obtain d where d: "peek k ss = Some d" "c_listener d = Some l"
    using streams_okD(3) [OF ok] by blast
  then show "\<exists>d. peek k (change i f ss) = Some d \<and> c_listener d = Some l"
    using f streams_okD(2) [OF ok] by auto
qed

lemma streams_ok_fill:
  assumes ok: "streams_ok ss" and i: "peek i ss = None" and c: "conn_ok c" "c_backlog c = []"
  shows "streams_ok (ss[i := Some c])"
proof (rule streams_okI)
  fix l d k
  assume l: "peek l (ss[i := Some c]) = Some d" and k: "k \<in> set (c_backlog d)"
  have "peek l ss = Some d"
    using l k c by (auto simp: peek_set split: if_splits)
  then obtain e where "peek k ss = Some e" "c_listener e = Some l"
    using streams_okD(3) [OF ok] k by blast
  then show "\<exists>d. peek k (ss[i := Some c]) = Some d \<and> c_listener d = Some l"
    using i by (auto simp: peek_set)
qed (use streams_okD(1,2) [OF ok] c in \<open>auto simp: peek_set split: if_splits\<close>)

lemma streams_ok_new [inv_intros]: "streams_ok streams_new"
  by (rule streams_okI) (auto simp: streams_new_def peek_def split: if_splits)

lemma streams_ok_open [inv_intros]: "streams_ok ss \<Longrightarrow> streams_ok (snd (streams_open own ss))"
  by (auto simp: streams_open_def conn_new_def [THEN arg_cong, of c_backlog] dest: free_slot_Some
      intro!: streams_ok_fill conn_ok_new split: option.split)

lemma streams_ok_bind [inv_intros]: "streams_ok ss \<Longrightarrow> streams_ok (snd (streams_bind own i p ss))"
  by (auto simp: streams_bind_def conn_ok_def intro!: streams_ok_change split: sum.split)

lemma streams_ok_listen [inv_intros]: "streams_ok ss \<Longrightarrow> streams_ok (snd (streams_listen own i ss))"
  by (auto simp: streams_listen_def conn_ok_def intro!: streams_ok_change split: sum.split)

lemma streams_ok_accept [inv_intros]: "streams_ok ss \<Longrightarrow> streams_ok (snd (streams_accept own i ss))"
  by (auto simp: streams_accept_def conn_ok_def get_stream_iff intro!: streams_ok_change
      split: sum.split list.split)

lemma streams_ok_accept_syn [inv_intros]:
  "streams_ok ss \<Longrightarrow> streams_ok (snd (accept_syn l r rp s w m iss ss))"
  using clamp_mss_range conn_ok_new
  by (auto simp: accept_syn_def Let_def conn_ok_def conn_new_def dest: free_slot_Some
      intro!: streams_ok_fill split: option.split)

lemma streams_ok_hand [inv_intros]: "streams_ok ss \<Longrightarrow> streams_ok (hand_to_listener i ss)"
proof (cases "listener_of i ss")
  case (Some l)
  assume ok: "streams_ok ss"
  obtain d where d: "peek i ss = Some d" "c_listener d = Some l"
    using Some by (auto simp: listener_of_def bind_eq_Some_conv)
  show ?thesis
  proof (rule streams_okI)
    fix m c k
    assume m: "peek m (hand_to_listener i ss) = Some c" and k: "k \<in> set (c_backlog c)"
    have "\<exists>c0. peek k ss = Some c0 \<and> c_listener c0 = Some m"
    proof (cases "m = l")
      case True
      then obtain c1 where c1: "peek l ss = Some c1" "k \<in> set (c_backlog c1) \<or> k = i"
        using m k by (auto simp: hand_to_listener_def Some)
      then show ?thesis using streams_okD(3) [OF ok c1(1)] d True by auto
    next
      case False
      then show ?thesis
        using m k streams_okD(3) [OF ok] by (auto simp: hand_to_listener_def Some)
    qed
    then show "\<exists>d. peek k (hand_to_listener i ss) = Some d \<and> c_listener d = Some m"
      by (auto simp: hand_to_listener_def Some)
  qed (use streams_okD(1,2) [OF ok] in
      \<open>auto simp: hand_to_listener_def Some conn_ok_def split: if_splits\<close>)
qed (simp add: hand_to_listener_def)

lemma streams_ok_close [inv_intros]:
  assumes ok: "streams_ok ss"
  shows "streams_ok (streams_close i ss)"
proof (rule streams_okI)
  fix m c
  assume m: "peek m (streams_close i ss) = Some c"
  obtain c0 where c0: "peek m ss = Some c0" "conn_ok c0 \<longrightarrow> conn_ok c" "set (c_backlog c) \<subseteq> set (c_backlog c0)"
    "listener_of i ss = Some m \<longrightarrow> i \<notin> set (c_backlog c)"
    using m by (auto simp: peek_close conn_ok_def split: if_splits option.splits)
  show "conn_ok c" using c0 streams_okD(2) [OF ok] by blast
  fix k
  assume k: "k \<in> set (c_backlog c)"
  obtain d where d: "peek k ss = Some d" "c_listener d = Some m"
    using streams_okD(3) [OF ok c0(1)] c0(3) k by blast
  have "k \<noteq> i"
    using c0(4) k d by (auto simp: listener_of_def)
  then show "\<exists>d. peek k (streams_close i ss) = Some d \<and> c_listener d = Some m"
    using d by (auto simp: peek_close split: option.splits)
qed (use streams_okD(1) [OF ok] in simp)

lemma streams_ok_close_loop: "streams_ok ss \<Longrightarrow> streams_ok (snd (close_owner_loop is own n ss))"
  by (induction "is" own n ss rule: close_owner_loop.induct) (auto intro: streams_ok_close split: option.split)

lemma streams_ok_close_owner [inv_intros]: "streams_ok ss \<Longrightarrow> streams_ok (snd (streams_close_owner own ss))"
  by (simp add: streams_close_owner_def streams_ok_close_loop)

lemma peek_close_other:
  "i \<noteq> j \<Longrightarrow> peek i ss = Some c \<Longrightarrow> \<exists>b. peek i (streams_close j ss) = Some (c\<lparr>c_backlog := b\<rparr>)"
  by (auto simp: peek_close split: option.split intro: exI [where x = "c_backlog c"])

lemma close_loop_none: "peek i ss = None \<Longrightarrow> peek i (snd (close_owner_loop is own n ss)) = None"
  by (induction "is" own n ss rule: close_owner_loop.induct) (auto simp: peek_close split: option.split)

lemma close_loop_other:
  "peek i ss = Some c \<Longrightarrow> c_owner c \<noteq> own \<Longrightarrow>
   \<exists>b. peek i (snd (close_owner_loop is own n ss)) = Some (c\<lparr>c_backlog := b\<rparr>)"
proof (induction "is" own n ss arbitrary: c rule: close_owner_loop.induct)
  case (1 own n ss)
  then show ?case by (auto intro: exI [where x = "c_backlog c"])
next
  case (2 j js own n ss)
  show ?case
  proof (cases "\<exists>d. peek j ss = Some d \<and> c_owner d = own")
    case True
    then obtain d where d: "peek j ss = Some d" "c_owner d = own" by blast
    then have "i \<noteq> j" using "2.prems" by auto
    then obtain b where "peek i (streams_close j ss) = Some (c\<lparr>c_backlog := b\<rparr>)"
      using peek_close_other "2.prems"(1) by blast
    then show ?thesis
      using "2.IH"(2) [OF d] "2.prems"(2) d by fastforce
  next
    case False
    then show ?thesis
      using "2.IH"(1,3) "2.prems" by (auto split: option.split)
  qed
qed

lemma close_loop_mine:
  "i \<in> set is \<Longrightarrow> peek i ss = Some c \<Longrightarrow> c_owner c = own \<Longrightarrow>
   peek i (snd (close_owner_loop is own n ss)) = None"
proof (induction "is" own n ss arbitrary: c rule: close_owner_loop.induct)
  case (2 j js own n ss)
  show ?case
  proof (cases "peek j ss")
    case None
    then show ?thesis using "2.IH"(1) "2.prems" by auto
  next
    case (Some d)
    show ?thesis
    proof (cases "c_owner d = own")
      case mine: True
      show ?thesis
      proof (cases "i = j")
        case True
        then show ?thesis
          using Some mine by (simp add: close_loop_none peek_close)
      next
        case False
        then obtain b where "peek i (streams_close j ss) = Some (c\<lparr>c_backlog := b\<rparr>)"
          using peek_close_other "2.prems"(2) by blast
        then show ?thesis
          using "2.IH"(2) [OF Some mine] "2.prems" False Some mine by simp
      qed
    next
      case False
      then show ?thesis using "2.IH"(3) [OF Some] "2.prems" Some by auto
    qed
  qed
qed simp

interpretation tcp: owned_slots peek c_owner get_stream BadStream streams_close_owner
  "\<lambda>ss. length ss = MAX_STREAMS"
proof unfold_locales
  fix ss :: streams and i c and own :: task_id
  show "peek i ss = None \<Longrightarrow> peek i (snd (streams_close_owner own ss)) = None"
    by (simp add: streams_close_owner_def close_loop_none)
  assume len: "length ss = MAX_STREAMS" and c: "peek i ss = Some c"
  have "i \<in> set [0..<MAX_STREAMS]" using peek_len [OF c] len by simp
  then show "c_owner c = own \<Longrightarrow> peek i (snd (streams_close_owner own ss)) = None"
    using c by (simp add: streams_close_owner_def close_loop_mine)
  show "c_owner c \<noteq> own \<Longrightarrow>
      \<exists>c'. peek i (snd (streams_close_owner own ss)) = Some c' \<and> c_owner c' = c_owner c"
    using close_loop_other [OF c] unfolding streams_close_owner_def by fastforce
qed (auto simp: get_stream_iff dest: get_stream_error)

section \<open>Sequence numbers\<close>

text \<open>Numbers less than half the circle apart compare as the offsets they stand for.\<close>

lemma sint_small: "- (2 ^ 31) \<le> k \<Longrightarrow> k < 2 ^ 31 \<Longrightarrow> sint (word_of_int k :: u32) = k"
  by (simp add: signed_of_int signed_take_bit_int_eq_self)

lemma seq_after_offset:
  assumes "a < 2 ^ 31" and "b < 2 ^ 31"
  shows "seq_after (base + of_nat a) (base + of_nat b) \<longleftrightarrow> b < a"
proof -
  have eq: "(base + of_nat b) - (base + of_nat a) = (word_of_int (int b - int a) :: u32)"
    by simp
  have "sint (word_of_int (int b - int a) :: u32) = int b - int a"
    using assms by (intro sint_small) auto
  then show ?thesis
    unfolding seq_after_def seq_before_def eq by simp
qed

lemma seq_diff_offset:
  "b \<le> a \<Longrightarrow> a < 2 ^ 32 \<Longrightarrow> unat ((base + of_nat a) - (base + of_nat b) :: u32) = a - b"
proof -
  assume "b \<le> a" "a < 2 ^ 32"
  then have "(base + of_nat a) - (base + of_nat b) = (of_nat (a - b) :: u32)"
    by (simp add: of_nat_diff)
  also have "unat (of_nat (a - b) :: u32) = a - b"
    using \<open>a < 2 ^ 32\<close> by (simp only: unsigned_of_nat) (simp add: take_bit_nat_eq_self)
  finally show ?thesis .
qed

lemma seq_offset_inj:
  "a < 2 ^ 32 \<Longrightarrow> b < 2 ^ 32 \<Longrightarrow> (base + of_nat a = (base + of_nat b :: u32)) \<longleftrightarrow> a = b"
proof -
  assume "a < 2 ^ 32" "b < 2 ^ 32"
  then have "unat (of_nat a :: u32) = a" "unat (of_nat b :: u32) = b"
    by (simp_all add: unsigned_of_nat take_bit_nat_eq_self)
  then show ?thesis by (metis add_left_cancel)
qed

section \<open>Timers\<close>

lemma back_off_interval: "c_retransmit_at (back_off now c) = now + c_rto_ms (back_off now c)"
  by (simp add: back_off_def Let_def)

lemma rto_doubles: "c_rto_ms ((back_off now ^^ n) c) = min (c_rto_ms c * 2 ^ n) RTO_MAX_MS" if "c_rto_ms c \<le> RTO_MAX_MS"
proof (induction n)
  case (Suc n)
  then show ?case by (simp add: back_off_def Let_def min_def RTO_MAX_MS_def)
qed (use that in simp)

end
