(* ===== verification/Sockets.thy ===== *)
theory Sockets
  imports Streams
begin

text \<open>
  The table of UDP sockets (\<^verbatim>\<open>crates/kernel/src/net/socket.rs\<close>): owners, ports, queues of
  received datagrams and the ring of ephemeral ports, which TCP draws from as well.
\<close>

section \<open>The table\<close>

definition MAX_SOCKETS :: nat where "MAX_SOCKETS = 64"
definition QUEUE_DEPTH :: nat where "QUEUE_DEPTH = 8"
definition MAX_DATAGRAM :: nat where "MAX_DATAGRAM = 1472"
definition EPHEMERAL_FIRST :: u16 where "EPHEMERAL_FIRST = 49152"

record received =
  rv_from :: ipv4
  rv_port :: u16
  rv_data :: "u8 list"

record sock =
  so_owner :: task_id
  so_local_port :: u16
  so_peer :: "(ipv4 \<times> u16) option"
  so_queue :: "received list"
  so_last_peer :: "(ipv4 \<times> u16) option"
  so_dropped :: nat

record sockets =
  st_slots :: "sock option list"
  st_next :: u16

datatype socket_error =
  SockTooMany
| BadSocket
| SockPortTaken u16
| NoPort
| NotBound
| NoPeer
| SockTooLong nat

fun socket_error_text :: "socket_error \<Rightarrow> string" where
  "socket_error_text SockTooMany = ''all '' @ decimal_loop MAX_SOCKETS [] @ '' sockets are in use''"
| "socket_error_text BadSocket = ''no such socket''"
| "socket_error_text (SockPortTaken port) =
     ''port '' @ decimal_loop (unat port) [] @ '' is already taken''"
| "socket_error_text NoPort = ''no ephemeral port is free''"
| "socket_error_text NotBound = ''the socket has no local port yet''"
| "socket_error_text NoPeer = ''nobody to send to: connect first''"
| "socket_error_text (SockTooLong len) =
     decimal_loop len [] @ '' bytes is more than '' @ decimal_loop MAX_DATAGRAM []"

definition sockets_new :: sockets where
  "sockets_new = \<lparr>st_slots = replicate MAX_SOCKETS None, st_next = EPHEMERAL_FIRST\<rparr>"

definition sockets_open :: "task_id \<Rightarrow> sockets \<Rightarrow> (socket_error + nat) \<times> sockets" where
  "sockets_open owner t =
     (case position (\<lambda>s. s = None) (st_slots t) of
        None \<Rightarrow> (Inl SockTooMany, t)
      | Some index \<Rightarrow>
          (Inr index,
           t\<lparr>st_slots := (st_slots t)[index := Some
             \<lparr>so_owner = owner, so_local_port = 0, so_peer = None, so_queue = [],
              so_last_peer = None, so_dropped = 0\<rparr>]\<rparr>))"

text \<open>\<^verbatim>\<open>get\<close>: the socket, if it exists and is the caller's.\<close>

definition get_socket :: "task_id \<Rightarrow> nat \<Rightarrow> sockets \<Rightarrow> socket_error + sock" where
  "get_socket owner index t =
     (if index < length (st_slots t) then
        (case st_slots t ! index of
           None \<Rightarrow> Inl BadSocket
         | Some s \<Rightarrow> if so_owner s = owner then Inr s else Inl BadSocket)
      else Inl BadSocket)"

definition put_socket :: "nat \<Rightarrow> sock \<Rightarrow> sockets \<Rightarrow> sockets" where
  "put_socket index s t = t\<lparr>st_slots := (st_slots t)[index := Some s]\<rparr>"

definition port_used :: "u16 \<Rightarrow> sock option list \<Rightarrow> bool" where
  "port_used port slots \<longleftrightarrow>
     list_ex (\<lambda>s. case s of None \<Rightarrow> False | Some s \<Rightarrow> so_local_port s = port) slots"

text \<open>The port after \<open>p\<close> on the ring of ephemeral ports, and the loop of \<^verbatim>\<open>pick_ephemeral\<close>
  with the number of tries left.\<close>

definition next_port :: "u16 \<Rightarrow> u16" where
  "next_port p = (if p = 0xFFFF then EPHEMERAL_FIRST else p + 1)"

fun pick_loop :: "nat \<Rightarrow> sockets \<Rightarrow> (socket_error + u16) \<times> sockets" where
  "pick_loop 0 t = (Inl NoPort, t)"
| "pick_loop (Suc tries) t =
     (let port = st_next t; t = t\<lparr>st_next := next_port port\<rparr>
      in if port_used port (st_slots t) then pick_loop tries t else (Inr port, t))"

definition pick_ephemeral :: "sockets \<Rightarrow> (socket_error + u16) \<times> sockets" where
  "pick_ephemeral t = pick_loop (unat ((0xFFFF :: u16) - EPHEMERAL_FIRST) + 1) t"

definition pick_port :: "sockets \<Rightarrow> (socket_error + u16) \<times> sockets" where
  "pick_port t = pick_ephemeral t"

text \<open>\<^verbatim>\<open>bind\<close> once the port is chosen.\<close>

definition bind_to :: "task_id \<Rightarrow> nat \<Rightarrow> u16 \<Rightarrow> sockets \<Rightarrow> (socket_error + u16) \<times> sockets" where
  "bind_to owner index port t =
     (if list_ex (\<lambda>(i, s). i \<noteq> index \<and>
           (case s of None \<Rightarrow> False | Some s \<Rightarrow> so_local_port s = port)) (enumerate 0 (st_slots t))
      then (Inl (SockPortTaken port), t)
      else
        (case get_socket owner index t of
           Inl e \<Rightarrow> (Inl e, t)
         | Inr s \<Rightarrow> (Inr port, put_socket index (s\<lparr>so_local_port := port\<rparr>) t)))"

definition sockets_bind :: "task_id \<Rightarrow> nat \<Rightarrow> u16 \<Rightarrow> sockets \<Rightarrow> (socket_error + u16) \<times> sockets" where
  "sockets_bind owner index port t =
     (if port = 0 then
        (case pick_ephemeral t of
           (Inl e, t) \<Rightarrow> (Inl e, t)
         | (Inr port, t) \<Rightarrow> bind_to owner index port t)
      else bind_to owner index port t)"

definition sockets_connect ::
  "task_id \<Rightarrow> nat \<Rightarrow> ipv4 \<Rightarrow> u16 \<Rightarrow> sockets \<Rightarrow> (socket_error + u16) \<times> sockets" where
  "sockets_connect owner index address port t =
     (case get_socket owner index t of
        Inl e \<Rightarrow> (Inl e, t)
      | Inr s \<Rightarrow>
          let t = put_socket index (s\<lparr>so_peer := Some (address, port)\<rparr>) t
          in if so_local_port s = 0 then sockets_bind owner index 0 t
             else (Inr (so_local_port s), t))"

definition socket_describe ::
  "task_id \<Rightarrow> nat \<Rightarrow> sockets \<Rightarrow>
   socket_error + u16 \<times> (ipv4 \<times> u16) option \<times> (ipv4 \<times> u16) option \<times> bool" where
  "socket_describe owner index t =
     (case get_socket owner index t of
        Inl e \<Rightarrow> Inl e
      | Inr s \<Rightarrow> Inr (so_local_port s, so_peer s, so_last_peer s, so_queue s \<noteq> []))"

definition socket_route :: "task_id \<Rightarrow> nat \<Rightarrow> sockets \<Rightarrow> socket_error + u16 \<times> ipv4 \<times> u16" where
  "socket_route owner index t =
     (case get_socket owner index t of
        Inl e \<Rightarrow> Inl e
      | Inr s \<Rightarrow>
          if so_local_port s = 0 then Inl NotBound
          else (case so_peer s of
                  None \<Rightarrow> Inl NoPeer
                | Some (address, port) \<Rightarrow> Inr (so_local_port s, address, port)))"

definition socket_take ::
  "task_id \<Rightarrow> nat \<Rightarrow> sockets \<Rightarrow> (socket_error + received option) \<times> sockets" where
  "socket_take owner index t =
     (case get_socket owner index t of
        Inl e \<Rightarrow> (Inl e, t)
      | Inr s \<Rightarrow>
          (case so_queue s of
             [] \<Rightarrow> (Inr None, t)
           | r # rest \<Rightarrow>
               (Inr (Some r),
                put_socket index
                  (s\<lparr>so_queue := rest, so_last_peer := Some (rv_from r, rv_port r)\<rparr>) t)))"

definition socket_last_peer :: "task_id \<Rightarrow> nat \<Rightarrow> sockets \<Rightarrow> socket_error + (ipv4 \<times> u16) option" where
  "socket_last_peer owner index t =
     (case get_socket owner index t of Inl e \<Rightarrow> Inl e | Inr s \<Rightarrow> Inr (so_last_peer s))"

definition sockets_close :: "task_id \<Rightarrow> nat \<Rightarrow> sockets \<Rightarrow> socket_error option \<times> sockets" where
  "sockets_close owner index t =
     (case get_socket owner index t of
        Inl e \<Rightarrow> (Some e, t)
      | Inr s \<Rightarrow> (None, t\<lparr>st_slots := (st_slots t)[index := None]\<rparr>))"

definition sockets_close_owner :: "task_id \<Rightarrow> sockets \<Rightarrow> nat \<times> sockets" where
  "sockets_close_owner owner t =
     (let mine = (\<lambda>s. case s of None \<Rightarrow> False | Some s \<Rightarrow> so_owner s = owner)
      in (length (filter mine (st_slots t)),
          t\<lparr>st_slots := map (\<lambda>s. if mine s then None else s) (st_slots t)\<rparr>))"

definition sockets_deliver ::
  "u16 \<Rightarrow> ipv4 \<Rightarrow> u16 \<Rightarrow> u8 list \<Rightarrow> sockets \<Rightarrow> bool \<times> sockets" where
  "sockets_deliver port from from_port data t =
     (case position (\<lambda>s. case s of None \<Rightarrow> False | Some s \<Rightarrow> so_local_port s = port) (st_slots t) of
        None \<Rightarrow> (False, t)
      | Some index \<Rightarrow>
          let s = the (st_slots t ! index) in
          if QUEUE_DEPTH \<le> length (so_queue s)
          then (True, put_socket index (s\<lparr>so_dropped := so_dropped s + 1\<rparr>) t)
          else (True, put_socket index
                  (s\<lparr>so_queue := so_queue s @
                     [\<lparr>rv_from = from, rv_port = from_port, rv_data = data\<rparr>]\<rparr>) t))"

definition sockets_stats :: "sockets \<Rightarrow> nat \<times> nat" where
  "sockets_stats t =
     (let live = List.map_filter id (st_slots t)
      in (length live, sum_list (map so_dropped live)))"


section \<open>Looking sockets up\<close>

definition sock_at :: "nat \<Rightarrow> sockets \<Rightarrow> sock option" where
  "sock_at i t = (if i < length (st_slots t) then st_slots t ! i else None)"

lemma get_socket_iff: "get_socket owner i t = Inr s \<longleftrightarrow> sock_at i t = Some s \<and> so_owner s = owner"
  by (auto simp: get_socket_def sock_at_def split: option.splits)

lemma get_socket_error: "get_socket owner i t = Inl e \<Longrightarrow> e = BadSocket"
  by (auto simp: get_socket_def split: option.splits if_splits)

lemma get_socket_cases:
  obtains "get_socket owner i t = Inl BadSocket"
  | s where "get_socket owner i t = Inr s" "sock_at i t = Some s" "so_owner s = owner"
  using get_socket_iff get_socket_error by (cases "get_socket owner i t") blast+

lemma sock_at_put [simp]:
  "sock_at i (put_socket j s t) = (if i = j \<and> j < length (st_slots t) then Some s else sock_at i t)"
  by (auto simp: sock_at_def put_socket_def)

lemma length_put [simp]: "length (st_slots (put_socket j s t)) = length (st_slots t)"
  by (simp add: put_socket_def)

lemma next_put [simp]: "st_next (put_socket j s t) = st_next t"
  by (simp add: put_socket_def)

lemma sock_at_next [simp]: "sock_at i (t\<lparr>st_next := n\<rparr>) = sock_at i t"
  by (simp add: sock_at_def)

lemma sock_at_len: "sock_at i t = Some s \<Longrightarrow> i < length (st_slots t)"
  by (auto simp: sock_at_def split: if_splits)

lemma port_used_iff: "port_used p (st_slots t) \<longleftrightarrow> (\<exists>i s. sock_at i t = Some s \<and> so_local_port s = p)"
proof
  assume "port_used p (st_slots t)"
  then obtain x where x: "x \<in> set (st_slots t)" "case x of None \<Rightarrow> False | Some s \<Rightarrow> so_local_port s = p"
    by (auto simp: port_used_def list_ex_iff)
  then show "\<exists>i s. sock_at i t = Some s \<and> so_local_port s = p"
    by (auto simp: in_set_conv_nth sock_at_def split: option.splits)
next
  assume "\<exists>i s. sock_at i t = Some s \<and> so_local_port s = p"
  then obtain i s where "sock_at i t = Some s" "so_local_port s = p" by blast
  then have "Some s \<in> set (st_slots t)"
    by (auto simp: sock_at_def in_set_conv_nth split: if_splits)
  then show "port_used p (st_slots t)"
    using \<open>so_local_port s = p\<close> by (force simp: port_used_def list_ex_iff)
qed

lemma other_port_iff:
  "list_ex (\<lambda>(i, s). i \<noteq> index \<and> (case s of None \<Rightarrow> False | Some s \<Rightarrow> so_local_port s = port))
     (enumerate 0 (st_slots t)) \<longleftrightarrow>
   (\<exists>i s. i \<noteq> index \<and> sock_at i t = Some s \<and> so_local_port s = port)"
  unfolding list_ex_iff
  by (force simp: in_set_enumerate_eq sock_at_def split: option.splits if_splits)

section \<open>The ring of ephemeral ports\<close>

lemma unat_next_port:
  "EPHEMERAL_FIRST \<le> p \<Longrightarrow>
   unat (next_port p) = 49152 + (unat p - 49152 + 1) mod 16384 \<and> EPHEMERAL_FIRST \<le> next_port p"
proof -
  assume p: "EPHEMERAL_FIRST \<le> p"
  then have l: "49152 \<le> unat p"
    by (simp add: EPHEMERAL_FIRST_def word_le_nat_alt)
  show ?thesis
  proof (cases "p = 0xFFFF")
    case True
    then show ?thesis by (simp add: next_port_def EPHEMERAL_FIRST_def)
  next
    case False
    then have "unat p \<noteq> 65535" by (auto simp: word_unat_eq_iff)
    then have u: "unat p + 1 < 65536"
      using unat_u16 [of p] by linarith
    then have s: "unat (p + 1) = unat p + 1"
      by (simp add: unat_word_ariths)
    moreover have "(unat p - 49152 + 1) mod 16384 = unat p - 49152 + 1"
      using u l by simp
    ultimately show ?thesis
      using False l by (simp add: next_port_def EPHEMERAL_FIRST_def word_le_nat_alt)
  qed
qed

lemma ring_iterate:
  assumes "EPHEMERAL_FIRST \<le> p"
  shows "unat ((next_port ^^ k) p) = 49152 + (unat p - 49152 + k) mod 16384 \<and>
    EPHEMERAL_FIRST \<le> (next_port ^^ k) p"
proof (induction k)
  case 0
  have "49152 \<le> unat p" using assms by (simp add: EPHEMERAL_FIRST_def word_le_nat_alt)
  moreover have "(unat p - 49152) mod 16384 = unat p - 49152"
    using unat_u16 [of p] by simp
  ultimately show ?case using assms by simp
next
  case (Suc k)
  then show ?case
    using unat_next_port [of "(next_port ^^ k) p"] by (simp add: mod_Suc_eq)
qed

lemma ring_inj: "EPHEMERAL_FIRST \<le> p \<Longrightarrow> inj_on (\<lambda>k. (next_port ^^ k) p) {..<16384}"
proof (rule inj_onI)
  fix i j
  assume p: "EPHEMERAL_FIRST \<le> p" and ij: "i \<in> {..<16384}" "j \<in> {..<16384}"
    and eq: "(next_port ^^ i) p = (next_port ^^ j) p"
  have "(unat p - 49152 + i) mod 16384 = (unat p - 49152 + j) mod 16384"
    using ring_iterate [OF p, of i] ring_iterate [OF p, of j] eq by simp
  then have "i mod 16384 = j mod 16384"
    using nat_mod_eq_iff by (auto simp: mod_add_cong nat_mod_eq_iff)
  then show "i = j" using ij by simp
qed

lemma pick_loop_Inr:
  "pick_loop n t = (Inr port, t') \<Longrightarrow> EPHEMERAL_FIRST \<le> st_next t \<Longrightarrow>
   \<not> port_used port (st_slots t) \<and> EPHEMERAL_FIRST \<le> port \<and> EPHEMERAL_FIRST \<le> st_next t' \<and>
   st_slots t' = st_slots t"
proof (induction n arbitrary: t)
  case (Suc n)
  have "EPHEMERAL_FIRST \<le> next_port (st_next t)"
    using unat_next_port [OF Suc.prems(2)] by simp
  then show ?case
    using Suc.IH [of "t\<lparr>st_next := next_port (st_next t)\<rparr>"] Suc.prems
    by (auto simp: Let_def split: if_splits)
qed simp

lemma pick_loop_Inl:
  "pick_loop n t = (Inl e, t') \<Longrightarrow>
   e = NoPort \<and> (\<forall>k<n. port_used ((next_port ^^ k) (st_next t)) (st_slots t))"
proof (induction n arbitrary: t)
  case (Suc n)
  have used: "port_used (st_next t) (st_slots t)"
    and rest: "pick_loop n (t\<lparr>st_next := next_port (st_next t)\<rparr>) = (Inl e, t')"
    using Suc.prems by (auto simp: Let_def split: if_splits)
  have "port_used ((next_port ^^ k) (st_next t)) (st_slots t)" if "k < Suc n" for k
    using that used Suc.IH [OF rest] by (cases k) (simp_all add: funpow_swap1)
  then show ?case using Suc.IH [OF rest] by blast
qed simp

lemma used_ports_card: "card {p. port_used p slots} \<le> length slots"
proof -
  have "{p. port_used p slots} \<subseteq> (\<lambda>s. so_local_port (the s)) ` set slots"
    by (force simp: port_used_def list_ex_iff split: option.splits)
  then have "card {p. port_used p slots} \<le> card ((\<lambda>s. so_local_port (the s)) ` set slots)"
    by (rule card_mono [rotated]) simp
  also have "\<dots> \<le> card (set slots)" by (rule card_image_le) simp
  also have "\<dots> \<le> length slots" by (rule card_length)
  finally show ?thesis .
qed

lemma pick_tries: "unat ((0xFFFF :: u16) - EPHEMERAL_FIRST) + 1 = 16384"
  by (simp add: EPHEMERAL_FIRST_def)

lemma pick_ephemeral_finds:
  assumes "EPHEMERAL_FIRST \<le> st_next t" and "length (st_slots t) \<le> MAX_SOCKETS"
  obtains port t' where "pick_ephemeral t = (Inr port, t')" "\<not> port_used port (st_slots t)"
    "EPHEMERAL_FIRST \<le> port" "EPHEMERAL_FIRST \<le> st_next t'" "st_slots t' = st_slots t"
proof -
  obtain r t' where r: "pick_loop 16384 t = (r, t')" by fastforce
  show thesis
  proof (cases r)
    case (Inl e)
    have "(\<lambda>k. (next_port ^^ k) (st_next t)) ` {..<16384} \<subseteq> {p. port_used p (st_slots t)}"
      using pick_loop_Inl [OF r [unfolded Inl]] by auto
    then have "card ((\<lambda>k. (next_port ^^ k) (st_next t)) ` {..<16384}) \<le> card {p. port_used p (st_slots t)}"
      by (rule card_mono [rotated]) simp
    then have "16384 \<le> length (st_slots t)"
      using used_ports_card [of "st_slots t"] card_image [OF ring_inj [OF assms(1)]] by simp
    then show thesis using assms(2) by (simp add: MAX_SOCKETS_def)
  next
    case (Inr port)
    have "pick_ephemeral t = (Inr port, t')"
      using r unfolding pick_ephemeral_def pick_tries Inr .
    then show thesis
      using that pick_loop_Inr [OF r [unfolded Inr] assms(1)] by blast
  qed
qed

section \<open>The invariant of the table\<close>

definition sockets_ok :: "sockets \<Rightarrow> bool" where
  "sockets_ok t \<longleftrightarrow> length (st_slots t) = MAX_SOCKETS \<and> EPHEMERAL_FIRST \<le> st_next t \<and>
     (\<forall>i s. sock_at i t = Some s \<longrightarrow> length (so_queue s) \<le> QUEUE_DEPTH) \<and>
     (\<forall>i j s r. sock_at i t = Some s \<and> sock_at j t = Some r \<and> so_local_port s \<noteq> 0 \<and>
        so_local_port s = so_local_port r \<longrightarrow> i = j)"

lemma sockets_ok_new [inv_intros]: "sockets_ok sockets_new"
  by (auto simp: sockets_ok_def sockets_new_def sock_at_def split: if_splits)

lemma sockets_okD:
  assumes "sockets_ok t"
  shows "length (st_slots t) = MAX_SOCKETS" and "EPHEMERAL_FIRST \<le> st_next t"
    and "sock_at i t = Some s \<Longrightarrow> length (so_queue s) \<le> QUEUE_DEPTH"
    and "sock_at i t = Some s \<Longrightarrow> sock_at j t = Some r \<Longrightarrow> so_local_port s = so_local_port r \<Longrightarrow>
      so_local_port s \<noteq> 0 \<Longrightarrow> i = j"
  using assms unfolding sockets_ok_def by blast+

lemma sockets_okI:
  assumes "length (st_slots t) = MAX_SOCKETS" and "EPHEMERAL_FIRST \<le> st_next t"
    and "\<And>i s. sock_at i t = Some s \<Longrightarrow> length (so_queue s) \<le> QUEUE_DEPTH"
    and "\<And>i j s r. sock_at i t = Some s \<Longrightarrow> sock_at j t = Some r \<Longrightarrow>
      so_local_port s = so_local_port r \<Longrightarrow> so_local_port s \<noteq> 0 \<Longrightarrow> i = j"
  shows "sockets_ok t"
  using assms unfolding sockets_ok_def by blast

lemma sockets_ok_put:
  assumes ok: "sockets_ok t" and q: "length (so_queue s) \<le> QUEUE_DEPTH"
    and p: "\<And>j r. j \<noteq> i \<Longrightarrow> sock_at j t = Some r \<Longrightarrow> so_local_port s \<noteq> 0 \<Longrightarrow>
      so_local_port r \<noteq> so_local_port s"
  shows "sockets_ok (put_socket i s t)"
proof (rule sockets_okI)
  fix j k r u
  assume *: "sock_at j (put_socket i s t) = Some r" "sock_at k (put_socket i s t) = Some u"
    "so_local_port r = so_local_port u" "so_local_port r \<noteq> 0"
  show "j = k"
  proof (rule ccontr)
    assume "j \<noteq> k"
    then consider "j = i" "k \<noteq> i" | "k = i" "j \<noteq> i" | "j \<noteq> i" "k \<noteq> i" by blast
    then show False
    proof cases
      case 1
      then show False using * p [of k u] by (auto split: if_splits dest: sock_at_len)
    next
      case 2
      then show False using * p [of j r] by (auto split: if_splits dest: sock_at_len)
    next
      case 3
      then show False
        using * sockets_okD(4) [OF ok, of j r k u] \<open>j \<noteq> k\<close> by simp
    qed
  qed
qed (use sockets_okD [OF ok] q in \<open>auto split: if_splits\<close>)

lemma sockets_ok_same_port:
  assumes ok: "sockets_ok t" and s: "sock_at i t = Some s" and p: "so_local_port s' = so_local_port s"
    and q: "length (so_queue s') \<le> QUEUE_DEPTH"
  shows "sockets_ok (put_socket i s' t)"
proof (rule sockets_ok_put [OF ok q])
  fix j r
  assume "j \<noteq> i" "sock_at j t = Some r" "so_local_port s' \<noteq> 0"
  then show "so_local_port r \<noteq> so_local_port s'"
    using sockets_okD(4) [OF ok s, of j r] p by metis
qed

lemma sockets_ok_next:
  assumes ok: "sockets_ok t" and s: "st_slots t' = st_slots t" and "EPHEMERAL_FIRST \<le> st_next t'"
  shows "sockets_ok t'"
proof -
  have "sock_at i t' = sock_at i t" for i by (simp add: sock_at_def s)
  then show ?thesis using assms by (simp add: sockets_ok_def)
qed

lemma sockets_ok_drop:
  assumes ok: "sockets_ok t" and l: "length slots = length (st_slots t)"
    and d: "\<And>i. i < length slots \<Longrightarrow> slots ! i = None \<or> slots ! i = st_slots t ! i"
  shows "sockets_ok (t\<lparr>st_slots := slots\<rparr>)"
proof -
  have sub: "sock_at i t = Some s" if "sock_at i (t\<lparr>st_slots := slots\<rparr>) = Some s" for i s
    using that d [of i] l by (auto simp: sock_at_def split: if_splits)
  show ?thesis
    by (rule sockets_okI)
      (use sockets_okD [OF ok] l sub in \<open>auto dest: sub\<close>)
qed

lemma sock_at_index: "position (\<lambda>s. s = None) (st_slots t) = Some i \<Longrightarrow> i < length (st_slots t) \<and> sock_at i t = None"
  using position_SomeD by (fastforce simp: sock_at_def)

lemma sockets_ok_open [inv_intros]: "sockets_ok t \<Longrightarrow> sockets_ok (snd (sockets_open owner t))"
  by (auto simp: sockets_open_def put_socket_def [symmetric] intro!: sockets_ok_put split: option.split)

lemma bind_to_cases:
  assumes "bind_to owner i port t = (r, t')"
  obtains e where "r = Inl e" "t' = t"
    "e = SockPortTaken port \<and> (\<exists>j s. j \<noteq> i \<and> sock_at j t = Some s \<and> so_local_port s = port) \<or> e = BadSocket"
  | s where "r = Inr port" "sock_at i t = Some s" "so_owner s = owner"
    "t' = put_socket i (s\<lparr>so_local_port := port\<rparr>) t"
    "\<And>j u. j \<noteq> i \<Longrightarrow> sock_at j t = Some u \<Longrightarrow> so_local_port u \<noteq> port"
proof (cases "\<exists>j s. j \<noteq> i \<and> sock_at j t = Some s \<and> so_local_port s = port")
  case True
  then have "bind_to owner i port t = (Inl (SockPortTaken port), t)"
    unfolding bind_to_def other_port_iff by simp
  then have "r = Inl (SockPortTaken port)" "t' = t" using assms by simp_all
  then show thesis using that(1) [of "SockPortTaken port"] True by blast
next
  case False
  then have b: "bind_to owner i port t = (case get_socket owner i t of Inl e \<Rightarrow> (Inl e, t)
      | Inr s \<Rightarrow> (Inr port, put_socket i (s\<lparr>so_local_port := port\<rparr>) t))"
    unfolding bind_to_def other_port_iff by (rule if_not_P)
  show thesis
    by (cases rule: get_socket_cases [of owner i t]) (use that b assms False in auto)
qed

lemma sockets_ok_bind_to: "sockets_ok t \<Longrightarrow> sockets_ok (snd (bind_to owner i port t))"
proof -
  assume ok: "sockets_ok t"
  obtain r t' where b: "bind_to owner i port t = (r, t')" by fastforce
  show ?thesis
  proof (cases rule: bind_to_cases [OF b])
    case (2 s)
    then show ?thesis
      unfolding b using sockets_okD(3) [OF ok] by (auto intro!: sockets_ok_put [OF ok])
  qed (simp add: b ok)
qed

lemma sockets_ok_pick [inv_intros]: "sockets_ok t \<Longrightarrow> sockets_ok (snd (pick_ephemeral t))"
proof -
  assume ok: "sockets_ok t"
  obtain port t' where "pick_ephemeral t = (Inr port, t')" "st_slots t' = st_slots t" "EPHEMERAL_FIRST \<le> st_next t'"
    by (rule pick_ephemeral_finds [of t]) (use sockets_okD [OF ok] in auto)
  then show ?thesis using sockets_ok_next [OF ok] by simp
qed

lemma sockets_ok_bind [inv_intros]: "sockets_ok t \<Longrightarrow> sockets_ok (snd (sockets_bind owner i port t))"
proof -
  assume ok: "sockets_ok t"
  obtain r t1 where p: "pick_ephemeral t = (r, t1)" by fastforce
  show ?thesis
    using sockets_ok_bind_to [OF ok] sockets_ok_pick [OF ok] sockets_ok_bind_to [of t1]
    by (simp add: sockets_bind_def p split: sum.split)
qed

lemma sockets_ok_connect [inv_intros]:
  "sockets_ok t \<Longrightarrow> sockets_ok (snd (sockets_connect owner i address port t))"
proof -
  assume ok: "sockets_ok t"
  show ?thesis
  proof (cases rule: get_socket_cases [of owner i t])
    case (2 s)
    have "sockets_ok (put_socket i (s\<lparr>so_peer := Some (address, port)\<rparr>) t)"
      by (rule sockets_ok_same_port [OF ok 2(2)]) (use sockets_okD(3) [OF ok 2(2)] in auto)
    then show ?thesis
      using sockets_ok_bind by (simp add: sockets_connect_def 2 Let_def)
  qed (simp add: sockets_connect_def ok)
qed

lemma sockets_ok_take [inv_intros]: "sockets_ok t \<Longrightarrow> sockets_ok (snd (socket_take owner i t))"
proof -
  assume ok: "sockets_ok t"
  show ?thesis
  proof (cases rule: get_socket_cases [of owner i t])
    case (2 s)
    show ?thesis
    proof (cases "so_queue s")
      case (Cons x rest)
      then have "length rest \<le> QUEUE_DEPTH" using sockets_okD(3) [OF ok 2(2)] by simp
      then show ?thesis
        using sockets_ok_same_port [OF ok 2(2)] by (simp add: socket_take_def 2 Cons)
    qed (simp add: socket_take_def 2 ok)
  qed (simp add: socket_take_def ok)
qed

lemma set_none: "j < length xs \<Longrightarrow> xs[i := None] ! j = None \<or> xs[i := None] ! j = xs ! j"
  by (cases "i = j") auto

lemma sockets_ok_close [inv_intros]: "sockets_ok t \<Longrightarrow> sockets_ok (snd (sockets_close owner i t))"
  by (auto simp: sockets_close_def intro!: sockets_ok_drop split: sum.split dest: set_none)

lemma sockets_ok_close_owner [inv_intros]:
  "sockets_ok t \<Longrightarrow> sockets_ok (snd (sockets_close_owner owner t))"
  by (auto simp: sockets_close_owner_def Let_def intro!: sockets_ok_drop)

lemma deliver_cases:
  assumes "sockets_deliver port from fp data t = (b, t')"
  obtains "\<not> b" "t' = t" "\<And>i s. sock_at i t = Some s \<Longrightarrow> so_local_port s \<noteq> port"
  | i s where "b" "sock_at i t = Some s" "so_local_port s = port"
    "QUEUE_DEPTH \<le> length (so_queue s)" "t' = put_socket i (s\<lparr>so_dropped := so_dropped s + 1\<rparr>) t"
  | i s where "b" "sock_at i t = Some s" "so_local_port s = port" "length (so_queue s) < QUEUE_DEPTH"
    "t' = put_socket i (s\<lparr>so_queue := so_queue s @
       [\<lparr>rv_from = from, rv_port = fp, rv_data = data\<rparr>]\<rparr>) t"
proof (cases "position (\<lambda>s. case s of None \<Rightarrow> False | Some s \<Rightarrow> so_local_port s = port) (st_slots t)")
  case None
  have "so_local_port s \<noteq> port" if "sock_at i t = Some s" for i s
  proof -
    have "Some s \<in> set (st_slots t)" using that by (auto simp: sock_at_def in_set_conv_nth split: if_splits)
    then show ?thesis using None by (auto simp: rust_simps)
  qed
  then show thesis using that(1) assms None by (auto simp: sockets_deliver_def)
next
  case (Some i)
  then obtain s where s: "sock_at i t = Some s" "so_local_port s = port" "st_slots t ! i = Some s"
    by (auto dest!: position_SomeD simp: sock_at_def split: option.splits)
  show thesis
  proof (cases "QUEUE_DEPTH \<le> length (so_queue s)")
    case True
    then show thesis using that(2) [of i s] assms s Some by (simp add: sockets_deliver_def)
  next
    case False
    then show thesis using that(3) [of i s] assms s Some by (simp add: sockets_deliver_def)
  qed
qed

lemma sockets_ok_deliver [inv_intros]:
  "sockets_ok t \<Longrightarrow> sockets_ok (snd (sockets_deliver port from fp data t))"
proof -
  assume ok: "sockets_ok t"
  obtain b t' where d: "sockets_deliver port from fp data t = (b, t')" by fastforce
  show ?thesis
    by (cases rule: deliver_cases [OF d])
      (use ok d sockets_ok_same_port [OF ok] sockets_okD(3) [OF ok] in auto)
qed

section \<open>Runs of the table\<close>

datatype socket_op =
  SOpen task_id
| SBind task_id nat u16
| SConnect task_id nat ipv4 u16
| STake task_id nat
| SClose task_id nat
| SCloseOwner task_id
| SDeliver u16 ipv4 u16 "u8 list"
| SPick

fun socket_step :: "socket_op \<Rightarrow> sockets \<Rightarrow> sockets" where
  "socket_step (SOpen owner) t = snd (sockets_open owner t)"
| "socket_step (SBind owner i port) t = snd (sockets_bind owner i port t)"
| "socket_step (SConnect owner i address port) t = snd (sockets_connect owner i address port t)"
| "socket_step (STake owner i) t = snd (socket_take owner i t)"
| "socket_step (SClose owner i) t = snd (sockets_close owner i t)"
| "socket_step (SCloseOwner owner) t = snd (sockets_close_owner owner t)"
| "socket_step (SDeliver port from fp data) t = snd (sockets_deliver port from fp data t)"
| "socket_step SPick t = snd (pick_port t)"

lemma sockets_ok_step: "sockets_ok t \<Longrightarrow> sockets_ok (socket_step op t)"
  by (cases op) (auto simp: pick_port_def intro: inv_intros)

lemma sockets_ok_run: "sockets_ok t \<Longrightarrow> sockets_ok (fold socket_step ops t)"
  by (induction ops arbitrary: t) (simp_all add: sockets_ok_step)

interpretation udp: owned_slots sock_at so_owner get_socket BadSocket sockets_close_owner "\<lambda>t. True"
proof unfold_locales
  fix i t s and own :: task_id
  note close = sockets_close_owner_def Let_def sock_at_def
  show "sock_at i t = None \<Longrightarrow> sock_at i (snd (sockets_close_owner own t)) = None"
    by (auto simp: close split: if_splits option.splits)
  assume s: "sock_at i t = Some s"
  show "so_owner s = own \<Longrightarrow> sock_at i (snd (sockets_close_owner own t)) = None"
    using s by (auto simp: close split: if_splits)
  show "so_owner s \<noteq> own \<Longrightarrow>
      \<exists>s'. sock_at i (snd (sockets_close_owner own t)) = Some s' \<and> so_owner s' = so_owner s"
    using s by (auto simp: close split: if_splits)
qed (auto simp: get_socket_iff dest: get_socket_error)

text \<open>What a datagram for a port does to a table with one socket per port.\<close>

definition delivered_to :: "u16 \<Rightarrow> received \<Rightarrow> sockets \<Rightarrow> sockets \<Rightarrow> bool" where
  "delivered_to port r t t' \<longleftrightarrow>
     (\<forall>j s. sock_at j t = Some s \<longrightarrow> sock_at j t' = Some
        (if so_local_port s \<noteq> port then s
         else if length (so_queue s) < QUEUE_DEPTH then s\<lparr>so_queue := so_queue s @ [r]\<rparr>
         else s\<lparr>so_dropped := so_dropped s + 1\<rparr>)) \<and>
     (\<forall>j. sock_at j t = None \<longrightarrow> sock_at j t' = None)"

lemma sockets_deliver_table:
  assumes ok: "sockets_ok t" and "port \<noteq> 0"
  shows "delivered_to port \<lparr>rv_from = from, rv_port = fp, rv_data = data\<rparr> t (snd (sockets_deliver port from fp data t)) \<and>
    (fst (sockets_deliver port from fp data t) \<longleftrightarrow> (\<exists>j s. sock_at j t = Some s \<and> so_local_port s = port))"
proof -
  let ?r = "\<lparr>rv_from = from, rv_port = fp, rv_data = data\<rparr>"
  obtain b t' where d: "sockets_deliver port from fp data t = (b, t')" by fastforce
  have put: "delivered_to port ?r t t'"
    if i: "sock_at i t = Some s" "so_local_port s = port" and t': "t' = put_socket i
      (if length (so_queue s) < QUEUE_DEPTH then s\<lparr>so_queue := so_queue s @ [?r]\<rparr> else s\<lparr>so_dropped := so_dropped s + 1\<rparr>) t"
    for i s
  proof -
    have other: "so_local_port r \<noteq> port" if "j \<noteq> i" "sock_at j t = Some r" for j r
      using sockets_okD(4) [OF ok i(1) that(2)] that(1) i(2) assms(2) by metis
    have "i < length (st_slots t)"
      using i(1) by (simp add: sock_at_def split: if_splits)
    then have at: "sock_at j t' = (if j = i then Some (if length (so_queue s) < QUEUE_DEPTH
        then s\<lparr>so_queue := so_queue s @ [?r]\<rparr> else s\<lparr>so_dropped := so_dropped s + 1\<rparr>) else sock_at j t)" for j
      unfolding t' sock_at_put by simp
    show ?thesis
      unfolding delivered_to_def
    proof (intro conjI allI impI)
      fix j u assume u: "sock_at j t = Some u"
      show "sock_at j t' = Some (if so_local_port u \<noteq> port then u
         else if length (so_queue u) < QUEUE_DEPTH then u\<lparr>so_queue := so_queue u @ [?r]\<rparr>
         else u\<lparr>so_dropped := so_dropped u + 1\<rparr>)"
        by (cases "j = i") (use i u other [OF _ u] in \<open>simp_all add: at\<close>)
    next
      fix j assume "sock_at j t = None"
      then show "sock_at j t' = None" using i(1) by (auto simp: at)
    qed
  qed
  show ?thesis
  proof (cases rule: deliver_cases [OF d])
    case 1
    then have "delivered_to port ?r t t'" by (simp add: delivered_to_def)
    then show ?thesis using 1(1,3) by (auto simp: d)
  next
    case (2 i s)
    then have "delivered_to port ?r t t'" using put [OF 2(2,3)] by simp
    then show ?thesis using 2(1-3) by (auto simp: d)
  next
    case (3 i s)
    then have "delivered_to port ?r t t'" using put [OF 3(2,3)] by simp
    then show ?thesis using 3(1-3) by (auto simp: d)
  qed
qed

section \<open>Properties\<close>

text \<open>
  C31. A datagram reaches exactly the socket bound to its port.  In every table that operations
  can lead to, no two sockets share a port, so a datagram for the (non-zero) port of a socket is
  put at the end of that socket's queue and nothing else changes; and when eight datagrams are
  already waiting it is the new one that is dropped, and counted.
\<close>

theorem udp_delivery:
  assumes t: "t = fold socket_step ops sockets_new"
    and s: "sock_at i t = Some s" and p: "so_local_port s = port" "port \<noteq> 0"
  shows "length (so_queue s) \<le> QUEUE_DEPTH \<and>
    sockets_deliver port from fp data t =
      (True, put_socket i
        (if length (so_queue s) < QUEUE_DEPTH
         then s\<lparr>so_queue := so_queue s @ [\<lparr>rv_from = from, rv_port = fp, rv_data = data\<rparr>]\<rparr>
         else s\<lparr>so_dropped := so_dropped s + 1\<rparr>) t)"
proof -
  have ok: "sockets_ok t"
    unfolding t by (rule sockets_ok_run [OF sockets_ok_new])
  have q: "length (so_queue s) \<le> QUEUE_DEPTH"
    using ok s by (rule sockets_okD(3))
  have uniq: "j = i \<and> r = s" if "sock_at j t = Some r" "so_local_port r = port" for j r
    using sockets_okD(4) [OF ok that(1) s] that p s by simp
  obtain b t' where d: "sockets_deliver port from fp data t = (b, t')" by fastforce
  show ?thesis
  proof (cases rule: deliver_cases [OF d])
    case 1
    then show ?thesis using s p by blast
  next
    case (2 j r)
    then show ?thesis using uniq [OF 2(2,3)] d q by simp
  next
    case (3 j r)
    then show ?thesis using uniq [OF 3(2,3)] d q by simp
  qed
qed

theorem udp_delivery_witness:
  "fst (sockets_deliver 53 1 2 [9] (fold socket_step [SOpen 7, SBind 7 0 53] sockets_new))"
proof -
  have "sock_at 0 (fold socket_step [SOpen 7, SBind 7 0 53] sockets_new) =
      Some \<lparr>so_owner = 7, so_local_port = 53, so_peer = None, so_queue = [], so_last_peer = None,
            so_dropped = 0\<rparr>"
    by code_simp
  from udp_delivery [OF refl this, of 53 1 2 "[9]"] show ?thesis by simp
qed

text \<open>
  C32. Asking for any port never fails.  With the table's 64 sockets the ring of 16384 ephemeral
  ports always has a free one: a bind to port 0 gives the caller's socket a port from 49152 up
  that no other socket has, and leaves every other socket as it was.
\<close>

theorem udp_bind_any:
  assumes t: "t = fold socket_step ops sockets_new"
    and s: "sock_at i t = Some s" and o: "so_owner s = own"
  shows "\<exists>port t'. sockets_bind own i 0 t = (Inr port, t') \<and> EPHEMERAL_FIRST \<le> port \<and>
      sock_at i t' = Some (s\<lparr>so_local_port := port\<rparr>) \<and>
      (\<forall>j r. j \<noteq> i \<and> sock_at j t = Some r \<longrightarrow> so_local_port r \<noteq> port \<and> sock_at j t' = Some r)"
proof -
  have ok: "sockets_ok t"
    unfolding t by (rule sockets_ok_run [OF sockets_ok_new])
  obtain port t1 where p: "pick_ephemeral t = (Inr port, t1)" "\<not> port_used port (st_slots t)"
      "EPHEMERAL_FIRST \<le> port" "st_slots t1 = st_slots t"
    by (rule pick_ephemeral_finds [of t]) (use sockets_okD [OF ok] in auto)
  have at: "sock_at j t1 = sock_at j t" for j
    using p(4) by (simp add: sock_at_def)
  have free: "so_local_port r \<noteq> port" if "sock_at j t = Some r" for j r
    using p(2) that unfolding port_used_iff by blast
  obtain x t' where b: "bind_to own i port t1 = (x, t')" by fastforce
  have g: "get_socket own i t1 = Inr s"
    using s o at by (simp add: get_socket_iff)
  have "bind_to own i port t1 = (Inr port, put_socket i (s\<lparr>so_local_port := port\<rparr>) t1)"
    unfolding bind_to_def other_port_iff using free at g by auto
  then have "sockets_bind own i 0 t = (Inr port, put_socket i (s\<lparr>so_local_port := port\<rparr>) t1)"
    by (simp add: sockets_bind_def p(1))
  moreover have "i < length (st_slots t1)"
    using sock_at_len [OF s] p(4) by simp
  ultimately show ?thesis
    using p(3) free at by auto
qed

theorem udp_bind_any_witness:
  "\<exists>port t'. sockets_bind 7 0 0 (fold socket_step [SOpen 7] sockets_new) = (Inr port, t') \<and>
     EPHEMERAL_FIRST \<le> port"
proof -
  have "sock_at 0 (fold socket_step [SOpen 7] sockets_new) =
      Some \<lparr>so_owner = 7, so_local_port = 0, so_peer = None, so_queue = [], so_last_peer = None,
            so_dropped = 0\<rparr>"
    by code_simp
  from udp_bind_any [OF refl this, of 7] show ?thesis by auto
qed

fun op_owner :: "socket_op \<Rightarrow> task_id option" where
  "op_owner (SOpen owner) = Some owner"
| "op_owner (SBind owner i port) = Some owner"
| "op_owner (SConnect owner i address port) = Some owner"
| "op_owner (STake owner i) = Some owner"
| "op_owner (SClose owner i) = Some owner"
| "op_owner (SCloseOwner owner) = Some owner"
| "op_owner _ = None"

lemma bind_to_isolates:
  assumes "sock_at i t = Some s" and "so_owner s \<noteq> own"
  shows "sock_at i (snd (bind_to own j port t)) = Some s"
proof -
  obtain r t' where b: "bind_to own j port t = (r, t')" by fastforce
  show ?thesis
    by (cases rule: bind_to_cases [OF b]) (use assms b in auto)
qed

lemma bind_isolates:
  assumes "sock_at i t = Some s" and "so_owner s \<noteq> own" and "sockets_ok t"
  shows "sock_at i (snd (sockets_bind own j port t)) = Some s"
proof -
  obtain p t1 where p: "pick_ephemeral t = (Inr p, t1)" "st_slots t1 = st_slots t"
    by (rule pick_ephemeral_finds [of t]) (use sockets_okD [OF assms(3)] in auto)
  have "sock_at i t1 = sock_at i t"
    by (simp add: sock_at_def p(2))
  with assms(1) have "sock_at i t1 = Some s" by simp
  then show ?thesis
    using bind_to_isolates assms by (simp add: sockets_bind_def p)
qed

lemma step_isolates:
  assumes s: "sock_at i t = Some s" and o: "op_owner op = Some own" "so_owner s \<noteq> own" and ok: "sockets_ok t"
  shows "sock_at i (socket_step op t) = Some s"
proof (cases op)
  case (SOpen w)
  show ?thesis
    using s by (auto simp: SOpen sockets_open_def put_socket_def [symmetric] dest: sock_at_index split: option.split)
next
  case (SBind w j port)
  then show ?thesis using bind_isolates [OF s _ ok] o by simp
next
  case (SConnect w j address port)
  then have w: "w = own" using o by simp
  show ?thesis
  proof (cases rule: get_socket_cases [of own j t])
    case (2 r)
    have ok': "sockets_ok (put_socket j (r\<lparr>so_peer := Some (address, port)\<rparr>) t)"
      by (rule sockets_ok_same_port [OF ok 2(2)]) (use sockets_okD(3) [OF ok 2(2)] in auto)
    have "i \<noteq> j" using s 2 o by auto
    then have "sock_at i (put_socket j (r\<lparr>so_peer := Some (address, port)\<rparr>) t) = Some s"
      using s by simp
    then show ?thesis
      using bind_isolates [OF _ o(2) ok'] by (simp add: SConnect w sockets_connect_def 2 Let_def)
  qed (simp add: SConnect w sockets_connect_def s)
next
  case (STake w j)
  then show ?thesis
    by (cases rule: get_socket_cases [of own j t])
      (use s o in \<open>auto simp: socket_take_def split: list.split\<close>)
next
  case (SClose w j)
  then show ?thesis
    by (cases rule: get_socket_cases [of own j t])
      (use s o in \<open>auto simp: sockets_close_def sock_at_def nth_list_update split: if_splits\<close>)
next
  case (SCloseOwner w)
  then show ?thesis
    using s o by (auto simp: sockets_close_owner_def Let_def sock_at_def split: if_splits)
qed (use o in auto)

text \<open>
  C33. A socket is changed and read by its owner alone.  Whatever a task does to the table (open,
  bind, connect, take, close, close all), the sockets of the other tasks stay exactly as they are:
  its port, its queue, its peer; to describe, route from, take from, connect or close another
  task's socket answers \<open>BadSocket\<close>, and none of these calls changes the table; and after the task
  has ended none of its sockets is left.  What another task's sockets are is not hidden from a
  bind: it is refused the port that one of them has, and tells the number of that one from a
  number nobody has (\<open>bind_tells_foreign\<close>).
\<close>

theorem udp_owner_isolation:
  assumes t: "t = fold socket_step ops sockets_new"
    and s: "sock_at i t = Some s" and o: "so_owner s \<noteq> own" "op_owner op = Some own"
  shows "sock_at i (socket_step op t) = Some s \<and> get_socket own i t = Inl BadSocket \<and>
    socket_describe own i t = Inl BadSocket \<and> socket_route own i t = Inl BadSocket \<and>
    socket_take own i t = (Inl BadSocket, t) \<and> sockets_connect own i address port t = (Inl BadSocket, t) \<and>
    sockets_close own i t = (Some BadSocket, t) \<and>
    get_socket own j (socket_step (SCloseOwner own) t) = Inl BadSocket"
proof -
  have "get_socket own i t = Inl BadSocket"
    using udp.fetch_foreign [OF s o(1)] .
  then show ?thesis
    using step_isolates [OF s o(2,1)] sockets_ok_run [OF sockets_ok_new] udp.closed_out [of own j t]
    by (simp add: t socket_describe_def socket_route_def socket_take_def sockets_connect_def sockets_close_def)
qed

theorem udp_owner_isolation_witness:
  "get_socket 8 0 (fold socket_step [SOpen 7] sockets_new) = Inl BadSocket"
proof -
  have "sock_at 0 (fold socket_step [SOpen 7] sockets_new) =
      Some \<lparr>so_owner = 7, so_local_port = 0, so_peer = None, so_queue = [], so_last_peer = None,
            so_dropped = 0\<rparr>"
    by code_simp
  from udp_owner_isolation [OF refl this, of 8 "SOpen 8"] show ?thesis by simp
qed

text \<open>
  A bind looks at the ports before it looks at the owner, and leaves out the socket it is asked
  about: with a port that another task's socket has, the number of that socket is answered
  \<open>BadSocket\<close>, and any other number that is not the caller's \<open>PortTaken\<close>.
\<close>

lemma bind_tells_foreign:
  "let t = fold socket_step [SOpen 7, SBind 7 0 53] sockets_new in
     fst (sockets_bind 8 0 53 t) = Inl BadSocket \<and> fst (sockets_bind 8 1 53 t) = Inl (SockPortTaken 53)"
  by code_simp

text \<open>
  A socket that is open and not bound has port 0, and a datagram sent to port 0 lands in its
  queue: no operation of its owner asked for that.
\<close>

lemma unbound_socket_hears_port_zero:
  "case sockets_deliver 0 from fp data (snd (sockets_open own sockets_new)) of
     (delivered, t) \<Rightarrow> delivered \<and> (\<exists>s. get_socket own 0 t = Inr s \<and> so_local_port s = 0 \<and>
       map rv_data (so_queue s) = [data])"
  by (simp add: sockets_deliver_def sockets_open_def sockets_new_def get_socket_def put_socket_def
      MAX_SOCKETS_def QUEUE_DEPTH_def nth_Cons' numeral_eq_Suc)

end
