(* ===== verification/Stack.thy ===== *)
theory Stack
  imports Sockets
begin

text \<open>
  The network stack (\<^verbatim>\<open>crates/kernel/src/net/mod.rs\<close>): the interface with its tables and
  counters, what leaves it (\<^verbatim>\<open>send_ipv4\<close>, \<^verbatim>\<open>tcp_pump\<close>), what arrives (\<^verbatim>\<open>handle\<close> and the
  handlers below it), the timer tick, and the calls the programs make.  The network card is a
  parameter: \<open>tx\<close> is its \<^verbatim>\<open>send\<close>, over a state of its own.  One handler, one call and
  one tick run under the lock of the interface and read the clock as \<open>now\<close>.
\<close>

section \<open>The interface\<close>

definition FRAME_MAX :: nat where "FRAME_MAX = 1514"

datatype card_error = CardTooLong nat | Busy | Stopped

fun card_error_text :: "card_error \<Rightarrow> string" where
  "card_error_text (CardTooLong len) = decimal_loop len [] @ '' bytes do not fit in a frame buffer''"
| "card_error_text Busy = ''every transmit descriptor is still in flight''"
| "card_error_text Stopped = ''the card is stopped''"

type_synonym 'd transmit = "u8 list \<Rightarrow> 'd \<Rightarrow> card_error option \<times> 'd"

datatype net_error =
  NoDevice
| NoAddress
| NoRoute
| Pending
| Timeout
| Device card_error
| SocketErr socket_error
| StreamErr stream_error
| BadName
| NoSuchName

fun net_error_text :: "net_error \<Rightarrow> string" where
  "net_error_text NoDevice = ''no network card''"
| "net_error_text NoAddress = ''no address configured, use: ip <addr>/<bits> [gateway]''"
| "net_error_text NoRoute = ''the address is outside our network and there is no gateway''"
| "net_error_text Pending = ''the hardware address is not known yet''"
| "net_error_text Timeout = ''no answer''"
| "net_error_text (Device e) = ''the card refused the frame: '' @ card_error_text e"
| "net_error_text (SocketErr e) = socket_error_text e"
| "net_error_text (StreamErr e) = stream_error_text e"
| "net_error_text BadName = ''that name cannot be asked about''"
| "net_error_text NoSuchName = ''the name server says there is no such name''"

record counters =
  k_arp_requests_in :: nat
  k_arp_replies_in :: nat
  k_arp_requests_out :: nat
  k_arp_replies_out :: nat
  k_ipv4_in :: nat
  k_ignored :: nat
  k_echo_requests_in :: nat
  k_echo_replies_out :: nat
  k_echo_requests_out :: nat
  k_echo_replies_in :: nat
  k_udp_in :: nat
  k_udp_out :: nat
  k_udp_no_listener :: nat
  k_tcp_in :: nat
  k_tcp_out :: nat
  k_tcp_retransmits :: nat
  k_tcp_timeouts :: nat
  k_tcp_resets :: nat

definition counters_default :: counters where
  "counters_default =
     \<lparr>k_arp_requests_in = 0, k_arp_replies_in = 0, k_arp_requests_out = 0, k_arp_replies_out = 0,
      k_ipv4_in = 0, k_ignored = 0, k_echo_requests_in = 0, k_echo_replies_out = 0,
      k_echo_requests_out = 0, k_echo_replies_in = 0, k_udp_in = 0, k_udp_out = 0,
      k_udp_no_listener = 0, k_tcp_in = 0, k_tcp_out = 0, k_tcp_retransmits = 0,
      k_tcp_timeouts = 0, k_tcp_resets = 0\<rparr>"

record reply =
  rp_from :: ipv4
  rp_id :: u16
  rp_sequence :: u16
  rp_at_ms :: nat

record 'd iface =
  if_device :: 'd
  if_mac :: mac
  if_address :: ipv4
  if_netmask :: ipv4
  if_gateway :: ipv4
  if_table :: arp_table
  if_sockets :: sockets
  if_streams :: streams
  if_counters :: counters
  if_dns :: ipv4
  if_last_reply :: "reply option"
  if_next_id :: u16

text \<open>The interface \<^verbatim>\<open>start\<close> makes of a card.\<close>

definition iface_start :: "'d \<Rightarrow> mac \<Rightarrow> 'd iface" where
  "iface_start device mac =
     \<lparr>if_device = device, if_mac = mac, if_address = IP_UNSPECIFIED, if_netmask = IP_UNSPECIFIED,
      if_gateway = IP_UNSPECIFIED, if_table = arp_new, if_sockets = sockets_new,
      if_streams = streams_new, if_counters = counters_default, if_dns = IP_UNSPECIFIED,
      if_last_reply = None, if_next_id = 1\<rparr>"

abbreviation count :: "(counters \<Rightarrow> counters) \<Rightarrow> 'd iface \<Rightarrow> 'd iface" where
  "count f n \<equiv> n\<lparr>if_counters := f (if_counters n)\<rparr>"

abbreviation change_stream :: "nat \<Rightarrow> (conn \<Rightarrow> conn) \<Rightarrow> 'd iface \<Rightarrow> 'd iface" where
  "change_stream index f n \<equiv> n\<lparr>if_streams := change index f (if_streams n)\<rparr>"

abbreviation ignored :: "'d iface \<Rightarrow> 'd iface" where
  "ignored n \<equiv> count (\<lambda>k. k\<lparr>k_ignored := k_ignored k + 1\<rparr>) n"

text \<open>\<^verbatim>\<open>iface.device.send(frame)\<close>.\<close>

definition card_send :: "'d transmit \<Rightarrow> u8 list \<Rightarrow> 'd iface \<Rightarrow> card_error option \<times> 'd iface" where
  "card_send tx frame n =
     (case tx frame (if_device n) of (e, d) \<Rightarrow> (e, n\<lparr>if_device := d\<rparr>))"

text \<open>A writer applied to \<^verbatim>\<open>&mut buffer[at..]\<close>.\<close>

definition in_tail :: "nat \<Rightarrow> (u8 list \<Rightarrow> u8 list) \<Rightarrow> u8 list \<Rightarrow> u8 list" where
  "in_tail at f buffer = take at buffer @ f (drop at buffer)"

section \<open>Sending\<close>

definition request_arp :: "'d transmit \<Rightarrow> ipv4 \<Rightarrow> 'd iface \<Rightarrow> 'd iface" where
  "request_arp tx target n =
     (let buffer = replicate (ETH_HEADER + ARP_PACKET) 0;
          buffer = eth_write_header buffer MAC_BROADCAST (if_mac n) TYPE_ARP;
          buffer = in_tail ETH_HEADER (\<lambda>b. arp_write b ARP_REQUEST (if_mac n) (if_address n)
                     (replicate 6 0) target) buffer
      in case card_send tx buffer n of
           (None, n) \<Rightarrow> count (\<lambda>k. k\<lparr>k_arp_requests_out := k_arp_requests_out k + 1\<rparr>) n
         | (Some e, n) \<Rightarrow> n)"

text \<open>The next hop: the destination itself in our network, otherwise the gateway.\<close>

definition next_hop :: "ipv4 \<Rightarrow> 'd iface \<Rightarrow> ipv4 option" where
  "next_hop destination n =
     (if same_network destination (if_address n) (if_netmask n) \<or> is_broadcast destination
      then Some destination
      else if \<not> is_unspecified (if_gateway n) then Some (if_gateway n)
      else None)"

definition hop_is_broadcast :: "ipv4 \<Rightarrow> 'd iface \<Rightarrow> bool" where
  "hop_is_broadcast hop n \<longleftrightarrow>
     is_broadcast hop \<or>
     \<not> is_unspecified (if_netmask n) \<and> hop = network_broadcast (if_address n) (if_netmask n)"

text \<open>The frame that carries an IPv4 packet.\<close>

definition ipv4_frame :: "mac \<Rightarrow> ipv4 \<Rightarrow> u8 \<Rightarrow> u8 list \<Rightarrow> u16 \<Rightarrow> 'd iface \<Rightarrow> u8 list" where
  "ipv4_frame target_mac destination protocol payload ident n =
     (let frame = replicate FRAME_MAX 0;
          frame = eth_write_header frame target_mac (if_mac n) TYPE_IPV4;
          frame = in_tail ETH_HEADER (\<lambda>b. ipv4_write_header b (if_address n) destination protocol
                    (length payload) ident) frame;
          frame = blit (ETH_HEADER + IP_HEADER) payload frame
      in take (ETH_HEADER + IP_HEADER + length payload) frame)"

definition send_ipv4 ::
  "'d transmit \<Rightarrow> nat \<Rightarrow> ipv4 \<Rightarrow> u8 \<Rightarrow> u8 list \<Rightarrow> 'd iface \<Rightarrow> net_error option \<times> 'd iface" where
  "send_ipv4 tx now destination protocol payload n =
     (if is_unspecified (if_address n) \<and> \<not> is_broadcast destination then (Some NoAddress, n)
      else
        (case next_hop destination n of
           None \<Rightarrow> (Some NoRoute, n)
         | Some hop \<Rightarrow>
             (case (if hop_is_broadcast hop n then Some MAC_BROADCAST
                    else arp_lookup (if_table n) hop now) of
                None \<Rightarrow> (Some Pending, request_arp tx hop n)
              | Some target_mac \<Rightarrow>
                  let all = ETH_HEADER + IP_HEADER + length payload in
                  if FRAME_MAX < all then (Some (Device (CardTooLong all)), n)
                  else
                    let ident = if_next_id n;
                        n = n\<lparr>if_next_id := if_next_id n + 1\<rparr>
                    in case card_send tx (ipv4_frame target_mac destination protocol payload ident n) n of
                         (None, n) \<Rightarrow> (None, n)
                       | (Some e, n) \<Rightarrow> (Some (Device e), n))))"

section \<open>The TCP output\<close>

text \<open>
  What \<^verbatim>\<open>tcp_pump\<close> decides to send: flags, whether to announce the MSS, how many bytes of data,
  and whether it is our \<open>FIN\<close>.
\<close>

definition owes_fin :: "conn \<Rightarrow> bool" where
  "owes_fin c \<longleftrightarrow> c_closing c \<and> \<not> c_fin_sent c \<and> in_flight c = 0"

fun pump_choice :: "conn \<Rightarrow> (u8 \<times> bool \<times> nat \<times> bool) option" where
  "pump_choice c =
     (case c_state c of
        SynSent \<Rightarrow> if c_snd_nxt c = c_snd_una c then Some (SYN, True, 0, False) else None
      | SynReceived \<Rightarrow> if c_snd_nxt c = c_snd_una c then Some (SYN OR ACK, True, 0, False) else None
      | Established \<Rightarrow>
          if 0 < sendable c then Some (ACK OR PSH, False, sendable c, False)
          else if owes_fin c then Some (ACK OR FIN, False, 0, True)
          else if c_need_ack c then Some (ACK, False, 0, False) else None
      | CloseWait \<Rightarrow>
          if 0 < sendable c then Some (ACK OR PSH, False, sendable c, False)
          else if owes_fin c then Some (ACK OR FIN, False, 0, True)
          else if c_need_ack c then Some (ACK, False, 0, False) else None
      | Closed \<Rightarrow> None
      | Listen \<Rightarrow> None
      | _ \<Rightarrow>
          if owes_fin c then Some (ACK OR FIN, False, 0, True)
          else if c_need_ack c then Some (ACK, False, 0, False) else None)"

definition pump_segment :: "u8 \<Rightarrow> bool \<Rightarrow> nat \<Rightarrow> conn \<Rightarrow> outgoing" where
  "pump_segment flags with_mss len c =
     \<lparr>og_source_port = c_local_port c, og_destination_port = c_remote_port c,
      og_sequence = c_snd_nxt c, og_acknowledgement = c_rcv_nxt c, og_flags = flags,
      og_window = window c, og_with_mss = with_mss,
      og_payload = take len (drop (unat (in_flight c)) (c_send c) @ replicate len 0)\<rparr>"

definition pump_span :: "u8 \<Rightarrow> nat \<Rightarrow> bool \<Rightarrow> u32" where
  "pump_span flags len fin = of_nat len + (if flags AND SYN \<noteq> 0 \<or> fin then 1 else 0)"

definition pump_sent :: "nat \<Rightarrow> u8 \<Rightarrow> nat \<Rightarrow> bool \<Rightarrow> conn \<Rightarrow> conn" where
  "pump_sent now flags len fin c =
     (let span = pump_span flags len fin;
          c = c\<lparr>c_need_ack := False, c_snd_nxt := c_snd_nxt c + span\<rparr>;
          c = (if fin then c\<lparr>c_fin_sent := True,
                 c_state := (case c_state c of CloseWait \<Rightarrow> LastAck | Established \<Rightarrow> FinWait1
                             | st \<Rightarrow> st)\<rparr>
               else c)
      in if 0 < span then arm now c else c)"

text \<open>The retry in 50 milliseconds, when the neighbour's address is still being asked for.\<close>

definition pump_pending :: "nat \<Rightarrow> conn \<Rightarrow> conn" where
  "pump_pending now c =
     (let c = arm now c
      in if c_retransmit_at c = 0 then c\<lparr>c_retransmit_at := now + 50\<rparr> else c)"

text \<open>One turn of the loop, and whether there is another.\<close>

definition pump_step :: "'d transmit \<Rightarrow> nat \<Rightarrow> nat \<Rightarrow> 'd iface \<Rightarrow> bool \<times> 'd iface" where
  "pump_step tx now index n =
     (case peek index (if_streams n) of
        None \<Rightarrow> (False, n)
      | Some c \<Rightarrow>
          if c_reset c then (False, n)
          else
            (case pump_choice c of
               None \<Rightarrow> (False, n)
             | Some (flags, with_mss, len, fin) \<Rightarrow>
                 let out = pump_segment flags with_mss len c in
                 (case tcp_write (replicate (TCP_HEADER + 4 + MSS) 0) (if_address n) (c_remote c) out of
                    (total_len, buffer) \<Rightarrow>
                      (case send_ipv4 tx now (c_remote c) PROTOCOL_TCP (take total_len buffer) n of
                         (Some e, n) \<Rightarrow>
                           (False, if e = Pending then change_stream index (pump_pending now) n else n)
                       | (None, n) \<Rightarrow>
                           let n = count (\<lambda>k. k\<lparr>k_tcp_out := k_tcp_out k + 1\<rparr>) n;
                               n = change_stream index (pump_sent now flags len fin) n
                           in (pump_span flags len fin \<noteq> 0, n)))))"

text \<open>Sending leaves the tables of connections and sockets alone.\<close>

lemma card_send_tables [simp]:
  "if_streams (snd (card_send tx f n)) = if_streams n"
  "if_sockets (snd (card_send tx f n)) = if_sockets n"
  "if_address (snd (card_send tx f n)) = if_address n"
  by (simp_all add: card_send_def split: prod.split)

lemma card_send_eq: "card_send tx f n = (e, n') \<Longrightarrow>
  if_streams n' = if_streams n \<and> if_sockets n' = if_sockets n \<and> if_address n' = if_address n \<and>
  if_table n' = if_table n \<and> if_counters n' = if_counters n"
  by (auto simp: card_send_def split: prod.splits)

lemma request_arp_tables [simp]:
  "if_streams (request_arp tx t n) = if_streams n"
  "if_sockets (request_arp tx t n) = if_sockets n"
  "if_address (request_arp tx t n) = if_address n"
  by (auto simp: request_arp_def Let_def dest: card_send_eq split: prod.split option.split)

lemma send_ipv4_tables:
  "send_ipv4 tx now d p payload n = (e, n') \<Longrightarrow>
   if_streams n' = if_streams n \<and> if_sockets n' = if_sockets n \<and> if_address n' = if_address n"
  by (auto simp: send_ipv4_def Let_def dest!: card_send_eq split: if_splits option.splits prod.splits)

text \<open>How much a connection still has to put on the wire.\<close>

definition pump_left :: "conn \<Rightarrow> nat" where
  "pump_left c =
     (if c_state c = SynSent \<or> c_state c = SynReceived
      then (if c_snd_nxt c = c_snd_una c then 1 else 0)
      else (length (c_send c) - unat (in_flight c)) + (if c_fin_sent c then 0 else 1))"

lemma sendable_fits:
  "0 < sendable c \<Longrightarrow> sendable c \<le> length (c_send c) - unat (in_flight c) \<and>
   unat (in_flight c) + sendable c \<le> unat (c_snd_wnd c) \<and> sendable c \<le> MSS"
  by (auto simp: sendable_def Let_def split: if_splits)

lemma in_flight_sent: "in_flight (c\<lparr>c_snd_nxt := c_snd_nxt c + s\<rparr>) = in_flight c + s"
  by (simp add: in_flight_def)

lemma unat_in_flight_add:
  "unat (in_flight c) + k < 2 ^ 32 \<Longrightarrow> unat (in_flight c + of_nat k) = unat (in_flight c) + k"
  by (subst unat_add_lem [THEN iffD1]) (simp_all add: unsigned_of_nat take_bit_nat_eq_self)

lemma arm_fields [simp]:
  "c_state (arm now c) = c_state c" "c_send (arm now c) = c_send c"
  "c_fin_sent (arm now c) = c_fin_sent c" "c_snd_nxt (arm now c) = c_snd_nxt c"
  "c_snd_una (arm now c) = c_snd_una c" "c_recv (arm now c) = c_recv c"
  "c_rcv_nxt (arm now c) = c_rcv_nxt c" "c_snd_wnd (arm now c) = c_snd_wnd c"
  "c_need_ack (arm now c) = c_need_ack c" "c_reset (arm now c) = c_reset c"
  "c_closing (arm now c) = c_closing c" "c_backlog (arm now c) = c_backlog c"
  "c_listener (arm now c) = c_listener c" "c_owner (arm now c) = c_owner c"
  "c_peer_mss (arm now c) = c_peer_mss c" "c_peer_closed (arm now c) = c_peer_closed c"
  by (simp_all add: arm_def)

lemma in_flight_arm [simp]: "in_flight (arm now c) = in_flight c"
  by (simp add: in_flight_def)

lemma flag_bits [simp]:
  "SYN \<noteq> 0" "SYN AND SYN \<noteq> 0" "(SYN OR ACK) AND SYN \<noteq> 0" "(ACK OR PSH) AND SYN = 0"
  "(ACK OR FIN) AND SYN = 0" "ACK AND SYN = 0"
  by (simp_all add: SYN_def ACK_def PSH_def FIN_def)

text \<open>The five things \<^verbatim>\<open>tcp_pump\<close> may choose to send.\<close>

lemma pump_choice_cases:
  assumes "pump_choice c = Some (flags, with_mss, len, fin)"
  obtains (syn) "c_state c = SynSent" "c_snd_nxt c = c_snd_una c" "flags = SYN" "with_mss" "len = 0" "\<not> fin"
  | (syn_ack) "c_state c = SynReceived" "c_snd_nxt c = c_snd_una c" "flags = SYN OR ACK" "with_mss"
      "len = 0" "\<not> fin"
  | (data) "is_open (c_state c)" "0 < sendable c" "flags = ACK OR PSH" "\<not> with_mss" "len = sendable c" "\<not> fin"
  | (fin) "c_state c \<noteq> SynSent" "c_state c \<noteq> SynReceived" "sendable c = 0" "owes_fin c"
      "flags = ACK OR FIN" "\<not> with_mss" "len = 0" "fin"
  | (ack) "c_state c \<noteq> SynSent" "c_state c \<noteq> SynReceived" "c_need_ack c" "flags = ACK" "\<not> with_mss"
      "len = 0" "\<not> fin"
proof -
  have closed: "sendable c = 0" if "c_state c \<noteq> Established" "c_state c \<noteq> CloseWait"
    using that by (simp add: sendable_def)
  show thesis
    using assms that closed
    by (cases "c_state c") (auto simp: is_open_def split: if_splits)
qed

lemma pump_span_cases [simp]:
  "pump_span SYN 0 False = 1" "pump_span (SYN OR ACK) 0 False = 1"
  "pump_span (ACK OR PSH) len False = of_nat len" "pump_span (ACK OR FIN) 0 True = 1"
  "pump_span ACK 0 False = 0"
  by (simp_all add: pump_span_def)

lemma pump_left_arm [simp]: "pump_left (arm now c) = pump_left c"
  by (simp add: pump_left_def)

lemma pump_sent_less:
  assumes ch: "pump_choice c = Some (flags, with_mss, len, fin)" and "pump_span flags len fin \<noteq> 0"
  shows "pump_left (pump_sent now flags len fin c) < pump_left c"
  using ch
proof (cases rule: pump_choice_cases)
  case syn
  then show ?thesis by (simp add: pump_left_def pump_sent_def)
next
  case syn_ack
  then show ?thesis by (simp add: pump_left_def pump_sent_def)
next
  case data
  let ?c = "c\<lparr>c_need_ack := False, c_snd_nxt := c_snd_nxt c + of_nat len\<rparr>"
  have fit: "len \<le> length (c_send c) - unat (in_flight c)" "0 < len"
    "unat (in_flight c) + len \<le> unat (c_snd_wnd c)"
    using sendable_fits [of c] data by simp_all
  have "unat (in_flight c) + len < 2 ^ 32"
    using fit(3) unat_u16 [of "c_snd_wnd c"] by simp
  moreover have "in_flight ?c = in_flight c + of_nat len"
    by (simp add: in_flight_def)
  ultimately have fl: "unat (in_flight ?c) = unat (in_flight c) + len"
    using unat_in_flight_add by simp
  have "pump_left ?c < pump_left c"
    using data(1) fit fl by (auto simp: pump_left_def is_open_def)
  moreover have "pump_left (pump_sent now flags len fin c) = pump_left ?c"
    using data by (simp add: pump_sent_def Let_def)
  ultimately show ?thesis by simp
next
  case fin
  then have fl: "in_flight c = 0" "\<not> c_fin_sent c" by (simp_all add: owes_fin_def)
  let ?d = "pump_sent now flags len fin c"
  have "in_flight ?d = 1" "c_fin_sent ?d" "c_send ?d = c_send c"
    using fin fl by (simp_all add: pump_sent_def in_flight_def)
  moreover have "c_state ?d \<noteq> SynSent" "c_state ?d \<noteq> SynReceived"
    using fin by (auto simp: pump_sent_def split: tcp_state.split)
  ultimately show ?thesis
    using fin fl by (simp add: pump_left_def)
qed (use assms in simp)

lemma pump_step_more:
  assumes "pump_step tx now index n = (True, n')"
  shows "\<exists>c d. peek index (if_streams n) = Some c \<and> peek index (if_streams n') = Some d \<and>
    pump_left d < pump_left c"
  using assms
  by (auto simp: pump_step_def Let_def simp del: pump_choice.simps
      dest!: send_ipv4_tables pump_sent_less split: option.splits if_splits prod.splits)

function tcp_pump :: "'d transmit \<Rightarrow> nat \<Rightarrow> nat \<Rightarrow> 'd iface \<Rightarrow> 'd iface" where
  "tcp_pump tx now index n =
     (case pump_step tx now index n of
        (True, n) \<Rightarrow> tcp_pump tx now index n
      | (False, n) \<Rightarrow> n)"
  by pat_completeness auto
termination
proof (relation "measure (\<lambda>(tx, now, index, n).
    case peek index (if_streams n) of None \<Rightarrow> 0 | Some c \<Rightarrow> pump_left c)", goal_cases)
  case (2 tx now index n x m)
  then show ?case using pump_step_more [of tx now index n m] by auto
qed simp

declare tcp_pump.simps [simp del] pump_choice.simps [simp del]

section \<open>The TCP input\<close>

text \<open>\<^verbatim>\<open>RST\<close> for a segment that has nowhere to go.\<close>

definition reject_segment :: "segment \<Rightarrow> outgoing" where
  "reject_segment sg =
     (let (sequence, acknowledgement, flags) =
            (if seg_has sg ACK then (sg_acknowledgement sg, 0, RST)
             else (0, sg_sequence sg + seg_span sg, RST OR ACK))
      in \<lparr>og_source_port = sg_destination_port sg, og_destination_port = sg_source_port sg,
          og_sequence = sequence, og_acknowledgement = acknowledgement, og_flags = flags,
          og_window = 0, og_with_mss = False, og_payload = []\<rparr>)"

definition tcp_reject :: "'d transmit \<Rightarrow> nat \<Rightarrow> ipv4 \<Rightarrow> segment \<Rightarrow> 'd iface \<Rightarrow> 'd iface" where
  "tcp_reject tx now source sg n =
     (case tcp_write (replicate (TCP_HEADER + 4) 0) (if_address n) source (reject_segment sg) of
        (total_len, buffer) \<Rightarrow>
          (case send_ipv4 tx now source PROTOCOL_TCP (take total_len buffer) n of
             (None, n) \<Rightarrow> count (\<lambda>k. k\<lparr>k_tcp_out := k_tcp_out k + 1, k_tcp_resets := k_tcp_resets k + 1\<rparr>) n
           | (Some e, n) \<Rightarrow> n))"

text \<open>The state after a segment in one of the synchronized states.\<close>

definition close_state :: "nat \<Rightarrow> bool \<Rightarrow> bool \<Rightarrow> conn \<Rightarrow> conn" where
  "close_state now their_fin our_fin_acked c =
     (case c_state c of
        Established \<Rightarrow> if their_fin then c\<lparr>c_state := CloseWait\<rparr> else c
      | FinWait1 \<Rightarrow>
          if their_fin then
            if our_fin_acked then c\<lparr>c_expires_at := time_wait_until now, c_state := TimeWait\<rparr>
            else c\<lparr>c_state := Closing\<rparr>
          else if our_fin_acked then c\<lparr>c_state := FinWait2\<rparr> else c
      | FinWait2 \<Rightarrow>
          if their_fin then c\<lparr>c_expires_at := time_wait_until now, c_state := TimeWait\<rparr> else c
      | Closing \<Rightarrow>
          if our_fin_acked then c\<lparr>c_expires_at := time_wait_until now, c_state := TimeWait\<rparr> else c
      | LastAck \<Rightarrow> if our_fin_acked then c\<lparr>c_state := Closed\<rparr> else c
      | _ \<Rightarrow> c)"

definition synchronized_segment :: "nat \<Rightarrow> segment \<Rightarrow> conn \<Rightarrow> conn" where
  "synchronized_segment now sg c =
     (let c = (if seg_has sg ACK then acknowledge (sg_acknowledgement sg) c else c);
          c = snd (accept_data (sg_sequence sg) (sg_payload sg) c);
          fin_here = (seg_has sg FIN \<and>
            sg_sequence sg + of_nat (length (sg_payload sg)) = c_rcv_nxt c);
          c = (if fin_here \<and> \<not> c_peer_closed c
               then c\<lparr>c_peer_closed := True, c_rcv_nxt := c_rcv_nxt c + 1, c_need_ack := True\<rparr>
               else c);
          our_fin_acked = (c_fin_sent c \<and> c_snd_una c = c_snd_nxt c)
      in close_state now (fin_here \<or> c_peer_closed c) our_fin_acked c)"

text \<open>
  What one segment (not an \<open>RST\<close>) does to its connection; and whether the connection is now to
  be handed to its listener, and whether the segment is to be refused.
\<close>

definition segment_arrives :: "nat \<Rightarrow> segment \<Rightarrow> conn \<Rightarrow> conn \<times> bool \<times> bool" where
  "segment_arrives now sg c =
     (let c = c\<lparr>c_snd_wnd := sg_window sg\<rparr>;
          c = (case sg_mss sg of None \<Rightarrow> c | Some m \<Rightarrow> c\<lparr>c_peer_mss := clamp_mss m\<rparr>)
      in case c_state c of
           SynSent \<Rightarrow>
             if seg_has sg SYN \<and> seg_has sg ACK then
               if sg_acknowledgement sg = c_snd_nxt c
               then let c = acknowledge (sg_acknowledgement sg) (c\<lparr>c_rcv_nxt := sg_sequence sg + 1\<rparr>)
                    in (c\<lparr>c_state := Established, c_need_ack := True\<rparr>, False, False)
               else (c, False, True)
             else if seg_has sg SYN
             then (c\<lparr>c_rcv_nxt := sg_sequence sg + 1, c_state := SynReceived, c_need_ack := True\<rparr>,
                   False, False)
             else (c, False, False)
         | SynReceived \<Rightarrow>
             if seg_has sg ACK \<and> sg_acknowledgement sg = c_snd_nxt c
             then let c = (acknowledge (sg_acknowledgement sg) c)\<lparr>c_state := Established\<rparr>
                  in (snd (accept_data (sg_sequence sg) (sg_payload sg) c), c_listener c \<noteq> None, False)
             else (c, False, False)
         | TimeWait \<Rightarrow>
             (c\<lparr>c_need_ack := True, c_expires_at := time_wait_until now\<rparr>, False, False)
         | Closed \<Rightarrow> (c, False, False)
         | Listen \<Rightarrow> (c, False, False)
         | _ \<Rightarrow> (synchronized_segment now sg c, False, False))"

text \<open>A segment for a connection that exists, and one for none.\<close>

definition tcp_known :: "'d transmit \<Rightarrow> nat \<Rightarrow> ipv4 \<Rightarrow> segment \<Rightarrow> nat \<Rightarrow> 'd iface \<Rightarrow> 'd iface" where
  "tcp_known tx now source sg index n =
     (if seg_has sg RST
      then change_stream index (\<lambda>c. c\<lparr>c_reset := True, c_state := Closed\<rparr>) n
      else
        let arrived = map_option (segment_arrives now sg) (peek index (if_streams n));
            hand_over = (case arrived of None \<Rightarrow> False | Some (c, h, r) \<Rightarrow> h);
            send_reset = (case arrived of None \<Rightarrow> False | Some (c, h, r) \<Rightarrow> r);
            n = change_stream index (\<lambda>c. fst (segment_arrives now sg c)) n
        in if send_reset then
             let n = tcp_reject tx now source sg n
             in n\<lparr>if_streams := streams_close index (if_streams n)\<rparr>
           else
             let n = (if hand_over then n\<lparr>if_streams := hand_to_listener index (if_streams n)\<rparr> else n);
                 n = tcp_pump tx now index n;
                 orphan = (case peek index (if_streams n) of None \<Rightarrow> False
                           | Some c \<Rightarrow> c_state c = Closed \<and> c_listener c \<noteq> None)
             in if orphan then n\<lparr>if_streams := streams_close index (if_streams n)\<rparr> else n)"

definition tcp_unknown :: "'d transmit \<Rightarrow> nat \<Rightarrow> ipv4 \<Rightarrow> segment \<Rightarrow> 'd iface \<Rightarrow> 'd iface" where
  "tcp_unknown tx now source sg n =
     (let refuse = (if seg_has sg RST then n else tcp_reject tx now source sg n) in
      if seg_has sg SYN \<and> \<not> seg_has sg ACK then
        (case listener_for (sg_destination_port sg) (if_streams n) of
           None \<Rightarrow> refuse
         | Some listener \<Rightarrow>
             (case accept_syn listener source (sg_source_port sg) (sg_sequence sg) (sg_window sg)
                     (sg_mss sg) (initial_sequence now) (if_streams n) of
                (Some index, ss) \<Rightarrow> tcp_pump tx now index (n\<lparr>if_streams := ss\<rparr>)
              | (None, ss) \<Rightarrow> refuse))
      else refuse)"

definition handle_tcp :: "'d transmit \<Rightarrow> nat \<Rightarrow> ipv4 \<Rightarrow> ipv4 \<Rightarrow> u8 list \<Rightarrow> 'd iface \<Rightarrow> 'd iface" where
  "handle_tcp tx now source destination message n =
     (case tcp_parse source destination message of
        None \<Rightarrow> ignored n
      | Some sg \<Rightarrow>
          let n = count (\<lambda>k. k\<lparr>k_tcp_in := k_tcp_in k + 1\<rparr>) n in
          (case streams_lookup (sg_destination_port sg) source (sg_source_port sg) (if_streams n) of
             Some index \<Rightarrow> tcp_known tx now source sg index n
           | None \<Rightarrow> tcp_unknown tx now source sg n))"

section \<open>The timer tick\<close>

text \<open>What a tick does to one connection: \<open>(connection, retransmit, dead, counted)\<close>.\<close>

definition tick_conn :: "nat \<Rightarrow> conn \<Rightarrow> conn \<times> bool \<times> bool \<times> bool" where
  "tick_conn now c =
     (if timed_out now c then
        if in_flight c = 0 then (disarm c, True, False, False)
        else if gave_up c then (c, False, True, False)
        else let counted = (c_snd_nxt c \<noteq> c_snd_una c); c = back_off now c
             in (c\<lparr>c_snd_nxt := c_snd_una c, c_fin_sent := False\<rparr>, True, False, counted)
      else (c, False, False, False))"

definition tick_stream :: "'d transmit \<Rightarrow> nat \<Rightarrow> nat \<Rightarrow> 'd iface \<Rightarrow> 'd iface" where
  "tick_stream tx now index n =
     (if stream_expired index now (if_streams n)
      then n\<lparr>if_streams := streams_close index (if_streams n)\<rparr>
      else
        case peek index (if_streams n) of
          None \<Rightarrow> n
        | Some c \<Rightarrow>
            (case tick_conn now c of (c', retransmit, dead, counted) \<Rightarrow>
               let n = change_stream index (\<lambda>c. c') n in
               if dead then
                 count (\<lambda>k. k\<lparr>k_tcp_timeouts := k_tcp_timeouts k + 1\<rparr>)
                   (change_stream index (\<lambda>c. c\<lparr>c_reset := True, c_state := Closed\<rparr>) n)
               else if retransmit then
                 tcp_pump tx now index
                   (if counted then count (\<lambda>k. k\<lparr>k_tcp_retransmits := k_tcp_retransmits k + 1\<rparr>) n else n)
               else n))"

definition tcp_tick :: "'d transmit \<Rightarrow> nat \<Rightarrow> 'd iface \<Rightarrow> 'd iface" where
  "tcp_tick tx now n = fold (tick_stream tx now) (stream_indices (if_streams n)) n"

section \<open>Frames that arrive\<close>

definition arp_reply_frame :: "arp_packet \<Rightarrow> 'd iface \<Rightarrow> u8 list" where
  "arp_reply_frame packet n =
     in_tail ETH_HEADER (\<lambda>b. arp_write b ARP_REPLY (if_mac n) (if_address n)
         (arp_sender_mac packet) (arp_sender_ip packet))
       (eth_write_header (replicate (ETH_HEADER + ARP_PACKET) 0) (arp_sender_mac packet) (if_mac n)
         TYPE_ARP)"

text \<open>The connections that wait for the neighbour that has just answered.\<close>

definition waiting_for :: "ipv4 \<Rightarrow> streams \<Rightarrow> nat list" where
  "waiting_for ip ss =
     filter (\<lambda>i. case peek i ss of None \<Rightarrow> False | Some c \<Rightarrow> c_remote c = ip) (stream_indices ss)"

definition handle_arp :: "'d transmit \<Rightarrow> nat \<Rightarrow> u8 list \<Rightarrow> 'd iface \<Rightarrow> 'd iface" where
  "handle_arp tx now payload n =
     (case arp_parse payload of
        None \<Rightarrow> ignored n
      | Some packet \<Rightarrow>
          let n = (if is_unspecified (arp_sender_ip packet) then n
                   else n\<lparr>if_table := arp_remember (if_table n) (arp_sender_ip packet)
                          (arp_sender_mac packet) now\<rparr>)
          in if arp_operation packet = ARP_REQUEST then
               let n = count (\<lambda>k. k\<lparr>k_arp_requests_in := k_arp_requests_in k + 1\<rparr>) n in
               if is_unspecified (if_address n) \<or> arp_target_ip packet \<noteq> if_address n then n
               else
                 (case card_send tx (arp_reply_frame packet n) n of
                    (None, n) \<Rightarrow> count (\<lambda>k. k\<lparr>k_arp_replies_out := k_arp_replies_out k + 1\<rparr>) n
                  | (Some e, n) \<Rightarrow> n)
             else if arp_operation packet = ARP_REPLY then
               let n = count (\<lambda>k. k\<lparr>k_arp_replies_in := k_arp_replies_in k + 1\<rparr>) n
               in fold (tcp_pump tx now) (waiting_for (arp_sender_ip packet) (if_streams n)) n
             else ignored n)"

definition handle_udp :: "ipv4 \<Rightarrow> ipv4 \<Rightarrow> u8 list \<Rightarrow> 'd iface \<Rightarrow> 'd iface" where
  "handle_udp source destination payload n =
     (case udp_parse source destination payload of
        None \<Rightarrow> ignored n
      | Some datagram \<Rightarrow>
          let n = count (\<lambda>k. k\<lparr>k_udp_in := k_udp_in k + 1\<rparr>) n in
          (case sockets_deliver (ud_destination_port datagram) source (ud_source_port datagram)
                  (ud_payload datagram) (if_sockets n) of
             (delivered, t) \<Rightarrow>
               let n = n\<lparr>if_sockets := t\<rparr> in
               if delivered then n
               else count (\<lambda>k. k\<lparr>k_udp_no_listener := k_udp_no_listener k + 1\<rparr>) n))"

definition handle_icmp :: "'d transmit \<Rightarrow> nat \<Rightarrow> ip_packet \<Rightarrow> 'd iface \<Rightarrow> 'd iface" where
  "handle_icmp tx now packet n =
     (case icmp_parse (ip_payload packet) of
        None \<Rightarrow> ignored n
      | Some e \<Rightarrow>
          if echo_kind e = ECHO_REQUEST then
            let n = count (\<lambda>k. k\<lparr>k_echo_requests_in := k_echo_requests_in k + 1\<rparr>) n in
            if is_unspecified (if_address n) then n
            else
              (case icmp_write (replicate FRAME_MAX 0) ECHO_REPLY (echo_id e) (echo_sequence e)
                      (echo_data e) of
                 (total_len, message) \<Rightarrow>
                   (case send_ipv4 tx now (ip_source packet) PROTOCOL_ICMP (take total_len message) n of
                      (None, n) \<Rightarrow> count (\<lambda>k. k\<lparr>k_echo_replies_out := k_echo_replies_out k + 1\<rparr>) n
                    | (Some err, n) \<Rightarrow> n))
          else if echo_kind e = ECHO_REPLY then
            (count (\<lambda>k. k\<lparr>k_echo_replies_in := k_echo_replies_in k + 1\<rparr>) n)
              \<lparr>if_last_reply := Some \<lparr>rp_from = ip_source packet, rp_id = echo_id e,
                 rp_sequence = echo_sequence e, rp_at_ms = now\<rparr>\<rparr>
          else ignored n)"

definition packet_is_ours :: "ipv4 \<Rightarrow> 'd iface \<Rightarrow> bool" where
  "packet_is_ours destination n \<longleftrightarrow>
     destination = if_address n \<or> is_broadcast destination \<or>
     (\<not> is_unspecified (if_netmask n) \<and>
        destination = network_broadcast (if_address n) (if_netmask n)) \<or>
     is_unspecified (if_address n)"

definition handle_ipv4 :: "'d transmit \<Rightarrow> nat \<Rightarrow> u8 list \<Rightarrow> 'd iface \<Rightarrow> 'd iface" where
  "handle_ipv4 tx now payload n =
     (case ipv4_parse payload of
        None \<Rightarrow> ignored n
      | Some packet \<Rightarrow>
          let n = count (\<lambda>k. k\<lparr>k_ipv4_in := k_ipv4_in k + 1\<rparr>) n in
          if \<not> packet_is_ours (ip_destination packet) n then ignored n
          else if ip_protocol packet = PROTOCOL_UDP then
            handle_udp (ip_source packet) (ip_destination packet) (ip_payload packet) n
          else if ip_protocol packet = PROTOCOL_TCP then
            handle_tcp tx now (ip_source packet) (ip_destination packet)
              (take FRAME_MAX (ip_payload packet)) n
          else if ip_protocol packet \<noteq> PROTOCOL_ICMP then ignored n
          else handle_icmp tx now packet n)"

definition handle :: "'d transmit \<Rightarrow> nat \<Rightarrow> u8 list \<Rightarrow> 'd iface \<Rightarrow> 'd iface" where
  "handle tx now frame n =
     (case eth_parse frame of
        None \<Rightarrow> ignored n
      | Some parsed \<Rightarrow>
          if eth_destination parsed \<noteq> if_mac n \<and> eth_destination parsed \<noteq> MAC_BROADCAST then ignored n
          else if eth_kind parsed = TYPE_ARP then handle_arp tx now (eth_payload parsed) n
          else if eth_kind parsed = TYPE_IPV4 then handle_ipv4 tx now (eth_payload parsed) n
          else ignored n)"

section \<open>The calls\<close>

text \<open>\<^verbatim>\<open>INTERFACE\<close> and the flag read without its lock.\<close>

record 'd net =
  net_iface :: "'d iface option"
  net_has_address :: bool

definition with_iface ::
  "('d iface \<Rightarrow> (net_error + 'a) \<times> 'd iface) \<Rightarrow> 'd net \<Rightarrow> (net_error + 'a) \<times> 'd net" where
  "with_iface f g =
     (case net_iface g of
        None \<Rightarrow> (Inl NoDevice, g)
      | Some n \<Rightarrow> (case f n of (r, n) \<Rightarrow> (r, g\<lparr>net_iface := Some n\<rparr>)))"

definition configure :: "ipv4 \<Rightarrow> ipv4 \<Rightarrow> ipv4 \<Rightarrow> 'd net \<Rightarrow> (net_error + unit) \<times> 'd net" where
  "configure address netmask gateway g =
     (case net_iface g of
        None \<Rightarrow> (Inl NoDevice, g)
      | Some n \<Rightarrow>
          if \<not> is_unspecified gateway \<and> \<not> same_network gateway address netmask then (Inl NoRoute, g)
          else (Inr (), \<lparr>net_iface = Some (n\<lparr>if_address := address, if_netmask := netmask,
                           if_gateway := gateway\<rparr>),
                         net_has_address = (\<not> is_unspecified address)\<rparr>))"

definition configure_all ::
  "ipv4 \<Rightarrow> ipv4 \<Rightarrow> ipv4 \<Rightarrow> ipv4 \<Rightarrow> 'd net \<Rightarrow> (net_error + unit) \<times> 'd net" where
  "configure_all address netmask gateway dns g =
     (case configure address netmask gateway g of
        (Inl e, g) \<Rightarrow> (Inl e, g)
      | (Inr u, g) \<Rightarrow>
          if is_unspecified dns then (Inr (), g)
          else with_iface (\<lambda>n. (Inr (), n\<lparr>if_dns := dns\<rparr>)) g)"

definition dns_server :: "'d net \<Rightarrow> ipv4 option" where
  "dns_server g =
     (case net_iface g of None \<Rightarrow> None
      | Some n \<Rightarrow> if is_unspecified (if_dns n) then None else Some (if_dns n))"

text \<open>An operation of the table of sockets, or of connections, as a call of the stack.\<close>

definition on_sockets ::
  "(sockets \<Rightarrow> (socket_error + 'a) \<times> sockets) \<Rightarrow> 'd iface \<Rightarrow> (net_error + 'a) \<times> 'd iface" where
  "on_sockets f n =
     (case f (if_sockets n) of
        (Inl e, t) \<Rightarrow> (Inl (SocketErr e), n\<lparr>if_sockets := t\<rparr>)
      | (Inr x, t) \<Rightarrow> (Inr x, n\<lparr>if_sockets := t\<rparr>))"

definition on_streams ::
  "(streams \<Rightarrow> (stream_error + 'a) \<times> streams) \<Rightarrow> 'd iface \<Rightarrow> (net_error + 'a) \<times> 'd iface" where
  "on_streams f n =
     (case f (if_streams n) of
        (Inl e, t) \<Rightarrow> (Inl (StreamErr e), n\<lparr>if_streams := t\<rparr>)
      | (Inr x, t) \<Rightarrow> (Inr x, n\<lparr>if_streams := t\<rparr>))"

text \<open>\<^verbatim>\<open>Result<(), E>\<close> of an operation whose model returns the error, if any.\<close>

definition unit_result :: "'e option \<times> 's \<Rightarrow> ('e + unit) \<times> 's" where
  "unit_result r = (case r of (None, s) \<Rightarrow> (Inr (), s) | (Some e, s) \<Rightarrow> (Inl e, s))"

definition net_socket_open :: "task_id \<Rightarrow> 'd net \<Rightarrow> (net_error + nat) \<times> 'd net" where
  "net_socket_open owner = with_iface (on_sockets (sockets_open owner))"

definition net_socket_bind :: "task_id \<Rightarrow> nat \<Rightarrow> u16 \<Rightarrow> 'd net \<Rightarrow> (net_error + u16) \<times> 'd net" where
  "net_socket_bind owner index port = with_iface (on_sockets (sockets_bind owner index port))"

definition net_socket_connect ::
  "task_id \<Rightarrow> nat \<Rightarrow> ipv4 \<Rightarrow> u16 \<Rightarrow> 'd net \<Rightarrow> (net_error + u16) \<times> 'd net" where
  "net_socket_connect owner index address port =
     with_iface (on_sockets (sockets_connect owner index address port))"

definition net_socket_recv ::
  "task_id \<Rightarrow> nat \<Rightarrow> 'd net \<Rightarrow> (net_error + received option) \<times> 'd net" where
  "net_socket_recv owner index = with_iface (on_sockets (socket_take owner index))"

definition net_socket_close :: "task_id \<Rightarrow> nat \<Rightarrow> 'd net \<Rightarrow> (net_error + unit) \<times> 'd net" where
  "net_socket_close owner index = with_iface (on_sockets (\<lambda>t. unit_result (sockets_close owner index t)))"

definition iface_socket_send ::
  "'d transmit \<Rightarrow> nat \<Rightarrow> task_id \<Rightarrow> nat \<Rightarrow> u8 list \<Rightarrow> 'd iface \<Rightarrow> (net_error + nat) \<times> 'd iface" where
  "iface_socket_send tx now owner index data n =
     (case socket_route owner index (if_sockets n) of
        Inl e \<Rightarrow> (Inl (SocketErr e), n)
      | Inr (local_port, destination, remote_port) \<Rightarrow>
          (case udp_write (replicate (UDP_HEADER + MAX_DATAGRAM) 0) (if_address n) destination
                  local_port remote_port data of
             (total_len, message) \<Rightarrow>
               (case send_ipv4 tx now destination PROTOCOL_UDP (take total_len message) n of
                  (Some e, n) \<Rightarrow> (Inl e, n)
                | (None, n) \<Rightarrow>
                    (Inr (length data), count (\<lambda>k. k\<lparr>k_udp_out := k_udp_out k + 1\<rparr>) n))))"

definition net_socket_send ::
  "'d transmit \<Rightarrow> nat \<Rightarrow> task_id \<Rightarrow> nat \<Rightarrow> u8 list \<Rightarrow> 'd net \<Rightarrow> (net_error + nat) \<times> 'd net" where
  "net_socket_send tx now owner index data g =
     (if MAX_DATAGRAM < length data then (Inl (SocketErr (SockTooLong (length data))), g)
      else with_iface (iface_socket_send tx now owner index data) g)"

definition stream_open :: "task_id \<Rightarrow> 'd net \<Rightarrow> (net_error + nat) \<times> 'd net" where
  "stream_open owner = with_iface (on_streams (streams_open owner))"

definition stream_bind :: "task_id \<Rightarrow> nat \<Rightarrow> u16 \<Rightarrow> 'd net \<Rightarrow> (net_error + u16) \<times> 'd net" where
  "stream_bind owner index port = with_iface (on_streams (streams_bind owner index port))"

definition stream_listen :: "task_id \<Rightarrow> nat \<Rightarrow> 'd net \<Rightarrow> (net_error + unit) \<times> 'd net" where
  "stream_listen owner index = with_iface (on_streams (\<lambda>t. unit_result (streams_listen owner index t)))"

definition stream_accept :: "task_id \<Rightarrow> nat \<Rightarrow> 'd net \<Rightarrow> (net_error + nat option) \<times> 'd net" where
  "stream_accept owner index = with_iface (on_streams (streams_accept owner index))"

definition connecting :: "u16 \<Rightarrow> ipv4 \<Rightarrow> u16 \<Rightarrow> u32 \<Rightarrow> conn \<Rightarrow> conn" where
  "connecting local_port address port iss c =
     c\<lparr>c_local_port := local_port, c_remote := address, c_remote_port := port, c_snd_una := iss,
       c_snd_nxt := iss, c_snd_wnd := 0, c_state := SynSent\<rparr>"

definition iface_connect ::
  "'d transmit \<Rightarrow> nat \<Rightarrow> task_id \<Rightarrow> nat \<Rightarrow> ipv4 \<Rightarrow> u16 \<Rightarrow> 'd iface \<Rightarrow> (net_error + unit) \<times> 'd iface" where
  "iface_connect tx now owner index address port n =
     (if is_unspecified (if_address n) then (Inl NoAddress, n)
      else
        (case on_sockets pick_port n of
           (Inl e, n) \<Rightarrow> (Inl e, n)
         | (Inr local_port, n) \<Rightarrow>
             (case get_stream owner index (if_streams n) of
                Inl e \<Rightarrow> (Inl (StreamErr e), n)
              | Inr c \<Rightarrow>
                  (Inr (), tcp_pump tx now index
                     (change_stream index (connecting local_port address port (initial_sequence now)) n)))))"

definition stream_connect ::
  "'d transmit \<Rightarrow> nat \<Rightarrow> task_id \<Rightarrow> nat \<Rightarrow> ipv4 \<Rightarrow> u16 \<Rightarrow> 'd net \<Rightarrow> (net_error + unit) \<times> 'd net" where
  "stream_connect tx now owner index address port =
     with_iface (iface_connect tx now owner index address port)"

definition iface_send ::
  "'d transmit \<Rightarrow> nat \<Rightarrow> task_id \<Rightarrow> nat \<Rightarrow> u8 list \<Rightarrow> 'd iface \<Rightarrow> (net_error + nat) \<times> 'd iface" where
  "iface_send tx now owner index data n =
     (case get_stream owner index (if_streams n) of
        Inl e \<Rightarrow> (Inl (StreamErr e), n)
      | Inr c \<Rightarrow>
          if c_reset c then (Inl (StreamErr Reset), n)
          else if \<not> is_open (c_state c) then (Inl (StreamErr NotConnected), n)
          else if c_closing c then (Inl (StreamErr StreamClosed), n)
          else
            let room = SEND_BUFFER - length (c_send c) in
            if room = 0 then (Inl (StreamErr WouldBlock), n)
            else
              let taken = min (length data) room;
                  n = change_stream index (\<lambda>c. c\<lparr>c_send := c_send c @ take taken data\<rparr>) n
              in (Inr taken, tcp_pump tx now index n))"

definition stream_send ::
  "'d transmit \<Rightarrow> nat \<Rightarrow> task_id \<Rightarrow> nat \<Rightarrow> u8 list \<Rightarrow> 'd net \<Rightarrow> (net_error + nat) \<times> 'd net" where
  "stream_send tx now owner index data = with_iface (iface_send tx now owner index data)"

text \<open>A read of up to \<open>room\<close> bytes gives the bytes; the caller's buffer is what \<open>room\<close> counts.\<close>

definition update_threshold :: "conn \<Rightarrow> nat" where
  "update_threshold c = min (max (unat (c_peer_mss c)) 536) (RECEIVE_BUFFER div 2)"

definition iface_recv ::
  "'d transmit \<Rightarrow> nat \<Rightarrow> task_id \<Rightarrow> nat \<Rightarrow> nat \<Rightarrow> 'd iface \<Rightarrow> (net_error + u8 list) \<times> 'd iface" where
  "iface_recv tx now owner index room n =
     (case get_stream owner index (if_streams n) of
        Inl e \<Rightarrow> (Inl (StreamErr e), n)
      | Inr c \<Rightarrow>
          if c_reset c \<and> c_recv c = [] then (Inl (StreamErr Reset), n)
          else
            let taken = take room (c_recv c);
                c' = c\<lparr>c_recv := drop room (c_recv c)\<rparr>;
                n = change_stream index (\<lambda>c. c\<lparr>c_recv := drop room (c_recv c)\<rparr>) n;
                need_window_update =
                  (0 < length taken \<and> unat (window c) < update_threshold c \<and>
                   update_threshold c \<le> unat (window c'))
            in (Inr taken,
                if need_window_update
                then tcp_pump tx now index (change_stream index (\<lambda>c. c\<lparr>c_need_ack := True\<rparr>) n)
                else n))"

definition stream_recv ::
  "'d transmit \<Rightarrow> nat \<Rightarrow> task_id \<Rightarrow> nat \<Rightarrow> nat \<Rightarrow> 'd net \<Rightarrow> (net_error + u8 list) \<times> 'd net" where
  "stream_recv tx now owner index room = with_iface (iface_recv tx now owner index room)"

definition iface_shutdown ::
  "'d transmit \<Rightarrow> nat \<Rightarrow> task_id \<Rightarrow> nat \<Rightarrow> 'd iface \<Rightarrow> (net_error + unit) \<times> 'd iface" where
  "iface_shutdown tx now owner index n =
     (case get_stream owner index (if_streams n) of
        Inl e \<Rightarrow> (Inl (StreamErr e), n)
      | Inr c \<Rightarrow> (Inr (), tcp_pump tx now index (change_stream index (\<lambda>c. c\<lparr>c_closing := True\<rparr>) n)))"

definition stream_shutdown ::
  "'d transmit \<Rightarrow> nat \<Rightarrow> task_id \<Rightarrow> nat \<Rightarrow> 'd net \<Rightarrow> (net_error + unit) \<times> 'd net" where
  "stream_shutdown tx now owner index = with_iface (iface_shutdown tx now owner index)"

definition close_request :: "conn \<Rightarrow> conn" where
  "close_request c =
     (let c = (if c_state c = SynSent then c\<lparr>c_state := Closed\<rparr> else c) in c\<lparr>c_closing := True\<rparr>)"

definition iface_close ::
  "'d transmit \<Rightarrow> nat \<Rightarrow> task_id \<Rightarrow> nat \<Rightarrow> 'd iface \<Rightarrow> (net_error + unit) \<times> 'd iface" where
  "iface_close tx now owner index n =
     (case get_stream owner index (if_streams n) of
        Inl e \<Rightarrow> (Inl (StreamErr e), n)
      | Inr c \<Rightarrow>
          let n = tcp_pump tx now index (change_stream index close_request n);
              finished = (case peek index (if_streams n) of None \<Rightarrow> False
                | Some c \<Rightarrow> c_state c = Closed \<or> c_state c = TimeWait \<or> c_state c = Listen \<or> c_reset c)
          in (Inr (), if finished then n\<lparr>if_streams := streams_close index (if_streams n)\<rparr> else n))"

definition stream_close ::
  "'d transmit \<Rightarrow> nat \<Rightarrow> task_id \<Rightarrow> nat \<Rightarrow> 'd net \<Rightarrow> (net_error + unit) \<times> 'd net" where
  "stream_close tx now owner index = with_iface (iface_close tx now owner index)"

text \<open>Questions about a connection.\<close>

definition ask_stream :: "task_id \<Rightarrow> nat \<Rightarrow> (conn \<Rightarrow> 'a) \<Rightarrow> 'd net \<Rightarrow> net_error + 'a" where
  "ask_stream owner index f g =
     (case net_iface g of None \<Rightarrow> Inl NoDevice
      | Some n \<Rightarrow> (case get_stream owner index (if_streams n) of
            Inl e \<Rightarrow> Inl (StreamErr e) | Inr c \<Rightarrow> Inr (f c)))"

definition stream_state :: "task_id \<Rightarrow> nat \<Rightarrow> 'd net \<Rightarrow> net_error + tcp_state \<times> bool \<times> bool" where
  "stream_state owner index = ask_stream owner index (\<lambda>c. (c_state c, c_peer_closed c, c_reset c))"

definition stream_poll :: "task_id \<Rightarrow> nat \<Rightarrow> 'd net \<Rightarrow> net_error + bool \<times> bool \<times> bool" where
  "stream_poll owner index = ask_stream owner index (\<lambda>c.
     (c_recv c \<noteq> [] \<or> c_peer_closed c \<or> c_reset c \<or> c_state c = Listen \<and> c_backlog c \<noteq> [],
      c_reset c \<or> is_open (c_state c) \<and> \<not> c_closing c \<and> length (c_send c) < SEND_BUFFER,
      c_reset c \<or> c_peer_closed c))"

definition stream_info ::
  "task_id \<Rightarrow> nat \<Rightarrow> 'd net \<Rightarrow> net_error + u16 \<times> ipv4 \<times> u16 \<times> tcp_state \<times> bool \<times> bool" where
  "stream_info owner index = ask_stream owner index (\<lambda>c.
     (c_local_port c, c_remote c, c_remote_port c, c_state c, c_peer_closed c, c_reset c))"

definition stream_table :: "'d net \<Rightarrow> (nat \<times> string \<times> u16 \<times> ipv4 \<times> u16 \<times> nat \<times> nat) list" where
  "stream_table g =
     (case net_iface g of None \<Rightarrow> []
      | Some n \<Rightarrow> map (\<lambda>(i, st, rest). (i, tcp_state_name st, rest)) (streams_describe (if_streams n)))"

definition net_close_owner :: "task_id \<Rightarrow> 'd net \<Rightarrow> nat \<times> 'd net" where
  "net_close_owner owner g =
     (case net_iface g of None \<Rightarrow> (0, g)
      | Some n \<Rightarrow>
          (case sockets_close_owner owner (if_sockets n) of (a, t) \<Rightarrow>
             (case streams_close_owner owner (if_streams n) of (b, ss) \<Rightarrow>
                (a + b, g\<lparr>net_iface := Some (n\<lparr>if_sockets := t, if_streams := ss\<rparr>)\<rparr>))))"

definition ask_socket :: "(sockets \<Rightarrow> socket_error + 'a) \<Rightarrow> 'd net \<Rightarrow> net_error + 'a" where
  "ask_socket f g =
     (case net_iface g of None \<Rightarrow> Inl NoDevice
      | Some n \<Rightarrow> (case f (if_sockets n) of Inl e \<Rightarrow> Inl (SocketErr e) | Inr x \<Rightarrow> Inr x))"

definition net_socket_info ::
  "task_id \<Rightarrow> nat \<Rightarrow> 'd net \<Rightarrow> net_error + u16 \<times> (ipv4 \<times> u16) option \<times> (ipv4 \<times> u16) option \<times> bool" where
  "net_socket_info owner index = ask_socket (socket_describe owner index)"

definition net_socket_peer :: "task_id \<Rightarrow> nat \<Rightarrow> 'd net \<Rightarrow> net_error + (ipv4 \<times> u16) option" where
  "net_socket_peer owner index = ask_socket (socket_last_peer owner index)"

definition net_arp_table :: "nat \<Rightarrow> 'd net \<Rightarrow> (ipv4 \<times> mac \<times> nat) list" where
  "net_arp_table now g = (case net_iface g of None \<Rightarrow> [] | Some n \<Rightarrow> arp_list (if_table n) now)"

text \<open>
  One round of the receive task: the frames the card has, in order, then the timers.  What the
  card holds is given by the caller; the clock is read anew for every frame.
\<close>

definition service_round :: "'d transmit \<Rightarrow> (nat \<times> u8 list) list \<Rightarrow> nat \<Rightarrow> 'd iface \<Rightarrow> 'd iface" where
  "service_round tx frames now n =
     tcp_tick tx now (fold (\<lambda>(t, frame). handle tx t frame) frames n)"

end
