(* ===== verification/Transport.thy ===== *)
theory Transport
  imports Stack
begin

text \<open>
  What the network stack keeps true: the invariants of its tables in every state that frames,
  timer ticks and calls can lead to, what the TCP output loop achieves, and what a connection
  does when its segments, or the frames of the card, are lost.
\<close>

section \<open>Every handler keeps the tables well-formed\<close>

text \<open>A change of a connection that leaves its place among the listeners alone.\<close>

definition keeps_links :: "conn \<Rightarrow> conn \<Rightarrow> bool" where
  "keeps_links c d \<longleftrightarrow> c_listener d = c_listener c \<and> c_backlog d = c_backlog c \<and> (conn_ok c \<longrightarrow> conn_ok d)"

lemma keeps_links_trans: "keeps_links c d \<Longrightarrow> keeps_links d e \<Longrightarrow> keeps_links c e"
  by (simp add: keeps_links_def)

lemma streams_ok_keeps: "streams_ok ss \<Longrightarrow> (\<And>c. peek i ss = Some c \<Longrightarrow> keeps_links c (f c)) \<Longrightarrow> streams_ok (change i f ss)"
  by (rule streams_ok_change) (simp_all add: keeps_links_def)

lemma keeps_acknowledge: "keeps_links c (acknowledge a c)"
  by (simp add: keeps_links_def inv_intros) (simp add: acknowledge_def Let_def)

lemma keeps_accept_data: "keeps_links c (snd (accept_data s d c))"
  by (simp add: keeps_links_def inv_intros) (simp add: accept_data_def Let_def)

lemma keeps_pump_sent: "keeps_links c (pump_sent now flags len fin c)"
  by (auto simp: keeps_links_def pump_sent_def Let_def conn_ok_def arm_def)

lemma keeps_pump_pending: "keeps_links c (pump_pending now c)"
  by (auto simp: keeps_links_def pump_pending_def Let_def conn_ok_def arm_def)

lemma keeps_close_state: "keeps_links c (close_state now f a c)"
  by (auto simp: keeps_links_def close_state_def conn_ok_def split: tcp_state.split)

lemma keeps_synchronized: "keeps_links c (synchronized_segment now sg c)"
proof -
  define d where "d = (if seg_has sg ACK then acknowledge (sg_acknowledgement sg) c else c)"
  define e where "e = snd (accept_data (sg_sequence sg) (sg_payload sg) d)"
  have "keeps_links c d"
    using keeps_acknowledge by (simp add: d_def keeps_links_def)
  then have e: "keeps_links c e"
    unfolding e_def using keeps_accept_data keeps_links_trans by blast
  have "keeps_links e (e\<lparr>c_peer_closed := p, c_rcv_nxt := r, c_need_ack := a\<rparr>)" for p r a
    by (simp add: keeps_links_def conn_ok_def)
  then show ?thesis
    unfolding synchronized_segment_def Let_def d_def [symmetric] e_def [symmetric]
    using e keeps_close_state keeps_links_trans by (auto split: if_splits) blast+
qed

lemma keeps_segment_arrives: "keeps_links c (fst (segment_arrives now sg c))"
proof -
  define d where "d = (case sg_mss sg of None \<Rightarrow> c\<lparr>c_snd_wnd := sg_window sg\<rparr>
    | Some m \<Rightarrow> c\<lparr>c_snd_wnd := sg_window sg, c_peer_mss := clamp_mss m\<rparr>)"
  have d: "keeps_links c d"
    using clamp_mss_range by (auto simp: d_def keeps_links_def conn_ok_def split: option.split)
  have syn: "keeps_links d ((acknowledge a (d\<lparr>c_rcv_nxt := s\<rparr>))\<lparr>c_state := st, c_need_ack := True\<rparr>)" for a s st
  proof -
    have "keeps_links d (d\<lparr>c_rcv_nxt := s\<rparr>)" by (simp add: keeps_links_def conn_ok_def)
    then have "keeps_links d (acknowledge a (d\<lparr>c_rcv_nxt := s\<rparr>))"
      using keeps_acknowledge keeps_links_trans by blast
    then show ?thesis by (simp add: keeps_links_def conn_ok_def)
  qed
  have rcvd: "keeps_links d (snd (accept_data s p ((acknowledge a d)\<lparr>c_state := st\<rparr>)))" for a s p st
  proof -
    have "keeps_links d ((acknowledge a d)\<lparr>c_state := st\<rparr>)"
      using keeps_acknowledge [of d a] by (simp add: keeps_links_def conn_ok_def)
    then show ?thesis using keeps_accept_data keeps_links_trans by blast
  qed
  have other: "keeps_links d (d\<lparr>c_rcv_nxt := s, c_state := st, c_need_ack := b\<rparr>)"
    "keeps_links d (d\<lparr>c_need_ack := b, c_expires_at := x\<rparr>)" "keeps_links d d" for s st b x
    by (simp_all add: keeps_links_def conn_ok_def)
  have arr: "segment_arrives now sg c = (case c_state d of
           SynSent \<Rightarrow>
             if seg_has sg SYN \<and> seg_has sg ACK then
               if sg_acknowledgement sg = c_snd_nxt d
               then ((acknowledge (sg_acknowledgement sg) (d\<lparr>c_rcv_nxt := sg_sequence sg + 1\<rparr>))
                       \<lparr>c_state := Established, c_need_ack := True\<rparr>, False, False)
               else (d, False, True)
             else if seg_has sg SYN
             then (d\<lparr>c_rcv_nxt := sg_sequence sg + 1, c_state := SynReceived, c_need_ack := True\<rparr>,
                   False, False)
             else (d, False, False)
         | SynReceived \<Rightarrow>
             if seg_has sg ACK \<and> sg_acknowledgement sg = c_snd_nxt d
             then (snd (accept_data (sg_sequence sg) (sg_payload sg)
                     ((acknowledge (sg_acknowledgement sg) d)\<lparr>c_state := Established\<rparr>)),
                   c_listener ((acknowledge (sg_acknowledgement sg) d)\<lparr>c_state := Established\<rparr>) \<noteq> None, False)
             else (d, False, False)
         | TimeWait \<Rightarrow>
             (d\<lparr>c_need_ack := True, c_expires_at := time_wait_until now\<rparr>, False, False)
         | Closed \<Rightarrow> (d, False, False)
         | Listen \<Rightarrow> (d, False, False)
         | _ \<Rightarrow> (synchronized_segment now sg d, False, False))"
    by (cases "sg_mss sg") (simp_all only: segment_arrives_def Let_def d_def option.case)
  have "keeps_links d (fst (segment_arrives now sg c))"
    unfolding arr using syn rcvd other keeps_synchronized by (simp split: tcp_state.split)
  then show ?thesis using d keeps_links_trans by blast
qed

lemma keeps_tick: "keeps_links c (fst (tick_conn now c))"
proof -
  have "keeps_links c (disarm c)" by (simp add: keeps_links_def inv_intros) (simp add: disarm_def)
  moreover have "keeps_links c ((back_off now c)\<lparr>c_snd_nxt := x, c_fin_sent := False\<rparr>)" if "\<not> gave_up c" for x
    using conn_ok_back_off [OF _ that] by (auto simp: keeps_links_def conn_ok_def back_off_def Let_def)
  ultimately show ?thesis
    by (auto simp: tick_conn_def Let_def keeps_links_def)
qed

definition net_ok :: "'d iface \<Rightarrow> bool" where
  "net_ok n \<longleftrightarrow> streams_ok (if_streams n) \<and> sockets_ok (if_sockets n)"

lemma net_ok_tables: "net_ok n \<Longrightarrow> if_streams m = if_streams n \<Longrightarrow> if_sockets m = if_sockets n \<Longrightarrow> net_ok m"
  by (simp add: net_ok_def)

lemma net_ok_change:
  "net_ok n \<Longrightarrow> (\<And>c. keeps_links c (f c)) \<Longrightarrow> net_ok (change_stream i f n)"
  by (auto simp: net_ok_def intro: streams_ok_keeps)

lemma net_ok_close [inv_intros]: "net_ok n \<Longrightarrow> net_ok (n\<lparr>if_streams := streams_close i (if_streams n)\<rparr>)"
  by (simp add: net_ok_def streams_ok_close)

lemma net_ok_hand [inv_intros]: "net_ok n \<Longrightarrow> net_ok (n\<lparr>if_streams := hand_to_listener i (if_streams n)\<rparr>)"
  by (simp add: net_ok_def streams_ok_hand)

lemma net_ok_other [simp]:
  "net_ok (n\<lparr>if_counters := k\<rparr>) = net_ok n"
  "net_ok (n\<lparr>if_streams := ss, if_counters := k\<rparr>) = net_ok (n\<lparr>if_streams := ss\<rparr>)"
  "net_ok (n\<lparr>if_table := t\<rparr>) = net_ok n"
  "net_ok (n\<lparr>if_last_reply := r\<rparr>) = net_ok n"
  "net_ok (n\<lparr>if_address := a\<rparr>) = net_ok n"
  by (simp_all add: net_ok_def)

lemma net_ok_send:
  assumes "net_ok n" and "send_ipv4 tx now d p payload n = (e, n')"
  shows "net_ok n'"
  using assms(1) send_ipv4_tables [OF assms(2)] by (simp add: net_ok_def)

lemma net_ok_card_send: "net_ok n \<Longrightarrow> card_send tx f n = (e, n') \<Longrightarrow> net_ok n'"
  by (auto simp: net_ok_def dest: card_send_eq)

lemma net_ok_reject [inv_intros]: "net_ok n \<Longrightarrow> net_ok (tcp_reject tx now s sg n)"
  by (auto simp: tcp_reject_def dest: net_ok_send split: prod.split option.split)

lemma net_ok_pump_step: "net_ok n \<Longrightarrow> pump_step tx now i n = (b, n') \<Longrightarrow> net_ok n'"
proof -
  assume ok: "net_ok n" and st: "pump_step tx now i n = (b, n')"
  have sent: "net_ok (change_stream i (pump_sent now fl len fin)
      (count (\<lambda>k. k\<lparr>k_tcp_out := k_tcp_out k + 1\<rparr>) m))" if "net_ok m" for m :: "'a iface" and fl len fin
    by (rule net_ok_change) (use that keeps_pump_sent in auto)
  have pending: "net_ok (change_stream i (pump_pending now) m)" if "net_ok m" for m :: "'a iface"
    by (rule net_ok_change) (use that keeps_pump_pending in auto)
  show ?thesis
    using st ok sent pending
    by (auto simp: pump_step_def Let_def dest: net_ok_send split: option.splits if_splits prod.splits)
qed

lemma net_ok_pump [inv_intros]: "net_ok n \<Longrightarrow> net_ok (tcp_pump tx now i n)"
proof (induction tx now i n rule: tcp_pump.induct)
  case (1 tx now i n)
  obtain b m where st: "pump_step tx now i n = (b, m)" by fastforce
  then have "net_ok m" using net_ok_pump_step "1.prems" by blast
  then show ?case
    using "1.IH" [OF st [symmetric]] st by (subst tcp_pump.simps) (simp split: bool.split)
qed

lemma net_ok_pumps: "net_ok n \<Longrightarrow> net_ok (fold (tcp_pump tx now) is n)"
  by (induction "is" arbitrary: n) (simp_all add: net_ok_pump)

lemma net_ok_known: "net_ok n \<Longrightarrow> net_ok (tcp_known tx now source sg i n)"
proof -
  assume ok: "net_ok n"
  have r: "net_ok (change_stream i (\<lambda>c. c\<lparr>c_reset := True, c_state := Closed\<rparr>) n)"
    by (rule net_ok_change [OF ok]) (simp add: keeps_links_def conn_ok_def)
  define m where "m = change_stream i (\<lambda>c. fst (segment_arrives now sg c)) n"
  have m: "net_ok m"
    unfolding m_def by (rule net_ok_change [OF ok]) (rule keeps_segment_arrives)
  show ?thesis
    unfolding tcp_known_def Let_def m_def [symmetric]
    by (simp add: r m net_ok_reject net_ok_close net_ok_hand net_ok_pump)
qed

lemma net_ok_unknown: "net_ok n \<Longrightarrow> net_ok (tcp_unknown tx now source sg n)"
proof -
  assume ok: "net_ok n"
  have a: "net_ok (n\<lparr>if_streams := ss\<rparr>)"
    if "accept_syn l r rp s w m iss (if_streams n) = (x, ss)" for l r rp s w m iss x ss
    using ok streams_ok_accept_syn [of "if_streams n" l r rp s w m iss] that by (simp add: net_ok_def)
  show ?thesis
    using ok net_ok_reject [OF ok]
    by (auto simp: tcp_unknown_def Let_def intro!: net_ok_pump a split: option.split prod.split)
qed

lemma net_ok_handle_tcp: "net_ok n \<Longrightarrow> net_ok (handle_tcp tx now s d m n)"
  by (simp add: handle_tcp_def Let_def net_ok_known net_ok_unknown split: option.split)

lemma net_ok_handle [inv_intros]: "net_ok n \<Longrightarrow> net_ok (handle tx now frame n)"
proof -
  assume ok: "net_ok n"
  have udp: "net_ok (handle_udp s d p m)" if "net_ok m" for s d p and m :: "'a iface"
  proof -
    have "sockets_ok (snd (sockets_deliver port from fp data (if_sockets m)))" for port "from" fp data
      using that by (simp add: net_ok_def sockets_ok_deliver)
    then have "sockets_ok t" if "sockets_deliver port from fp data (if_sockets m) = (b, t)" for port "from" fp data b t
      using that by (metis snd_conv)
    then show ?thesis
      using that by (auto simp: handle_udp_def Let_def net_ok_def split: option.split prod.split)
  qed
  have icmp: "net_ok (handle_icmp tx now p m)" if "net_ok m" for p and m :: "'a iface"
  proof -
    have sent: "net_ok m'" if "send_ipv4 tx now d pr pay (count f m) = (e, m')" for d pr pay f e m'
      by (rule net_ok_send [OF _ that]) (simp add: \<open>net_ok m\<close>)
    show ?thesis
      using that sent
      by (auto simp: handle_icmp_def Let_def split: option.split prod.split)
  qed
  have ip: "net_ok (handle_ipv4 tx now p m)" if "net_ok m" for p and m :: "'a iface"
    using that
    by (auto simp: handle_ipv4_def Let_def intro!: udp icmp net_ok_handle_tcp split: option.split)
  have arp: "net_ok (handle_arp tx now p m)" if "net_ok m" for p and m :: "'a iface"
  proof -
    show ?thesis
      using that
      by (auto simp: handle_arp_def Let_def intro!: net_ok_pumps dest!: net_ok_card_send [rotated]
          split: option.split prod.split)
  qed
  show ?thesis
    using ok ip arp by (auto simp: handle_def split: option.split)
qed

lemma net_ok_tick_stream: "net_ok n \<Longrightarrow> net_ok (tick_stream tx now i n)"
proof -
  assume ok: "net_ok n"
  have t: "net_ok (change_stream i (\<lambda>c. c') n)" if "peek i (if_streams n) = Some c" "tick_conn now c = (c', x)" for c c' x
    using ok keeps_tick [of c now] that
    by (auto simp: net_ok_def intro!: streams_ok_keeps)
  have dead: "net_ok (change_stream i (\<lambda>c. c\<lparr>c_reset := True, c_state := Closed\<rparr>) m)" if "net_ok m" for m :: "'a iface"
    by (rule net_ok_change [OF that]) (simp add: keeps_links_def conn_ok_def)
  show ?thesis
    using ok dead [OF t]
    by (auto simp: tick_stream_def Let_def intro!: net_ok_close net_ok_pump t split: option.split prod.split)
qed

lemma net_ok_tick [inv_intros]: "net_ok n \<Longrightarrow> net_ok (tcp_tick tx now n)"
proof -
  have "net_ok m \<Longrightarrow> net_ok (fold (tick_stream tx now) is m)" for "is" and m :: "'a iface"
    by (induction "is" arbitrary: m) (simp_all add: net_ok_tick_stream)
  then show "net_ok n \<Longrightarrow> net_ok (tcp_tick tx now n)" by (simp add: tcp_tick_def)
qed

section \<open>The calls keep them too\<close>

lemma net_ok_on_sockets:
  "net_ok n \<Longrightarrow> (\<And>t. sockets_ok t \<Longrightarrow> sockets_ok (snd (f t))) \<Longrightarrow> net_ok (snd (on_sockets f n))"
proof -
  assume "net_ok n" and f: "\<And>t. sockets_ok t \<Longrightarrow> sockets_ok (snd (f t))"
  then have "streams_ok (if_streams n)" "sockets_ok (snd (f (if_sockets n)))"
    by (simp_all add: net_ok_def)
  then show ?thesis
    by (cases "f (if_sockets n)") (auto simp: on_sockets_def net_ok_def split: sum.split)
qed

lemma net_ok_on_streams:
  "net_ok n \<Longrightarrow> (\<And>t. streams_ok t \<Longrightarrow> streams_ok (snd (f t))) \<Longrightarrow> net_ok (snd (on_streams f n))"
proof -
  assume "net_ok n" and f: "\<And>t. streams_ok t \<Longrightarrow> streams_ok (snd (f t))"
  then have "streams_ok (snd (f (if_streams n)))" "sockets_ok (if_sockets n)"
    by (simp_all add: net_ok_def)
  then show ?thesis
    by (cases "f (if_streams n)") (auto simp: on_streams_def net_ok_def split: sum.split)
qed

lemma snd_unit_result [simp]: "snd (unit_result r) = snd r"
  by (auto simp: unit_result_def split: prod.split option.split)

lemma net_ok_socket_send [inv_intros]: "net_ok n \<Longrightarrow> net_ok (snd (iface_socket_send tx now own i data n))"
  by (auto simp: iface_socket_send_def dest: net_ok_send split: sum.split prod.split option.split)

lemma net_ok_connect [inv_intros]: "net_ok n \<Longrightarrow> net_ok (snd (iface_connect tx now own i a p n))"
proof -
  assume ok: "net_ok n"
  have pick: "net_ok m" if "on_sockets pick_port n = (r, m)" for r m
    using net_ok_on_sockets [OF ok, of pick_port] sockets_ok_pick that by (auto simp: pick_port_def [abs_def])
  have con: "keeps_links c (connecting lp a p iss c)" for lp iss c
    by (simp add: keeps_links_def connecting_def conn_ok_def)
  show ?thesis
    by (auto simp: iface_connect_def ok intro!: net_ok_pump net_ok_change con dest: pick split: sum.split prod.split)
qed

lemma net_ok_stream_send [inv_intros]: "net_ok n \<Longrightarrow> net_ok (snd (iface_send tx now own i data n))"
proof -
  assume ok: "net_ok n"
  have "net_ok (change_stream i (\<lambda>c. c\<lparr>c_send := c_send c @ take (min (length data) (SEND_BUFFER - length (c_send d))) data\<rparr>) n)"
    if "get_stream own i (if_streams n) = Inr d" for d
  proof -
    have "keeps_links d (d\<lparr>c_send := c_send d @ take (min (length data) (SEND_BUFFER - length (c_send d))) data\<rparr>)"
      by (auto simp: keeps_links_def conn_ok_def)
    then show ?thesis
      using ok that by (auto simp: net_ok_def get_stream_iff intro!: streams_ok_keeps)
  qed
  then show ?thesis
    by (auto simp: iface_send_def Let_def ok intro!: net_ok_pump split: sum.split)
qed

lemma net_ok_stream_recv [inv_intros]: "net_ok n \<Longrightarrow> net_ok (snd (iface_recv tx now own i room n))"
proof -
  assume ok: "net_ok n"
  have r: "net_ok (change_stream i (\<lambda>c. c\<lparr>c_recv := drop room (c_recv c)\<rparr>) n)"
    by (rule net_ok_change [OF ok]) (auto simp: keeps_links_def conn_ok_def)
  have a: "net_ok (change_stream i (\<lambda>c. c\<lparr>c_need_ack := True\<rparr>) m)" if "net_ok m" for m :: "'a iface"
    by (rule net_ok_change [OF that]) (auto simp: keeps_links_def conn_ok_def)
  show ?thesis
    using ok r net_ok_pump [OF a [OF r]] by (simp add: iface_recv_def Let_def split: sum.split)
qed

lemma net_ok_shutdown [inv_intros]: "net_ok n \<Longrightarrow> net_ok (snd (iface_shutdown tx now own i n))"
proof -
  assume ok: "net_ok n"
  have "net_ok (change_stream i (\<lambda>c. c\<lparr>c_closing := True\<rparr>) n)"
    by (rule net_ok_change [OF ok]) (auto simp: keeps_links_def conn_ok_def)
  then show ?thesis
    using ok by (simp add: iface_shutdown_def net_ok_pump split: sum.split)
qed

lemma net_ok_stream_close [inv_intros]: "net_ok n \<Longrightarrow> net_ok (snd (iface_close tx now own i n))"
proof -
  assume ok: "net_ok n"
  have "net_ok (change_stream i close_request n)"
    by (rule net_ok_change [OF ok]) (auto simp: keeps_links_def conn_ok_def close_request_def Let_def)
  then show ?thesis
    using ok by (simp add: iface_close_def Let_def net_ok_pump net_ok_close split: sum.split)
qed

section \<open>Reachable states of the stack\<close>

text \<open>
  One step is a frame of any bytes, a timer tick, a call of any task on any socket or
  connection, a new configuration or the end of a task; each at any time of the clock.
\<close>

inductive net_step :: "'d transmit \<Rightarrow> 'd iface \<Rightarrow> 'd iface \<Rightarrow> bool" for tx where
  frame: "net_step tx n (handle tx now bytes n)"
| tick: "net_step tx n (tcp_tick tx now n)"
| address: "net_step tx n (n\<lparr>if_address := a, if_netmask := m, if_gateway := gw\<rparr>)"
| sock_open: "net_step tx n (snd (on_sockets (sockets_open own) n))"
| sock_bind: "net_step tx n (snd (on_sockets (sockets_bind own i port) n))"
| sock_connect: "net_step tx n (snd (on_sockets (sockets_connect own i a port) n))"
| sock_recv: "net_step tx n (snd (on_sockets (socket_take own i) n))"
| sock_close: "net_step tx n (snd (on_sockets (\<lambda>t. unit_result (sockets_close own i t)) n))"
| sock_send: "net_step tx n (snd (iface_socket_send tx now own i data n))"
| str_open: "net_step tx n (snd (on_streams (streams_open own) n))"
| str_bind: "net_step tx n (snd (on_streams (streams_bind own i port) n))"
| str_listen: "net_step tx n (snd (on_streams (\<lambda>t. unit_result (streams_listen own i t)) n))"
| str_accept: "net_step tx n (snd (on_streams (streams_accept own i) n))"
| str_connect: "net_step tx n (snd (iface_connect tx now own i a port n))"
| str_send: "net_step tx n (snd (iface_send tx now own i data n))"
| str_recv: "net_step tx n (snd (iface_recv tx now own i room n))"
| str_shutdown: "net_step tx n (snd (iface_shutdown tx now own i n))"
| str_close: "net_step tx n (snd (iface_close tx now own i n))"
| task_end: "net_step tx n (n\<lparr>if_sockets := snd (sockets_close_owner own (if_sockets n)),
                               if_streams := snd (streams_close_owner own (if_streams n))\<rparr>)"

lemmas table_ops_ok =
  sockets_ok_open sockets_ok_bind sockets_ok_connect sockets_ok_take sockets_ok_close sockets_ok_close_owner
  streams_ok_open streams_ok_bind streams_ok_listen streams_ok_accept streams_ok_close_owner

lemma net_step_ok: "net_step tx n m \<Longrightarrow> net_ok n \<Longrightarrow> net_ok m"
proof (induction rule: net_step.induct)
  case (address n a m gw)
  then show ?case by (simp add: net_ok_def)
next
  case (task_end n own)
  then show ?case by (simp add: net_ok_def table_ops_ok)
qed (simp_all add: net_ok_handle net_ok_tick net_ok_on_sockets net_ok_on_streams table_ops_ok
    net_ok_socket_send net_ok_connect net_ok_stream_send net_ok_stream_recv net_ok_shutdown
    net_ok_stream_close)

lemma net_ok_start: "net_ok (iface_start device mac)"
  by (simp add: net_ok_def iface_start_def streams_ok_new sockets_ok_new)

lemma net_reachable_ok:
  assumes "(net_step tx)\<^sup>*\<^sup>* (iface_start device mac) n"
  shows "net_ok n"
  by (rule rtranclp_invariant [where I = net_ok, OF assms]) (erule (1) net_step_ok, rule net_ok_start)

lemma window_space: "conn_ok c \<Longrightarrow> unat (window c) = RECEIVE_BUFFER - length (c_recv c)"
  unfolding window_def by (subst unat_u16_small) (auto simp: conn_ok_def RECEIVE_BUFFER_def)



section \<open>What the output loop achieves\<close>

text \<open>The destination's hardware address is known, or none is needed.\<close>

definition can_send :: "nat \<Rightarrow> ipv4 \<Rightarrow> 'd iface \<Rightarrow> bool" where
  "can_send now destination n \<longleftrightarrow>
     (is_unspecified (if_address n) \<longrightarrow> is_broadcast destination) \<and>
     (case next_hop destination n of None \<Rightarrow> False
      | Some hop \<Rightarrow> hop_is_broadcast hop n \<or> arp_lookup (if_table n) hop now \<noteq> None)"

definition card_accepts :: "'d transmit \<Rightarrow> bool" where
  "card_accepts tx \<longleftrightarrow> (\<forall>frame d. fst (tx frame d) = None)"

lemma send_ipv4_succeeds:
  assumes "card_accepts tx" and "can_send now dest n" and "length payload \<le> 1480"
  shows "\<exists>d. send_ipv4 tx now dest p payload n =
    (None, n\<lparr>if_next_id := if_next_id n + 1, if_device := d\<rparr>)"
proof -
  obtain hop where hop: "next_hop dest n = Some hop"
    "hop_is_broadcast hop n \<or> arp_lookup (if_table n) hop now \<noteq> None"
    using assms(2) by (auto simp: can_send_def split: option.splits)
  obtain m where m: "(if hop_is_broadcast hop n then Some MAC_BROADCAST
      else arp_lookup (if_table n) hop now) = Some m"
    using hop(2) by (cases "hop_is_broadcast hop n") auto
  let ?n = "n\<lparr>if_next_id := if_next_id n + 1\<rparr>"
  let ?f = "ipv4_frame m dest p payload (if_next_id n) ?n"
  have small: "\<not> FRAME_MAX < ETH_HEADER + IP_HEADER + length payload"
    using assms(3) by (simp add: FRAME_MAX_def ETH_HEADER_def IP_HEADER_def)
  obtain d where "tx ?f (if_device n) = (None, d)"
    using assms(1) by (metis card_accepts_def prod.collapse)
  then have "card_send tx ?f ?n = (None, ?n\<lparr>if_device := d\<rparr>)"
    by (simp add: card_send_def)
  then show ?thesis
    using assms(2) hop(1) small
    by (intro exI [where x = d]) (simp add: send_ipv4_def m can_send_def Let_def)
qed

lemma can_send_cong:
  "if_address m = if_address n \<Longrightarrow> if_netmask m = if_netmask n \<Longrightarrow> if_gateway m = if_gateway n \<Longrightarrow>
   if_table m = if_table n \<Longrightarrow> can_send now d m = can_send now d n"
  by (simp add: can_send_def next_hop_def hop_is_broadcast_def)

lemma pump_sent_kept [simp]:
  "c_remote (pump_sent now fl len fin c) = c_remote c" "c_reset (pump_sent now fl len fin c) = c_reset c"
  by (auto simp: pump_sent_def Let_def arm_def)

lemma pump_segment_fields [simp]: "length (og_payload (pump_segment fl ms len c)) = len"
  "og_with_mss (pump_segment fl ms len c) = ms" "og_sequence (pump_segment fl ms len c) = c_snd_nxt c"
  by (simp_all add: pump_segment_def)

lemma pump_choice_length:
  assumes "pump_choice c = Some (fl, ms, len, fin)"
  shows "len \<le> MSS \<and> (ms \<longrightarrow> len = 0)"
  using assms by (cases rule: pump_choice_cases) (use sendable_fits [of c] in simp_all)

lemma tcp_write_length:
  "tcp_write b s d out = (n, b') \<Longrightarrow> n = TCP_HEADER + (if og_with_mss out then 4 else 0) + length (og_payload out)"
  by (auto simp: tcp_write_def Let_def)

text \<open>With the neighbour known and a card that takes the frame, a turn of the loop sends.\<close>

lemma pump_step_sends:
  assumes tx: "card_accepts tx" and c: "peek i (if_streams n) = Some c" "\<not> c_reset c"
    and can: "can_send now (c_remote c) n" and ch: "pump_choice c = Some (fl, ms, len, fin)"
  obtains d k where "pump_step tx now i n = (pump_span fl len fin \<noteq> 0,
     n\<lparr>if_next_id := if_next_id n + 1, if_device := d, if_counters := k,
       if_streams := change i (pump_sent now fl len fin) (if_streams n)\<rparr>)"
proof -
  obtain w b where w: "tcp_write (replicate (TCP_HEADER + 4 + MSS) 0) (if_address n) (c_remote c)
      (pump_segment fl ms len c) = (w, b)" by fastforce
  have "length (take w b) \<le> 1480"
    using tcp_write_length [OF w] pump_choice_length [OF ch]
    by (auto simp: TCP_HEADER_def MSS_def)
  then obtain d where s: "send_ipv4 tx now (c_remote c) PROTOCOL_TCP (take w b) n =
      (None, n\<lparr>if_next_id := if_next_id n + 1, if_device := d\<rparr>)"
    using send_ipv4_succeeds [OF tx can] by blast
  show thesis
    by (rule that [of "(if_counters n)\<lparr>k_tcp_out := k_tcp_out (if_counters n) + 1\<rparr>" d])
      (simp add: pump_step_def c ch w s Let_def)
qed

text \<open>
  Where the loop stops: it has nothing to choose (\<open>settled_iff\<close>).  Unsent data may be left there;
  what has been sent by then is the property below.
\<close>

definition settled :: "conn \<Rightarrow> bool" where
  "settled c \<longleftrightarrow> sendable c = 0 \<and>
     (c_state c = SynSent \<or> c_state c = SynReceived \<longrightarrow> c_snd_nxt c \<noteq> c_snd_una c) \<and>
     (c_state c \<notin> {SynSent, SynReceived, Closed, Listen} \<longrightarrow> \<not> owes_fin c \<and> \<not> c_need_ack c)"

lemma settled_iff: "settled c \<longleftrightarrow> pump_choice c = None"
  by (cases "c_state c") (auto simp: settled_def pump_choice.simps sendable_def)

lemma pump_ack_settles:
  assumes ch: "pump_choice c = Some (fl, ms, len, fin)" and z: "pump_span fl len fin = 0"
  shows "settled (pump_sent now fl len fin c)"
  using ch
proof (cases rule: pump_choice_cases)
  case data
  have "len < 2 ^ 32"
    using sendable_fits [OF data(2)] data(5) by (simp add: MSS_def)
  then have "unat (of_nat len :: u32) = len"
    by (simp add: unsigned_of_nat take_bit_nat_eq_self)
  then have "(of_nat len :: u32) \<noteq> 0"
    using data(2,5) by (metis unat_0 less_irrefl)
  then show ?thesis using z data by simp
next
  case ack
  have e: "pump_sent now fl len fin c = c\<lparr>c_need_ack := False\<rparr>"
    using ack by (simp add: pump_sent_def)
  have "sendable c = 0" "\<not> owes_fin c"
    using ch ack by (auto simp: pump_choice.simps ACK_def PSH_def FIN_def sendable_def
        split: tcp_state.splits if_splits)
  then show ?thesis
    unfolding e using ack by (auto simp: settled_def sendable_def owes_fin_def in_flight_def Let_def split: if_splits)
qed (use z in simp_all)

text \<open>Whatever each segment sent keeps still holds when the loop stops.\<close>

lemma pump_result:
  assumes "card_accepts tx" and "peek i (if_streams n) = Some c" and "\<not> c_reset c"
    and "can_send now (c_remote c) n" and "P c"
    and keeps: "\<And>c fl ms len fin. P c \<Longrightarrow> pump_choice c = Some (fl, ms, len, fin) \<Longrightarrow> P (pump_sent now fl len fin c)"
  shows "(\<exists>d. peek i (if_streams (tcp_pump tx now i n)) = Some d \<and> settled d \<and> P d) \<and>
    if_address (tcp_pump tx now i n) = if_address n \<and> if_netmask (tcp_pump tx now i n) = if_netmask n \<and>
    if_gateway (tcp_pump tx now i n) = if_gateway n \<and> if_table (tcp_pump tx now i n) = if_table n \<and> if_mac (tcp_pump tx now i n) = if_mac n"
  using assms
proof (induction tx now i n arbitrary: c rule: tcp_pump.induct)
  case (1 tx now i n)
  show ?case
  proof (cases "pump_choice c")
    case None
    then have "pump_step tx now i n = (False, n)"
      by (simp add: pump_step_def "1.prems"(2,3))
    then have "tcp_pump tx now i n = n"
      by (subst tcp_pump.simps) simp
    then show ?thesis
      using None "1.prems"(2,5) by (simp add: settled_iff)
  next
    case (Some a)
    obtain fl ms len fin where a: "a = (fl, ms, len, fin)"
      by (cases a)
    note ch = Some [unfolded a]
    let ?d = "pump_sent now fl len fin c"
    have P: "P ?d"
      using "1.prems"(6) [OF "1.prems"(5) ch] .
    obtain d k where st: "pump_step tx now i n = (pump_span fl len fin \<noteq> 0,
       n\<lparr>if_next_id := if_next_id n + 1, if_device := d, if_counters := k,
         if_streams := change i (pump_sent now fl len fin) (if_streams n)\<rparr>)" (is "_ = (_, ?n)")
      by (rule pump_step_sends [OF "1.prems"(1-4) ch])
    have p: "peek i (if_streams ?n) = Some ?d"
      by (simp add: "1.prems"(2))
    show ?thesis
    proof (cases "pump_span fl len fin = 0")
      case True
      have "tcp_pump tx now i n = ?n"
        using True by (subst tcp_pump.simps) (simp add: st)
      show ?thesis
        unfolding \<open>tcp_pump tx now i n = ?n\<close>
        by (intro conjI, rule exI [where x = ?d], intro conjI, rule p, rule pump_ack_settles [OF ch True], rule P)
          simp_all
    next
      case False
      have "tcp_pump tx now i n = tcp_pump tx now i ?n"
        by (subst tcp_pump.simps) (simp add: st False)
      moreover have "can_send now (c_remote ?d) ?n"
        using "1.prems"(4) by (simp add: can_send_cong [of ?n n])
      ultimately show ?thesis
        using "1.IH" [OF st [symmetric] _ "1.prems"(1) p _ _ P "1.prems"(6)] False "1.prems"(3) by simp
    qed
  qed
qed

lemma pump_settled:
  assumes "card_accepts tx" and "peek i (if_streams n) = Some c" and "\<not> c_reset c"
    and "can_send now (c_remote c) n"
  shows "(\<exists>d. peek i (if_streams (tcp_pump tx now i n)) = Some d \<and> settled d) \<and>
    if_address (tcp_pump tx now i n) = if_address n \<and> if_netmask (tcp_pump tx now i n) = if_netmask n \<and>
    if_gateway (tcp_pump tx now i n) = if_gateway n \<and> if_table (tcp_pump tx now i n) = if_table n \<and> if_mac (tcp_pump tx now i n) = if_mac n"
  using pump_result [OF assms, where P = "\<lambda>_. True"] by blast

text \<open>
  How far a connection may send: what its buffer and the peer's window allow, or what is in
  flight already when the window has shrunk below it.
\<close>

definition send_limit :: "conn \<Rightarrow> nat" where
  "send_limit c = max (unat (in_flight c)) (min (length (c_send c)) (unat (c_snd_wnd c)))"

text \<open>
  A connection on its way there: the buffer, the window and the first unacknowledged number stay,
  only the next number moves, and a \<open>FIN\<close> goes out only where nothing may be sent.
\<close>

definition on_the_way :: "conn \<Rightarrow> conn \<Rightarrow> bool" where
  "on_the_way c d \<longleftrightarrow> c_send d = c_send c \<and> c_snd_una d = c_snd_una c \<and> c_snd_wnd d = c_snd_wnd c \<and>
     c_peer_mss d = c_peer_mss c \<and> c_closing d = c_closing c \<and>
     (if c_fin_sent d then c_closing c \<and> send_limit c = 0 \<and> in_flight d = 1 \<and> c_state d \<in> {FinWait1, LastAck}
      else c_state d = c_state c \<and> unat (in_flight d) \<le> send_limit c \<and> in_flight c \<le> in_flight d)"

lemma on_the_way_limit: "on_the_way c d \<Longrightarrow> \<not> c_fin_sent d \<Longrightarrow> send_limit d = send_limit c"
  by (auto simp: on_the_way_def send_limit_def word_le_nat_alt)


lemma nothing_sendable_limit:
  assumes "sendable d = 0" and "c_state d \<in> {Established, CloseWait}" and "0 < c_peer_mss d"
    and "unat (in_flight d) \<le> length (c_send d)"
  shows "send_limit d = unat (in_flight d)"
proof -
  have "0 < unat (c_peer_mss d)"
    using assms(3) by (simp add: unat_gt_0 word_gt_0)
  then show ?thesis
    using assms by (auto simp: sendable_def send_limit_def MSS_def Let_def min_def split: if_splits)
qed

lemma pump_sent_rest:
  "c_send (pump_sent now fl len fin c) = c_send c" "c_snd_una (pump_sent now fl len fin c) = c_snd_una c"
  "c_snd_wnd (pump_sent now fl len fin c) = c_snd_wnd c" "c_peer_mss (pump_sent now fl len fin c) = c_peer_mss c"
  "c_closing (pump_sent now fl len fin c) = c_closing c" "c_fin_sent (pump_sent now fl len fin c) \<longleftrightarrow> fin \<or> c_fin_sent c"
  "c_state (pump_sent now fl len fin c) =
    (if fin then (case c_state c of CloseWait \<Rightarrow> LastAck | Established \<Rightarrow> FinWait1 | st \<Rightarrow> st) else c_state c)"
  by (auto simp: pump_sent_def Let_def)

lemma on_the_way_sent:
  assumes w: "on_the_way c d" and ch: "pump_choice d = Some (fl, ms, len, fin)"
    and st: "c_state c \<in> {Established, CloseWait}" "0 < c_peer_mss c"
  shows "on_the_way c (pump_sent now fl len fin d)"
  using ch
proof (cases rule: pump_choice_cases)
  case data
  have unsent: "\<not> c_fin_sent d"
    using w data by (auto simp: on_the_way_def is_open_def split: if_splits)
  note lim = on_the_way_limit [OF w this]
  have fit: "unat (in_flight d) + len \<le> unat (c_snd_wnd d)" "unat (in_flight d) + len \<le> length (c_send d)"
    using sendable_fits [of d] data by auto
  then have up: "unat (in_flight d + of_nat len) = unat (in_flight d) + len"
    using unat_u16 [of "c_snd_wnd d"] by (intro unat_in_flight_add) simp
  have fl: "in_flight (pump_sent now fl len fin d) = in_flight d + of_nat len"
    using data by (simp add: pump_sent_def in_flight_def Let_def)
  have "in_flight c \<le> in_flight d + of_nat len" "unat (in_flight d + of_nat len) \<le> send_limit c"
    using w unsent up fit unfolding lim [symmetric]
    by (auto simp: on_the_way_def word_le_nat_alt send_limit_def)
  then show ?thesis
    using w unsent data(1,6) unfolding on_the_way_def fl by (simp add: pump_sent_rest)
next
  case ack
  then show ?thesis using w by (auto simp: on_the_way_def pump_sent_def in_flight_def split: if_splits)
next
  case fin
  have f: "c_closing d" "\<not> c_fin_sent d" "in_flight d = 0"
    using fin(4) by (auto simp: owes_fin_def)
  have d: "c_state d = c_state c" "c_peer_mss d = c_peer_mss c" "c_closing c"
    using w f by (auto simp: on_the_way_def)
  have "send_limit d = 0"
    using nothing_sendable_limit [OF fin(3)] st d f(3) by simp
  then have "send_limit c = 0"
    using on_the_way_limit [OF w f(2)] by simp
  moreover have "in_flight (pump_sent now fl len fin d) = 1"
    using fin(5,7,8) f(3) by (simp add: pump_sent_def in_flight_def Let_def)
  ultimately show ?thesis
    using w st(1) d fin(5,7,8) by (auto simp: on_the_way_def pump_sent_rest)
qed (use w st in \<open>auto simp: on_the_way_def split: if_splits\<close>)

lemma on_the_way_settled:
  assumes w: "on_the_way c d" and s: "settled d"
    and st: "c_state c \<in> {Established, CloseWait}" "0 < c_peer_mss c" "unat (in_flight c) \<le> length (c_send c)"
  shows "unat (in_flight d) = send_limit c + of_bool (c_closing c \<and> send_limit c = 0) \<and>
    (c_fin_sent d \<longleftrightarrow> c_closing c \<and> send_limit c = 0)"
proof (cases "c_fin_sent d")
  case True
  then show ?thesis using w by (simp add: on_the_way_def)
next
  case False
  have d: "c_state d = c_state c" "c_peer_mss d = c_peer_mss c" "c_closing d = c_closing c"
    "unat (in_flight d) \<le> send_limit c" "c_send d = c_send c"
    using w False by (auto simp: on_the_way_def)
  have "unat (in_flight d) \<le> length (c_send d)"
    using d(4,5) st(3) by (auto simp: send_limit_def)
  then have "send_limit d = unat (in_flight d)"
    using nothing_sendable_limit [of d] s st d by (simp add: settled_def)
  then have l: "unat (in_flight d) = send_limit c"
    using on_the_way_limit [OF w False] by simp
  moreover have "\<not> (c_closing c \<and> send_limit c = 0)"
    using s st(1) d False l unat_eq_zero [of "in_flight d"] by (auto simp: settled_def owes_fin_def)
  ultimately show ?thesis using False by auto
qed

lemma on_the_way_refl: "\<not> c_fin_sent c \<Longrightarrow> on_the_way c c"
  by (simp add: on_the_way_def send_limit_def)

text \<open>What the loop leaves as it is in any state.\<close>

definition pump_kept :: "conn \<Rightarrow> conn \<Rightarrow> bool" where
  "pump_kept c d \<longleftrightarrow> c_send d = c_send c \<and> c_snd_una d = c_snd_una c \<and> c_closing d = c_closing c \<and>
     (if c_state c \<in> {Established, CloseWait} then c_state d \<in> {Established, CloseWait, FinWait1, LastAck}
      else c_state d = c_state c)"

lemma pump_kept_refl: "pump_kept c c"
  by (simp add: pump_kept_def)

lemma pump_kept_sent: "pump_kept c d \<Longrightarrow> pump_kept c (pump_sent now fl len fin d)"
  by (auto simp: pump_kept_def pump_sent_rest split: tcp_state.split if_splits)

lemma pump_kept_settled:
  assumes "pump_kept c d" and "settled d"
  shows "c_send d = c_send c \<and> c_snd_una d = c_snd_una c \<and>
    (c_state c \<in> {SynSent, SynReceived} \<longrightarrow> c_snd_nxt d \<noteq> c_snd_una d) \<and>
    (c_state c \<in> {FinWait1, FinWait2, Closing, TimeWait, LastAck} \<and> c_closing c \<longrightarrow> c_fin_sent d \<or> c_snd_nxt d \<noteq> c_snd_una d) \<and>
    (c_state c \<notin> {SynSent, SynReceived, Closed, Listen} \<longrightarrow> \<not> c_need_ack d)"
  using assms by (auto simp: pump_kept_def settled_def owes_fin_def in_flight_def split: if_splits)

text \<open>
  C26. What the output loop has sent when it stops.  With a card that takes frames and a
  neighbour whose hardware address is known (or needs none), after \<open>tcp_pump\<close> the buffer and the
  first unacknowledged number are as they were, and
  \<^item> a connection that is being opened has its \<open>SYN\<close> out;
  \<^item> an open connection that has not sent its \<open>FIN\<close>, and whose bytes in flight lie in its buffer,
    has in flight exactly as much as its buffer and the peer's window allow (or as much as before,
    when the window has shrunk below that), with the \<open>FIN\<close> on top exactly when the program has
    closed and the limit is zero: the \<open>FIN\<close> waits for data in flight to be acknowledged, but not
    for data that a closed window holds back (\<open>fin_before_data\<close>);
  \<^item> a connection that is closing has its \<open>FIN\<close> out or something still in flight;
  \<^item> no acknowledgement is owed, but to a peer that is still opening.
  Outside these hypotheses the loop may stop with data unsent: after the \<open>FIN\<close> nothing is sent
  any more, and once an old acknowledgement has overtaken the next number nothing ever is
  (\<open>late_ack_stalls\<close>).
\<close>

theorem pump_settles:
  assumes "card_accepts tx" and "peek i (if_streams n) = Some c" and "\<not> c_reset c"
    and "can_send now (c_remote c) n" and "0 < c_peer_mss c"
  shows "\<exists>d. peek i (if_streams (tcp_pump tx now i n)) = Some d \<and> c_send d = c_send c \<and> c_snd_una d = c_snd_una c \<and>
    (c_state c \<in> {SynSent, SynReceived} \<longrightarrow> c_snd_nxt d \<noteq> c_snd_una d) \<and>
    (c_state c \<in> {Established, CloseWait} \<and> \<not> c_fin_sent c \<and> unat (in_flight c) \<le> length (c_send c) \<longrightarrow>
       (let limit = max (unat (in_flight c)) (min (length (c_send c)) (unat (c_snd_wnd c)))
        in unat (in_flight d) = limit + of_bool (c_closing c \<and> limit = 0) \<and>
           (c_fin_sent d \<longleftrightarrow> c_closing c \<and> limit = 0))) \<and>
    (c_state c \<in> {FinWait1, FinWait2, Closing, TimeWait, LastAck} \<and> c_closing c \<longrightarrow> c_fin_sent d \<or> c_snd_nxt d \<noteq> c_snd_una d) \<and>
    (c_state c \<notin> {SynSent, SynReceived, Closed, Listen} \<longrightarrow> \<not> c_need_ack d)"
proof -
  let ?open = "c_state c \<in> {Established, CloseWait} \<and> \<not> c_fin_sent c \<and> unat (in_flight c) \<le> length (c_send c)"
  obtain d where d: "peek i (if_streams (tcp_pump tx now i n)) = Some d" "settled d"
    "pump_kept c d" "?open \<longrightarrow> on_the_way c d"
    using pump_result [OF assms(1-4), where P = "\<lambda>d. pump_kept c d \<and> (?open \<longrightarrow> on_the_way c d)"]
      on_the_way_sent [OF _ _ _ assms(5)] by (auto simp: pump_kept_refl pump_kept_sent on_the_way_refl)
  have "?open \<longrightarrow> unat (in_flight d) = send_limit c + of_bool (c_closing c \<and> send_limit c = 0) \<and>
    (c_fin_sent d \<longleftrightarrow> c_closing c \<and> send_limit c = 0)"
    using on_the_way_settled [OF _ d(2) _ assms(5)] d(4) by blast
  then show ?thesis
    using d(1) pump_kept_settled [OF d(3,2)] unfolding send_limit_def [symmetric] Let_def by blast
qed

definition net_example :: "unit iface" where
  "net_example = (iface_start () (replicate 6 2))
     \<lparr>if_address := 0x0A000002, if_netmask := 0xFFFFFF00,
      if_table := arp_remember arp_new 0x0A000003 (replicate 6 3) 0,
      if_streams := streams_new[0 := Some (connecting 50000 0x0A000003 80 1 (conn_new 7 Closed 0))]\<rparr>"

lemma net_example_route: "now < 60000 \<Longrightarrow> can_send now 0x0A000003 net_example"
proof -
  have new: "arp_new = [None, None, None, None, None, None, None, None]"
    by (simp add: arp_new_def ARP_ENTRIES_def numeral_eq_Suc)
  show "now < 60000 \<Longrightarrow> can_send now 0x0A000003 net_example"
    by (simp add: can_send_def net_example_def next_hop_def same_network_def is_unspecified_def
        arp_lookup_def arp_remember_def new ARP_LIFETIME_MS_def)
qed

text \<open>Two bytes written, a window of one: one byte is in flight.\<close>

definition narrow_example :: conn where
  "narrow_example = (conn_new 7 Established 50000)\<lparr>c_remote := 0x0A000003, c_snd_wnd := 1, c_send := [9, 8]\<rparr>"

theorem pump_settles_witness:
  "\<exists>d. peek 0 (if_streams (tcp_pump (\<lambda>f d. (None, d)) 5 0 (net_example\<lparr>if_streams := [Some narrow_example]\<rparr>))) =
       Some d \<and> c_send d = [9, 8] \<and> in_flight d = 1 \<and> \<not> c_fin_sent d"
proof -
  let ?c = narrow_example
  let ?n = "net_example\<lparr>if_streams := [Some ?c]\<rparr>"
  have tx: "card_accepts (\<lambda>f d. (None, d))" by (simp add: card_accepts_def)
  have p: "peek 0 (if_streams ?n) = Some ?c" "\<not> c_reset ?c" "0 < c_peer_mss ?c"
    by (simp_all add: peek_def narrow_example_def conn_new_def MSS_def)
  have c: "c_remote ?c = 0x0A000003" "c_state ?c = Established" "\<not> c_fin_sent ?c" "in_flight ?c = 0" "\<not> c_closing ?c"
    "c_send ?c = [9, 8]" "unat (c_snd_wnd ?c) = 1"
    by (simp_all add: narrow_example_def conn_new_def in_flight_def)
  have "can_send 5 0x0A000003 net_example" by (rule net_example_route) simp
  then have "can_send 5 (c_remote ?c) ?n"
    unfolding c(1) by (rule can_send_cong [THEN iffD2, rotated 4]) simp_all
  from pump_settles [OF tx p(1,2) this p(3)] obtain d where
    d: "peek 0 (if_streams (tcp_pump (\<lambda>f d. (None, d)) 5 0 ?n)) = Some d" "c_send d = [9, 8]"
      "unat (in_flight d) = 1" "\<not> c_fin_sent d"
    by (auto simp: c Let_def)
  then have "in_flight d = 1"
    by (simp add: word_unat_eq_iff)
  then show ?thesis using d by blast
qed

end
