(* ===== verification/Reliable.thy ===== *)
theory Reliable
  imports Transport
begin

text \<open>
  Two ends of one TCP connection over a network that loses, repeats, delays and reorders what
  it likes.  Both ends run the code of \<^verbatim>\<open>net/stream.rs\<close> and \<^verbatim>\<open>net/mod.rs\<close> as it is modelled in
  \<open>Streams\<close> and \<open>Stack\<close>; the theory shows that each end reads exactly what the other has
  written, and how the connection comes to be.
\<close>

section \<open>A connection between two ends\<close>

text \<open>An end: its connection, all its program has written into it and all it has read.\<close>

record endpoint =
  e_conn :: conn
  e_written :: "u8 list"
  e_read :: "u8 list"

text \<open>A link: the two ends, and every segment each has ever put on the wire.\<close>

record link =
  l_a :: endpoint
  l_b :: endpoint
  l_ab :: "outgoing set"
  l_ba :: "outgoing set"

text \<open>What the other side parses (\<open>tcp_round_trip\<close>).\<close>

definition as_segment :: "outgoing \<Rightarrow> segment" where
  "as_segment og =
     \<lparr>sg_source_port = og_source_port og, sg_destination_port = og_destination_port og,
      sg_sequence = og_sequence og, sg_acknowledgement = og_acknowledgement og,
      sg_flags = og_flags og, sg_window = og_window og,
      sg_mss = (if og_with_mss og then Some (of_nat MSS) else None), sg_payload = og_payload og\<rparr>"

text \<open>
  One step of an end: the program writes (\<^verbatim>\<open>stream_send\<close>) or reads (\<^verbatim>\<open>stream_recv\<close>), a turn of
  \<^verbatim>\<open>tcp_pump\<close> sends, the timer fires, or one of the other side's segments arrives, whichever,
  whenever and however often.  The two gigabytes of a direction are the limit within which
  sequence numbers are unambiguous.  There is no step for \<^verbatim>\<open>stream_shutdown\<close> and \<^verbatim>\<open>stream_close\<close>, so
  no \<open>FIN\<close> is ever sent and both ends stay \<open>Established\<close>, nor for the tick that gives a
  connection up, after which it carries nothing: the relation is a connection in use.
\<close>

inductive end_step :: "outgoing set \<Rightarrow> endpoint \<Rightarrow> outgoing set \<Rightarrow> endpoint \<Rightarrow> bool" for inbox where
  writes: "length (e_written e) + taken < 2 ^ 31 \<Longrightarrow>
     taken = min (length data) (SEND_BUFFER - length (c_send (e_conn e))) \<Longrightarrow>
     end_step inbox e {}
       (e\<lparr>e_conn := (e_conn e)\<lparr>c_send := c_send (e_conn e) @ take taken data\<rparr>,
          e_written := e_written e @ take taken data\<rparr>)"
| reads: "end_step inbox e {}
     (e\<lparr>e_conn := (e_conn e)\<lparr>c_recv := drop room (c_recv (e_conn e)), c_need_ack := again\<rparr>,
        e_read := e_read e @ take room (c_recv (e_conn e))\<rparr>)"
| sends: "pump_choice (e_conn e) = Some (fl, ms, len, fin) \<Longrightarrow>
     end_step inbox e {pump_segment fl ms len (e_conn e)}
       (e\<lparr>e_conn := pump_sent now fl len fin (e_conn e)\<rparr>)"
| fires: "tick_conn now (e_conn e) = (c', retransmit, False, counted) \<Longrightarrow>
     end_step inbox e {} (e\<lparr>e_conn := c'\<rparr>)"
| arrives: "og \<in> inbox \<Longrightarrow>
     end_step inbox e {} (e\<lparr>e_conn := fst (segment_arrives now (as_segment og) (e_conn e))\<rparr>)"

inductive link_step :: "link \<Rightarrow> link \<Rightarrow> bool" where
  left: "end_step (l_ba l) (l_a l) S e \<Longrightarrow> link_step l (l\<lparr>l_a := e, l_ab := l_ab l \<union> S\<rparr>)"
| right: "end_step (l_ab l) (l_b l) S e \<Longrightarrow> link_step l (l\<lparr>l_b := e, l_ba := l_ba l \<union> S\<rparr>)"

inductive_cases link_stepE: "link_step l l'"

text \<open>An established connection that has carried nothing yet.\<close>

definition fresh :: "u32 \<Rightarrow> u32 \<Rightarrow> endpoint \<Rightarrow> bool" where
  "fresh mine theirs e \<longleftrightarrow>
     c_state (e_conn e) = Established \<and> \<not> c_closing (e_conn e) \<and> \<not> c_fin_sent (e_conn e) \<and>
     \<not> c_peer_closed (e_conn e) \<and> c_snd_una (e_conn e) = mine \<and> c_snd_nxt (e_conn e) = mine \<and>
     c_rcv_nxt (e_conn e) = theirs \<and> c_send (e_conn e) = [] \<and> c_recv (e_conn e) = [] \<and>
     e_written e = [] \<and> e_read e = []"

definition fresh_link :: "u32 \<Rightarrow> u32 \<Rightarrow> link \<Rightarrow> bool" where
  "fresh_link x y l \<longleftrightarrow> fresh x y (l_a l) \<and> fresh y x (l_b l) \<and> l_ab l = {} \<and> l_ba l = {}"

section \<open>The invariant of one direction\<close>

text \<open>
  The sender has put \<open>W\<close> into the stream, which starts at \<open>base\<close>; \<open>a\<close> bytes of it are
  acknowledged and the next to be sent is byte \<open>x\<close>.  Every segment carries the slice of \<open>W\<close>
  that its number says.
\<close>

definition slice_of :: "u32 \<Rightarrow> u8 list \<Rightarrow> outgoing \<Rightarrow> bool" where
  "slice_of base W og \<longleftrightarrow> (\<exists>k. og_sequence og = base + of_nat k \<and>
     k + length (og_payload og) \<le> length W \<and> og_payload og = take (length (og_payload og)) (drop k W))"

definition sender_ok :: "u32 \<Rightarrow> u8 list \<Rightarrow> nat \<Rightarrow> nat \<Rightarrow> conn \<Rightarrow> outgoing set \<Rightarrow> bool" where
  "sender_ok base W a x c S \<longleftrightarrow>
     length W < 2 ^ 31 \<and> a \<le> length W \<and> x \<le> length W \<and>
     c_snd_una c = base + of_nat a \<and> c_snd_nxt c = base + of_nat x \<and> c_send c = drop a W \<and>
     (\<forall>og\<in>S. slice_of base W og)"

text \<open>The receiver has taken \<open>m\<close> bytes, and has acknowledged no more than it has taken.\<close>

definition receiver_ok :: "u32 \<Rightarrow> u8 list \<Rightarrow> u8 list \<Rightarrow> nat \<Rightarrow> conn \<Rightarrow> outgoing set \<Rightarrow> bool" where
  "receiver_ok base W R m d T \<longleftrightarrow>
     m \<le> length W \<and> c_rcv_nxt d = base + of_nat m \<and> R @ c_recv d = take m W \<and>
     (\<forall>og\<in>T. \<exists>k\<le>m. og_acknowledgement og = base + of_nat k)"

definition calm :: "conn \<Rightarrow> outgoing set \<Rightarrow> bool" where
  "calm c S \<longleftrightarrow> c_state c = Established \<and> \<not> c_closing c \<and> \<not> c_fin_sent c \<and> \<not> c_peer_closed c \<and>
     (\<forall>og\<in>S. og_flags og \<in> {ACK OR PSH, ACK} \<and> \<not> og_with_mss og)"

definition direction_ok :: "u32 \<Rightarrow> endpoint \<Rightarrow> outgoing set \<Rightarrow> endpoint \<Rightarrow> outgoing set \<Rightarrow> bool" where
  "direction_ok base e S f T \<longleftrightarrow>
     (\<exists>a x m. sender_ok base (e_written e) a x (e_conn e) S \<and>
        receiver_ok base (e_written e) (e_read f) m (e_conn f) T \<and> a \<le> m)"

text \<open>What each part of a step does to the sender's side.\<close>

lemma flags_calm [simp]:
  "(ACK OR PSH) AND ACK \<noteq> 0" "(ACK OR PSH) AND FIN = 0" "(ACK OR PSH) AND RST = 0"
  "ACK AND ACK \<noteq> 0" "ACK \<noteq> 0" "ACK AND FIN = 0" "ACK AND RST = 0"
  by (simp_all add: ACK_def PSH_def FIN_def RST_def)

lemma slice_of_grow: "slice_of base W og \<Longrightarrow> slice_of base (W @ w) og"
  by (auto simp: slice_of_def)

lemma unat_neg:
  assumes "0 < unat (w :: u32)"
  shows "unat (- w) = 2 ^ 32 - unat w"
proof -
  have lt: "unat w < 2 ^ 32" by (rule unat_u32)
  have "(of_nat (2 ^ 32 - unat w) :: u32) = of_nat (2 ^ 32) - of_nat (unat w)"
    using lt by (intro of_nat_diff) simp
  also have "\<dots> = - w" by simp
  finally have "- w = of_nat (2 ^ 32 - unat w)" by simp
  moreover have "2 ^ 32 - unat w < 2 ^ 32" using assms lt by simp
  ultimately show ?thesis
    by (simp only: unsigned_of_nat) (simp add: take_bit_nat_eq_self)
qed

lemma sender_in_flight:
  assumes s: "sender_ok base W a x c S" and pos: "0 < sendable c"
  shows "a \<le> x \<and> unat (in_flight c) = x - a \<and> x + sendable c \<le> length W"
proof -
  have fit: "sendable c \<le> length (c_send c) - unat (in_flight c)"
    using sendable_fits [OF pos] by simp
  have W: "length W < 2 ^ 31" "a \<le> length W" "x \<le> length W" "c_send c = drop a W"
    using s by (simp_all add: sender_ok_def)
  have fl: "in_flight c = (base + of_nat x) - (base + of_nat a)"
    using s by (simp add: in_flight_def sender_ok_def)
  have "a \<le> x"
  proof (rule ccontr)
    assume "\<not> a \<le> x"
    then have "unat ((base + of_nat a) - (base + of_nat x)) = a - x"
      using W by (intro seq_diff_offset) auto
    moreover have "in_flight c = - ((base + of_nat a) - (base + of_nat x))"
      by (simp add: fl)
    ultimately have "unat (in_flight c) = 2 ^ 32 - (a - x)"
      using \<open>\<not> a \<le> x\<close> unat_neg [of "(base + of_nat a) - (base + of_nat x)"] by simp
    then show False using fit pos W by simp
  qed
  moreover have "unat (in_flight c) = x - a"
    unfolding fl using \<open>a \<le> x\<close> W by (intro seq_diff_offset) auto
  ultimately show ?thesis using fit pos W by simp
qed

section \<open>Sending\<close>

lemma calm_choice:
  assumes "calm c S" and "pump_choice c = Some (fl, ms, len, fin)"
  shows "\<not> fin \<and> \<not> ms \<and> fl \<in> {ACK OR PSH, ACK} \<and> (len = 0 \<or> len = sendable c \<and> 0 < sendable c)"
  using assms(2)
proof (cases rule: pump_choice_cases)
  case fin
  then show ?thesis using assms(1) by (simp add: calm_def owes_fin_def)
qed (use assms(1) in \<open>auto simp: calm_def\<close>)

lemma pump_sent_calm:
  assumes "\<not> fin" and "fl \<in> {ACK OR PSH, ACK}"
  shows "c_snd_nxt (pump_sent now fl len fin c) = c_snd_nxt c + of_nat len"
    "c_snd_una (pump_sent now fl len fin c) = c_snd_una c" "c_send (pump_sent now fl len fin c) = c_send c"
    "c_recv (pump_sent now fl len fin c) = c_recv c" "c_rcv_nxt (pump_sent now fl len fin c) = c_rcv_nxt c"
    "c_state (pump_sent now fl len fin c) = c_state c" "c_closing (pump_sent now fl len fin c) = c_closing c"
    "c_fin_sent (pump_sent now fl len fin c) = c_fin_sent c"
    "c_peer_closed (pump_sent now fl len fin c) = c_peer_closed c"
  using assms by (auto simp: pump_sent_def Let_def pump_span_def)

lemma sender_sends:
  assumes s: "sender_ok base W a x c S" and calm: "calm c S" and ch: "pump_choice c = Some (fl, ms, len, fin)"
  shows "\<exists>x'. sender_ok base W a x' (pump_sent now fl len fin c) (S \<union> {pump_segment fl ms len c})"
proof -
  note f = calm_choice [OF calm ch]
  note sent = pump_sent_calm [OF f [THEN conjunct1] f [THEN conjunct2, THEN conjunct2, THEN conjunct1],
      of now len c]
  have slice: "x + len \<le> length W \<and> og_payload (pump_segment fl ms len c) = take len (drop x W)"
  proof (cases "len = 0")
    case True
    then show ?thesis using s by (simp add: pump_segment_def sender_ok_def)
  next
    case False
    then have len: "len = sendable c" "0 < sendable c" using f by auto
    note fl = sender_in_flight [OF s len(2)]
    have "drop (unat (in_flight c)) (c_send c) = drop x W"
      using fl s by (simp add: sender_ok_def)
    moreover have "len \<le> length W - x" using fl len(1) by linarith
    ultimately show ?thesis using fl len by (simp add: pump_segment_def)
  qed
  have "slice_of base W (pump_segment fl ms len c)"
    unfolding slice_of_def pump_segment_fields
    using slice s unfolding sender_ok_def by blast
  then have "sender_ok base W a (x + len) (pump_sent now fl len fin c) (S \<union> {pump_segment fl ms len c})"
    using s slice by (simp add: sender_ok_def sent)
  then show ?thesis by blast
qed

lemma receiver_sends:
  assumes r: "receiver_ok base W R m d T" and f: "\<not> fin" "fl \<in> {ACK OR PSH, ACK}"
  shows "receiver_ok base W R m (pump_sent now fl len fin d) (T \<union> {pump_segment fl ms len d})"
  using r unfolding receiver_ok_def pump_sent_calm [OF f] by (auto simp: pump_segment_def)

lemma calm_sends:
  assumes calm: "calm c S" and ch: "pump_choice c = Some (fl, ms, len, fin)"
  shows "calm (pump_sent now fl len fin c) (S \<union> {pump_segment fl ms len c})"
proof -
  note f = calm_choice [OF calm ch]
  show ?thesis
    using calm f unfolding calm_def
    by (simp add: pump_sent_calm pump_segment_def)
qed

section \<open>Segments that arrive\<close>

lemma acknowledge_kept [simp]:
  "c_state (acknowledge k c) = c_state c" "c_closing (acknowledge k c) = c_closing c"
  "c_fin_sent (acknowledge k c) = c_fin_sent c" "c_peer_closed (acknowledge k c) = c_peer_closed c"
  "c_recv (acknowledge k c) = c_recv c" "c_rcv_nxt (acknowledge k c) = c_rcv_nxt c"
  "c_snd_nxt (acknowledge k c) = c_snd_nxt c" "c_listener (acknowledge k c) = c_listener c"
  by (simp_all add: acknowledge_def Let_def)

lemma accept_data_kept [simp]:
  "c_state (snd (accept_data q p c)) = c_state c" "c_closing (snd (accept_data q p c)) = c_closing c"
  "c_fin_sent (snd (accept_data q p c)) = c_fin_sent c"
  "c_peer_closed (snd (accept_data q p c)) = c_peer_closed c"
  "c_send (snd (accept_data q p c)) = c_send c" "c_snd_una (snd (accept_data q p c)) = c_snd_una c"
  "c_snd_nxt (snd (accept_data q p c)) = c_snd_nxt c"
  by (simp_all add: accept_data_def Let_def)

text \<open>In an established connection a data segment is an acknowledgement and its data.\<close>

lemma arrives_calm:
  assumes "calm c S" and "calm d T" and "og \<in> T"
  shows "fst (segment_arrives now (as_segment og) c) =
    snd (accept_data (og_sequence og) (og_payload og)
      (acknowledge (og_acknowledgement og) (c\<lparr>c_snd_wnd := og_window og\<rparr>)))"
proof -
  let ?sg = "as_segment og"
  have c: "c_state c = Established" "\<not> c_peer_closed c"
    using assms(1) by (simp_all add: calm_def)
  have og: "og_flags og = ACK OR PSH \<or> og_flags og = ACK" "\<not> og_with_mss og"
    using assms(2,3) by (auto simp: calm_def)
  have sg: "sg_mss ?sg = None" "seg_has ?sg ACK" "\<not> seg_has ?sg FIN" "sg_window ?sg = og_window og"
    "sg_acknowledgement ?sg = og_acknowledgement og" "sg_sequence ?sg = og_sequence og"
    "sg_payload ?sg = og_payload og"
    using og by (auto simp: as_segment_def seg_has_def)
  have "segment_arrives now ?sg c =
      (synchronized_segment now ?sg (c\<lparr>c_snd_wnd := og_window og\<rparr>), False, False)"
    by (simp add: segment_arrives_def sg(1,4) c(1))
  moreover have "synchronized_segment now ?sg e =
      snd (accept_data (og_sequence og) (og_payload og) (acknowledge (og_acknowledgement og) e))"
    if "c_state e = Established" "\<not> c_peer_closed e" for e
    using that by (simp add: synchronized_segment_def sg Let_def close_state_def)
  ultimately show ?thesis using c by simp
qed

lemma sender_acknowledged:
  assumes s: "sender_ok base W a x c S" and k: "k \<le> length W" and f: "\<not> c_fin_sent c"
  shows "sender_ok base W (max a k) x (acknowledge (base + of_nat k) c) S"
proof -
  have W: "length W < 2 ^ 31" "a \<le> length W" "c_snd_una c = base + of_nat a" "c_send c = drop a W"
    using s by (simp_all add: sender_ok_def)
  have after: "seq_after (base + of_nat k) (c_snd_una c) \<longleftrightarrow> a < k"
    unfolding W(3) using W k by (intro seq_after_offset) auto
  show ?thesis
  proof (cases "a < k")
    case False
    then show ?thesis using s after by (simp add: acknowledge_def max_def)
  next
    case True
    have "unat ((base + of_nat k) - c_snd_una c) = k - a"
      unfolding W(3) using W k True by (intro seq_diff_offset) auto
    then have "acknowledge (base + of_nat k) c = c\<lparr>c_send := drop (min (k - a) (length (c_send c))) (c_send c),
        c_snd_una := base + of_nat k, c_retries := 0, c_rto_ms := RTO_MS, c_retransmit_at := 0\<rparr>"
      using True after f by (simp add: acknowledge_def)
    moreover have "drop (min (k - a) (length (c_send c))) (c_send c) = drop k W"
      using True k by (simp add: W(4) min_def)
    ultimately show ?thesis
      using s k True by (simp add: sender_ok_def max_def)
  qed
qed

lemma receiver_accepts:
  assumes r: "receiver_ok base W R m d T" and W: "length W < 2 ^ 31" and sl: "slice_of base W og"
  shows "\<exists>m'\<ge>m. receiver_ok base W R m' (snd (accept_data (og_sequence og) (og_payload og) d)) T"
proof -
  let ?p = "og_payload og"
  obtain k where k: "og_sequence og = base + of_nat k" "k + length ?p \<le> length W" "?p = take (length ?p) (drop k W)"
    using sl by (auto simp: slice_of_def)
  have m: "m \<le> length W" "c_rcv_nxt d = base + of_nat m" "R @ c_recv d = take m W"
    using r by (simp_all add: receiver_ok_def)
  show ?thesis
  proof (cases "?p = [] \<or> og_sequence og \<noteq> c_rcv_nxt d")
    case True
    then show ?thesis
      using r by (intro exI [where x = m]) (auto simp: accept_data_def receiver_ok_def)
  next
    case False
    then have "k = m"
      using k(1,2) m(1,2) W seq_offset_inj [of k m base] by simp
    define t where "t = min (length ?p) (RECEIVE_BUFFER - min (length (c_recv d)) RECEIVE_BUFFER)"
    have "accept_data (og_sequence og) ?p d = (t = length ?p, d\<lparr>c_recv := c_recv d @ take t ?p,
        c_rcv_nxt := c_rcv_nxt d + of_nat t, c_need_ack := True\<rparr>)"
      using False by (simp add: accept_data_def t_def Let_def)
    moreover have "take t ?p = take t (drop m W)"
      using k(3) \<open>k = m\<close> by (metis min.absorb1 min.cobounded1 t_def take_take)
    moreover have "R @ c_recv d @ take t (drop m W) = take (m + t) W"
      using m(3) by (simp add: take_add flip: append_assoc)
    moreover have "m + t \<le> length W"
      using k(2) \<open>k = m\<close> by (simp add: t_def)
    moreover have "\<forall>og\<in>T. \<exists>k\<le>m + t. og_acknowledgement og = base + of_nat k"
      using r unfolding receiver_ok_def by (meson trans_le_add1)
    ultimately have "receiver_ok base W R (m + t) (snd (accept_data (og_sequence og) ?p d)) T"
      unfolding receiver_ok_def by (simp add: m(2) add.assoc)
    then show ?thesis by (intro exI [where x = "m + t"]) simp
  qed
qed

section \<open>Timers and programs\<close>

lemma tick_cases:
  assumes "tick_conn now c = (c', r, False, k)"
  obtains "c' = c" | "c' = disarm c" | "c' = (back_off now c)\<lparr>c_snd_nxt := c_snd_una c, c_fin_sent := False\<rparr>"
  using assms by (auto simp: tick_conn_def Let_def back_off_def split: if_splits)

lemma sender_fires:
  assumes s: "sender_ok base W a x c S" and t: "tick_conn now c = (c', r, False, k)"
  shows "\<exists>x'. sender_ok base W a x' c' S"
  using t
proof (cases rule: tick_cases)
  case 3
  then have "sender_ok base W a a c' S"
    using s by (simp add: sender_ok_def back_off_def Let_def)
  then show ?thesis by blast
qed (use s in \<open>auto simp: sender_ok_def disarm_def\<close>)

lemma receiver_fires:
  assumes r: "receiver_ok base W R m c T" and t: "tick_conn now c = (c', x, False, k)"
  shows "receiver_ok base W R m c' T"
  using t by (cases rule: tick_cases) (use r in \<open>auto simp: receiver_ok_def disarm_def back_off_def Let_def\<close>)

lemma calm_fires:
  assumes c: "calm c S" and t: "tick_conn now c = (c', x, False, k)"
  shows "calm c' S"
  using t by (cases rule: tick_cases) (use c in \<open>auto simp: calm_def disarm_def back_off_def Let_def\<close>)

lemma sender_writes:
  assumes "sender_ok base W a x c S" and "length W + n < 2 ^ 31" and "n \<le> length data"
  shows "sender_ok base (W @ take n data) a x (c\<lparr>c_send := c_send c @ take n data\<rparr>) S"
  using assms by (auto simp: sender_ok_def slice_of_grow)

lemma receiver_writes: "receiver_ok base W R m d T \<Longrightarrow> receiver_ok base (W @ w) R m d T"
  by (simp add: receiver_ok_def)

lemma receiver_reads:
  "receiver_ok base W R m d T \<Longrightarrow>
   receiver_ok base W (R @ take room (c_recv d)) m (d\<lparr>c_recv := drop room (c_recv d), c_need_ack := b\<rparr>) T"
  by (simp add: receiver_ok_def)

section \<open>The link\<close>

definition link_ok :: "u32 \<Rightarrow> u32 \<Rightarrow> endpoint \<Rightarrow> outgoing set \<Rightarrow> endpoint \<Rightarrow> outgoing set \<Rightarrow> bool" where
  "link_ok x y e S f T \<longleftrightarrow> calm (e_conn e) S \<and> calm (e_conn f) T \<and>
     direction_ok x e S f T \<and> direction_ok y f T e S"

lemma link_ok_sym: "link_ok x y e S f T \<longleftrightarrow> link_ok y x f T e S"
  by (auto simp: link_ok_def)

lemma link_ok_end_step:
  assumes "end_step T e S' e'" and "link_ok x y e S f T"
  shows "link_ok x y e' (S \<union> S') f T"
proof -
  have calm: "calm (e_conn e) S" "calm (e_conn f) T"
    using assms(2) by (simp_all add: link_ok_def)
  obtain a s m where out: "sender_ok x (e_written e) a s (e_conn e) S"
      "receiver_ok x (e_written e) (e_read f) m (e_conn f) T" "a \<le> m"
    using assms(2) by (auto simp: link_ok_def direction_ok_def)
  obtain b t n where opp: "sender_ok y (e_written f) b t (e_conn f) T"
      "receiver_ok y (e_written f) (e_read e) n (e_conn e) S" "b \<le> n"
    using assms(2) by (auto simp: link_ok_def direction_ok_def)
  have finish: "link_ok x y e' (S \<union> S') f T"
    if "calm (e_conn e') (S \<union> S')" "sender_ok x (e_written e') a' s' (e_conn e') (S \<union> S')"
      "receiver_ok x (e_written e') (e_read f) m (e_conn f) T" "a' \<le> m"
      "receiver_ok y (e_written f) (e_read e') n' (e_conn e') (S \<union> S')" "n \<le> n'" for a' s' n'
    using that calm(2) opp(1,3) unfolding link_ok_def direction_ok_def by (meson order_trans)
  from assms(1) show ?thesis
  proof cases
    case (writes taken data)
    show ?thesis
      by (rule finish [of a s n])
        (use writes calm out opp sender_writes [OF out(1), of taken data] receiver_writes [OF out(2)] in
          \<open>auto simp: calm_def receiver_ok_def\<close>)
  next
    case (reads room again)
    show ?thesis
      by (rule finish [of a s n])
        (use reads calm out opp receiver_reads [OF opp(2)] in \<open>auto simp: calm_def sender_ok_def\<close>)
  next
    case (sends fl ms len fin now)
    obtain s' where "sender_ok x (e_written e) a s' (pump_sent now fl len fin (e_conn e))
        (S \<union> {pump_segment fl ms len (e_conn e)})"
      using sender_sends [OF out(1) calm(1) sends(3)] by blast
    moreover have "receiver_ok y (e_written f) (e_read e) n (pump_sent now fl len fin (e_conn e))
        (S \<union> {pump_segment fl ms len (e_conn e)})"
      by (rule receiver_sends [OF opp(2)]) (use calm_choice [OF calm(1) sends(3)] in auto)
    ultimately show ?thesis
      using finish [of a s' n] sends(1,2) calm_sends [OF calm(1) sends(3)] out(2,3) by simp
  next
    case (fires now c' retransmit counted)
    obtain s' where "sender_ok x (e_written e) a s' c' S"
      using sender_fires [OF out(1) fires(3)] by blast
    then show ?thesis
      using finish [of a s' n] fires calm_fires [OF calm(1) fires(3)] receiver_fires [OF opp(2) fires(3)] out(2,3)
      by simp
  next
    case (arrives og now)
    let ?c = "(e_conn e)\<lparr>c_snd_wnd := og_window og\<rparr>"
    obtain k where k: "k \<le> m" "og_acknowledgement og = x + of_nat k"
      using out(2) arrives(3) by (auto simp: receiver_ok_def)
    have c': "e_conn e' = snd (accept_data (og_sequence og) (og_payload og)
        (acknowledge (og_acknowledgement og) ?c))"
      using arrives(2) arrives_calm [OF calm arrives(3)] by simp
    have s1: "sender_ok x (e_written e) a s ?c S" and f1: "\<not> c_fin_sent ?c"
      using out(1) calm by (simp_all add: sender_ok_def calm_def)
    have "k \<le> length (e_written e)"
      using k(1) out(2) by (simp add: receiver_ok_def)
    then have "sender_ok x (e_written e) (max a k) s (acknowledge (og_acknowledgement og) ?c) S"
      unfolding k(2) using s1 f1 by (intro sender_acknowledged)
    then have snd': "sender_ok x (e_written e) (max a k) s (e_conn e') S"
      by (simp add: sender_ok_def c')
    have r1: "receiver_ok y (e_written f) (e_read e) n (acknowledge (og_acknowledgement og) ?c) S"
      using opp(2) by (simp add: receiver_ok_def)
    have sl: "slice_of y (e_written f) og" and W: "length (e_written f) < 2 ^ 31"
      using opp(1) arrives(3) by (simp_all add: sender_ok_def)
    obtain n' where n': "n \<le> n'" "receiver_ok y (e_written f) (e_read e) n' (e_conn e') S"
      unfolding c' using receiver_accepts [OF r1 W sl] by blast
    have "calm (e_conn e') S"
      using calm(1) by (simp add: calm_def c')
    then show ?thesis
      using finish [of "max a k" s n'] arrives snd' n' out k(1) by simp
  qed
qed

lemma link_ok_step: "link_step l l' \<Longrightarrow> link_ok x y (l_a l) (l_ab l) (l_b l) (l_ba l) \<Longrightarrow>
  link_ok x y (l_a l') (l_ab l') (l_b l') (l_ba l')"
  by (erule link_stepE) (auto dest: link_ok_end_step link_ok_sym [THEN iffD1] link_ok_end_step [THEN link_ok_sym [THEN iffD1]])

lemma link_ok_fresh: "fresh_link x y l \<Longrightarrow> link_ok x y (l_a l) (l_ab l) (l_b l) (l_ba l)"
  by (auto simp: fresh_link_def fresh_def link_ok_def calm_def direction_ok_def sender_ok_def receiver_ok_def)

text \<open>
  C24. TCP is reliable while the connection is open in both directions.  Take two ends of an
  established connection that has carried nothing yet, and let the network lose, repeat, delay and
  reorder their segments in any way, the timers fire and the programs read and write (less than two
  gigabytes a direction) when they like: as long as neither program has shut its direction down or
  closed, and neither end has given up, what one end has read is exactly the first bytes of what the other has written,
  without gap, change or repetition, followed by what waits in its receive buffer; and no byte
  leaves a send buffer before it has been received.  With a shutdown this does not hold of the
  code: when the peer's window is closed the \<open>FIN\<close> goes out in front of the bytes still queued and
  takes the number of the first of them (\<open>fin_before_data\<close>), and a peer that has taken
  it accepts a delayed second byte without the first (\<open>byte_lost_behind_fin\<close>).
\<close>

theorem tcp_reliable:
  assumes "fresh_link x y l" and "link_step\<^sup>*\<^sup>* l l'"
  shows "(\<exists>rest. e_written (l_a l') = e_read (l_b l') @ c_recv (e_conn (l_b l')) @ rest \<and>
       length rest \<le> length (c_send (e_conn (l_a l')))) \<and>
    (\<exists>rest. e_written (l_b l') = e_read (l_a l') @ c_recv (e_conn (l_a l')) @ rest \<and>
       length rest \<le> length (c_send (e_conn (l_b l'))))"
proof -
  have ok: "link_ok x y (l_a l') (l_ab l') (l_b l') (l_ba l')"
    by (rule rtranclp_invariant [where I = "\<lambda>l. link_ok x y (l_a l) (l_ab l) (l_b l) (l_ba l)", OF assms(2)])
      (erule (1) link_ok_step, rule link_ok_fresh [OF assms(1)])
  have "\<exists>rest. e_written e = e_read f @ c_recv (e_conn f) @ rest \<and> length rest \<le> length (c_send (e_conn e))"
    if dir: "direction_ok b e S f T" for b e S f T
  proof -
    obtain a s m where s: "sender_ok b (e_written e) a s (e_conn e) S"
      and r: "receiver_ok b (e_written e) (e_read f) m (e_conn f) T" and am: "a \<le> m"
      using dir by (auto simp: direction_ok_def)
    have "e_written e = take m (e_written e) @ drop m (e_written e)" by simp
    also have "\<dots> = e_read f @ c_recv (e_conn f) @ drop m (e_written e)"
      using r by (simp add: receiver_ok_def flip: append_assoc)
    finally show ?thesis
      using s am by (intro exI [where x = "drop m (e_written e)"]) (simp add: sender_ok_def)
  qed
  then show ?thesis
    using ok unfolding link_ok_def by blast
qed

definition example_end :: "u32 \<Rightarrow> u32 \<Rightarrow> endpoint" where
  "example_end mine theirs =
     \<lparr>e_conn = (conn_new 1 Established 80)\<lparr>c_snd_una := mine, c_snd_nxt := mine, c_rcv_nxt := theirs\<rparr>,
      e_written = [], e_read = []\<rparr>"

definition example_link :: link where
  "example_link = \<lparr>l_a = example_end 4294967290 7, l_b = example_end 7 4294967290, l_ab = {}, l_ba = {}\<rparr>"

theorem tcp_reliable_witness:
  "\<exists>l. link_step\<^sup>*\<^sup>* example_link l \<and> e_written (l_a l) = [1, 2, 3] \<and>
     (\<exists>rest. [1, 2, 3] = e_read (l_b l) @ c_recv (e_conn (l_b l)) @ rest)"
proof -
  have f: "fresh_link 4294967290 7 example_link"
    by (simp add: fresh_link_def fresh_def example_link_def example_end_def conn_new_def)
  let ?e = "(l_a example_link)\<lparr>e_conn := (e_conn (l_a example_link))\<lparr>c_send := [] @ take 3 [1, 2, 3]\<rparr>,
      e_written := [] @ take 3 [1, 2, 3]\<rparr>"
  let ?l = "example_link\<lparr>l_a := ?e, l_ab := l_ab example_link \<union> {}\<rparr>"
  have "end_step (l_ba example_link) (l_a example_link) {} ?e"
    using end_step.writes [of "l_a example_link" 3 "[1, 2, 3]" "l_ba example_link"]
    by (simp add: example_link_def example_end_def conn_new_def SEND_BUFFER_def)
  then have st: "link_step\<^sup>*\<^sup>* example_link ?l"
    by (intro r_into_rtranclp link_step.left)
  show ?thesis
    using tcp_reliable [OF f st] st by (intro exI [where x = ?l]) auto
qed

section \<open>How a connection comes to be\<close>

text \<open>One turn of \<^verbatim>\<open>tcp_pump\<close> whose frame is sent: the segment and the connection after it.\<close>

definition pump_turn :: "nat \<Rightarrow> conn \<Rightarrow> (outgoing \<times> conn) option" where
  "pump_turn now c =
     map_option (\<lambda>(fl, ms, len, fin). (pump_segment fl ms len c, pump_sent now fl len fin c)) (pump_choice c)"

lemma pump_turn_some: "pump_choice c \<noteq> None \<Longrightarrow> \<exists>og d. pump_turn now c = Some (og, d)"
  by (auto simp: pump_turn_def)

lemma acknowledge_syn:
  "c_snd_una c = iss \<Longrightarrow> c_send c = [] \<Longrightarrow>
   acknowledge (iss + 1) c = c\<lparr>c_snd_una := iss + 1, c_retries := 0, c_rto_ms := RTO_MS, c_retransmit_at := 0\<rparr>"
  using seq_after_offset [of 1 0 iss] by (simp add: acknowledge_def Let_def)

lemma flags_syn [simp]: "SYN AND ACK = 0" "SYN AND RST = 0" "SYN AND FIN = 0"
  "(SYN OR ACK) AND ACK \<noteq> 0" "(SYN OR ACK) AND RST = 0" "(SYN OR ACK) AND FIN = 0"
  by (simp_all add: SYN_def ACK_def RST_def FIN_def)

lemma client_syn:
  assumes "pump_turn now (connecting lp a p iss (conn_new own Closed 0)) = Some (syn, c)"
  shows "syn = pump_segment SYN True 0 (connecting lp a p iss (conn_new own Closed 0))"
    and "c = (connecting lp a p iss (conn_new own Closed 0))\<lparr>c_snd_nxt := iss + 1, c_retransmit_at := now + RTO_MS\<rparr>"
  using assms
  by (auto simp: pump_turn_def pump_choice.simps connecting_def conn_new_def pump_sent_def arm_def in_flight_def)

lemma server_syn_ack:
  assumes "c_state s = SynReceived" and "c_snd_nxt s = iss" and "c_snd_una s = iss"
    and "c_retransmit_at s = 0" and "pump_turn now s = Some (og, s')"
  shows "og = pump_segment (SYN OR ACK) True 0 s"
    and "s' = s\<lparr>c_need_ack := False, c_snd_nxt := iss + 1, c_retransmit_at := now + c_rto_ms s\<rparr>"
  using assms
  by (auto simp: pump_turn_def pump_choice.simps pump_sent_def arm_def in_flight_def)

lemma accept_syn_born:
  assumes "accept_syn l src p q w (Some m) iss ss = (Some i, ss')" and "peek i ss' = Some s"
  obtains lc :: conn where "s = (conn_new (c_owner lc) SynReceived (c_local_port lc))
    \<lparr>c_remote := src, c_remote_port := p, c_rcv_nxt := q + 1, c_snd_una := iss, c_snd_nxt := iss,
     c_snd_wnd := w, c_peer_mss := clamp_mss m, c_listener := Some l, c_need_ack := True\<rparr>"
proof -
  obtain lc where "peek l ss = Some lc"
    using assms(1) by (auto simp: accept_syn_def split: option.splits)
  then show thesis
    using assms
    by (intro that [of lc]) (auto simp: accept_syn_def Let_def peek_set dest!: free_slot_Some
        split: option.splits if_splits)
qed

lemma syn_fields:
  assumes "syn = pump_segment SYN True 0 (connecting lp a p iss (conn_new own Closed 0))"
  shows "og_source_port syn = lp" "og_sequence syn = iss" "og_window syn = 8192"
    "sg_mss (as_segment syn) = Some 1460"
  using assms
  by (simp_all add: pump_segment_def connecting_def conn_new_def window_def RECEIVE_BUFFER_def as_segment_def MSS_def)

text \<open>
  C27. The three-way handshake.  The connection a \<open>connect\<close> makes and the one that its \<open>SYN\<close>
  makes at a listener, after \<open>SYN\<close>, \<open>SYN ACK\<close> and \<open>ACK\<close> have passed between them, are the two
  ends of an established connection: each expects exactly the number that the other sends next,
  both buffers are empty, both know an 8192-byte window and segments of 1460 bytes, and the
  server's end is handed to its listener.
\<close>

theorem handshake:
  assumes syn: "pump_turn t0 (connecting lp a port iss (conn_new own Closed 0)) = Some (syn, c1)"
    and born: "accept_syn l src (og_source_port syn) (og_sequence syn) (og_window syn)
      (sg_mss (as_segment syn)) iss' ss = (Some i, ss')" "peek i ss' = Some s0"
    and syn_ack: "pump_turn t1 s0 = Some (sa, s1)"
    and client: "segment_arrives t2 (as_segment sa) c1 = (c2, h, r)"
    and ack: "pump_turn t3 c2 = Some (ak, c3)"
    and server: "segment_arrives t4 (as_segment ak) s1 = (s2, h', r')"
  shows "fresh (iss + 1) (iss' + 1) \<lparr>e_conn = c3, e_written = [], e_read = []\<rparr> \<and>
    fresh (iss' + 1) (iss + 1) \<lparr>e_conn = s2, e_written = [], e_read = []\<rparr> \<and>
    \<not> h \<and> \<not> r \<and> h' \<and> \<not> r' \<and> c_listener s2 = Some l \<and> c_remote s2 = src \<and> c_remote_port s2 = lp \<and>
    c_snd_wnd c3 = 8192 \<and> c_snd_wnd s2 = 8192 \<and> c_peer_mss c3 = 1460 \<and> c_peer_mss s2 = 1460"
proof -
  let ?c0 = "connecting lp a port iss (conn_new own Closed 0)"
  note c1 = client_syn [OF syn]
  have w: "window c = 8192" if "c_recv c = []" for c
    using that by (simp add: window_def RECEIVE_BUFFER_def)
  have mss: "clamp_mss 1460 = 1460" "(of_nat MSS :: u16) = 1460"
    by (simp_all add: clamp_mss_def MSS_def)
  obtain lc :: conn where "s0 = (conn_new (c_owner lc) SynReceived (c_local_port lc))
      \<lparr>c_remote := src, c_remote_port := lp, c_rcv_nxt := iss + 1, c_snd_una := iss', c_snd_nxt := iss',
       c_snd_wnd := 8192, c_peer_mss := clamp_mss 1460, c_listener := Some l, c_need_ack := True\<rparr>"
    using born unfolding syn_fields [OF c1(1)] by (rule accept_syn_born)
  note s0 = this [unfolded mss(1)]
  have sa: "sa = pump_segment (SYN OR ACK) True 0 s0"
    and s1: "s1 = s0\<lparr>c_need_ack := False, c_snd_nxt := iss' + 1, c_retransmit_at := t1 + c_rto_ms s0\<rparr>"
    by (rule server_syn_ack [OF _ _ _ _ syn_ack, of iss'];
        simp add: s0 conn_new_def)+
  have c2: "c2 = ?c0\<lparr>c_snd_wnd := 8192, c_peer_mss := 1460, c_snd_nxt := iss + 1, c_rcv_nxt := iss' + 1,
        c_snd_una := iss + 1, c_state := Established, c_need_ack := True\<rparr> \<and> \<not> h \<and> \<not> r"
    using client w
    by (auto simp: segment_arrives_def as_segment_def sa c1(2) s0 pump_segment_def connecting_def conn_new_def
        seg_has_def mss acknowledge_syn)
  have "ak = pump_segment ACK False 0 c2 \<and> c3 = c2\<lparr>c_need_ack := False\<rparr>"
    using ack c2
    by (auto simp: pump_turn_def pump_choice.simps sendable_def in_flight_def owes_fin_def connecting_def
        conn_new_def pump_sent_def)
  moreover from this have "s2 = s1\<lparr>c_snd_una := iss' + 1, c_retransmit_at := 0, c_state := Established\<rparr> \<and>
      h' \<and> \<not> r'"
    using server c2 w
    by (auto simp: segment_arrives_def as_segment_def s1 s0 pump_segment_def connecting_def conn_new_def
        seg_has_def acknowledge_syn accept_data_def)
  ultimately show ?thesis
    using c2 by (simp add: fresh_def s1 s0 connecting_def conn_new_def)
qed

theorem handshake_witness:
  "\<exists>c s. fresh 2 101 \<lparr>e_conn = c, e_written = [], e_read = []\<rparr> \<and>
     fresh 101 2 \<lparr>e_conn = s, e_written = [], e_read = []\<rparr> \<and> c_listener s = Some 0"
proof -
  obtain syn c1 where 1: "pump_turn 0 (connecting 50000 9 80 1 (conn_new 7 Closed 0)) = Some (syn, c1)"
    using pump_turn_some [of "connecting 50000 9 80 1 (conn_new 7 Closed 0)" 0]
    by (auto simp: pump_choice.simps connecting_def)
  note c1 = client_syn [OF 1]
  obtain ss s0 where 2: "accept_syn 0 5 (og_source_port syn) (og_sequence syn) (og_window syn)
      (sg_mss (as_segment syn)) 100 [Some (conn_new 8 Listen 80), None] = (Some 1, ss)" "peek 1 ss = Some s0"
    by (simp add: accept_syn_def free_slot_def peek_def BACKLOG_def conn_new_def Let_def)
  obtain lc :: conn where s0: "s0 = (conn_new (c_owner lc) SynReceived (c_local_port lc))
      \<lparr>c_remote := 5, c_remote_port := 50000, c_rcv_nxt := 1 + 1, c_snd_una := 100, c_snd_nxt := 100,
       c_snd_wnd := 8192, c_peer_mss := clamp_mss 1460, c_listener := Some 0, c_need_ack := True\<rparr>"
    using 2 unfolding syn_fields [OF c1(1)] by (rule accept_syn_born)
  obtain sa s1 where 3: "pump_turn 1 s0 = Some (sa, s1)"
    using pump_turn_some [of s0 1] by (auto simp: pump_choice.simps s0 conn_new_def)
  have sa: "sa = pump_segment (SYN OR ACK) True 0 s0"
    by (rule server_syn_ack(1) [OF _ _ _ _ 3, of 100]) (simp_all add: s0 conn_new_def)
  obtain c2 h r where 4: "segment_arrives 2 (as_segment sa) c1 = (c2, h, r)" by (rule prod_cases3)
  have "c_state c2 = Established \<and> c_need_ack c2"
    using 4 by (auto simp: segment_arrives_def as_segment_def sa c1(2) s0 pump_segment_def connecting_def
        conn_new_def seg_has_def acknowledge_syn)
  then have "pump_choice c2 \<noteq> None"
    unfolding settled_iff [symmetric] by (simp add: settled_def)
  then obtain ak c3 where 5: "pump_turn 3 c2 = Some (ak, c3)"
    using pump_turn_some by blast
  obtain s2 h' r' where 6: "segment_arrives 4 (as_segment ak) s1 = (s2, h', r')" by (rule prod_cases3)
  show ?thesis
    using handshake [OF 1 2 3 4 5 6] by auto
qed

end
