(* ===== verification/Delivery.thy ===== *)
theory Delivery
  imports Transport
begin

text \<open>
  Two hosts and the frame between them: what one host's stack hands to its card, the other's
  stack takes from it.  Sending and receiving are the whole paths of \<^verbatim>\<open>net/mod.rs\<close>, from the call of the
  program through UDP or ICMP, IPv4, ARP and Ethernet to the card, and back up.
\<close>

section \<open>The frame of a packet\<close>

lemma ipv4_header_tail:
  assumes "20 \<le> length b"
  shows "ipv4_write_header b s d p n ident = ipv4_write_header (replicate 20 0) s d p n ident @ drop 20 b \<and>
    length (ipv4_write_header (replicate 20 0) s d p n ident) = 20"
proof -
  have "20 \<le> length (replicate 20 (0 :: u8))" by simp
  then show ?thesis
    using ipv4_written [OF assms, of s d p n ident] ipv4_written [of "replicate 20 0" s d p n ident]
    by (simp add: Let_def)
qed

lemma ipv4_frame_parts:
  assumes mac: "length m = 6" "length (if_mac n) = 6" and len: "length payload \<le> 1480"
  shows "ipv4_frame m dest p payload ident n =
    m @ if_mac n @ be16 TYPE_IPV4 @ ipv4_write_header (replicate 20 0) (if_address n) dest p (length payload) ident @ payload"
proof -
  let ?h = "ipv4_write_header (replicate 20 0) (if_address n) dest p (length payload) ident"
  have e: "eth_write_header (replicate 1514 0) m (if_mac n) TYPE_IPV4 =
      m @ if_mac n @ be16 TYPE_IPV4 @ replicate 1500 0"
    using mac by (simp add: eth_write_header_def blit_def)
  have i: "ipv4_write_header (replicate 1500 0) (if_address n) dest p (length payload) ident = ?h @ replicate 1480 0"
    and h: "length ?h = 20"
    using ipv4_header_tail [of "replicate 1500 0"] by simp_all
  have t: "in_tail 14 f (m @ if_mac n @ be16 TYPE_IPV4 @ replicate 1500 0) =
      m @ if_mac n @ be16 TYPE_IPV4 @ f (replicate 1500 0)" for f
    using mac by (simp add: in_tail_def)
  show ?thesis
    unfolding ipv4_frame_def Let_def FRAME_MAX_def ETH_HEADER_def IP_HEADER_def e t i
    using mac h len by (simp add: blit_def)
qed

lemma ipv4_frame_received:
  assumes "length m = 6" and "length (if_mac n) = 6" and len: "length payload \<le> 1480"
  shows "\<exists>pkt. eth_parse (ipv4_frame m dest p payload ident n) =
      Some \<lparr>eth_destination = m, eth_kind = TYPE_IPV4, eth_payload = pkt\<rparr> \<and>
    ipv4_parse pkt = Some \<lparr>ip_source = if_address n, ip_destination = dest, ip_protocol = p, ip_payload = payload\<rparr>"
proof -
  let ?h = "ipv4_write_header (replicate 20 0) (if_address n) dest p (length payload) ident"
  obtain k1 k0 where k: "be16 TYPE_IPV4 = [k1, k0]" "of_be16 k1 k0 = TYPE_IPV4" using be16_ex by blast
  have "eth_parse (ipv4_frame m dest p payload ident n) =
      Some \<lparr>eth_destination = m, eth_kind = TYPE_IPV4, eth_payload = ?h @ payload\<rparr>"
    unfolding ipv4_frame_parts [OF assms] k(1) eth_parse_def using assms(1,2) k(2)
    by (simp add: ETH_HEADER_def nth_append)
  moreover have "ipv4_write_header (replicate 20 0 @ payload) (if_address n) dest p (length payload) ident = ?h @ payload"
    using ipv4_header_tail [of "replicate 20 0 @ payload"] by simp
  then have "ipv4_parse (?h @ payload) =
      Some \<lparr>ip_source = if_address n, ip_destination = dest, ip_protocol = p, ip_payload = payload\<rparr>"
    using ipv4_round_trip [of "length payload" "replicate 20 0 @ payload" "if_address n" dest p ident] len
    by (simp add: IP_HEADER_def)
  ultimately show ?thesis by blast
qed

text \<open>A card that keeps the frames it was given.\<close>

definition recording :: "u8 list list transmit" where
  "recording frame d = (None, d @ [frame])"

text \<open>What a packet that is sent means to a host that has the destination's address.\<close>

definition knows_macs :: "'d iface \<Rightarrow> bool" where
  "knows_macs n \<longleftrightarrow> length (if_mac n) = 6 \<and>
     (\<forall>e. Some e \<in> set (if_table n) \<longrightarrow> length (ae_mac e) = 6)"

lemma lookup_mac: "arp_lookup t ip now = Some m \<Longrightarrow> \<exists>e. Some e \<in> set t \<and> ae_mac e = m"
  by (auto simp: arp_lookup_def dest!: find_SomeD) metis

text \<open>The hardware address a packet is sent to.\<close>

definition hop_mac :: "nat \<Rightarrow> ipv4 \<Rightarrow> 'd iface \<Rightarrow> mac option" where
  "hop_mac now dest n = (case next_hop dest n of None \<Rightarrow> None
     | Some hop \<Rightarrow> if hop_is_broadcast hop n then Some MAC_BROADCAST else arp_lookup (if_table n) hop now)"

text \<open>Packets of one host to an address come to the other, and it takes them.\<close>

definition reaches :: "nat \<Rightarrow> 'c iface \<Rightarrow> ipv4 \<Rightarrow> 'd iface \<Rightarrow> bool" where
  "reaches now a dest b \<longleftrightarrow>
     (hop_mac now dest a = Some (if_mac b) \<or> hop_mac now dest a = Some MAC_BROADCAST) \<and> packet_is_ours dest b"

lemma send_ipv4_recorded:
  assumes sent: "send_ipv4 recording now dest p payload n = (None, n')" and macs: "knows_macs n"
    and len: "length payload \<le> 1480"
  shows "\<exists>m. if_device n' = if_device n @ [ipv4_frame m dest p payload (if_next_id n) n] \<and> length m = 6 \<and>
    hop_mac now dest n = Some m"
proof -
  obtain hop where hop0: "next_hop dest n = Some hop"
    using sent by (cases "next_hop dest n") (auto simp: send_ipv4_def split: if_splits)
  with this obtain m where hop: "(if hop_is_broadcast hop n then Some MAC_BROADCAST
      else arp_lookup (if_table n) hop now) = Some m"
    and n': "if_device n' = if_device n @ [ipv4_frame m dest p payload (if_next_id n) (n\<lparr>if_next_id := if_next_id n + 1\<rparr>)]"
    using sent by (cases "hop_is_broadcast hop n"; cases "arp_lookup (if_table n) hop now")
      (auto simp: send_ipv4_def card_send_def recording_def Let_def split: if_splits)
  have "length m = 6"
    using hop macs lookup_mac by (fastforce simp: knows_macs_def MAC_BROADCAST_def split: if_splits)
  moreover have "ipv4_frame m dest p payload (if_next_id n) (n\<lparr>if_next_id := if_next_id n + 1\<rparr>) =
      ipv4_frame m dest p payload (if_next_id n) n"
    by (simp add: ipv4_frame_def)
  ultimately show ?thesis using n' hop hop0 by (auto simp: hop_mac_def)
qed

lemma handle_frame:
  assumes "length m = 6" and "length (if_mac a) = 6" and "length payload \<le> 1480"
    and "m = if_mac b \<or> m = MAC_BROADCAST" and "packet_is_ours dest b"
  shows "handle tx now (ipv4_frame m dest p payload ident a) b =
    (let packet = \<lparr>ip_source = if_address a, ip_destination = dest, ip_protocol = p, ip_payload = payload\<rparr>;
         b = count (\<lambda>k. k\<lparr>k_ipv4_in := k_ipv4_in k + 1\<rparr>) b
     in if p = PROTOCOL_UDP then handle_udp (if_address a) dest payload b
        else if p = PROTOCOL_TCP then handle_tcp tx now (if_address a) dest payload b
        else if p \<noteq> PROTOCOL_ICMP then ignored b
        else handle_icmp tx now packet b)"
proof -
  obtain pkt where e: "eth_parse (ipv4_frame m dest p payload ident a) =
      Some \<lparr>eth_destination = m, eth_kind = TYPE_IPV4, eth_payload = pkt\<rparr>"
    and i: "ipv4_parse pkt = Some \<lparr>ip_source = if_address a, ip_destination = dest, ip_protocol = p, ip_payload = payload\<rparr>"
    using ipv4_frame_received [OF assms(1-3)] by blast
  have "packet_is_ours dest (count (\<lambda>k. k\<lparr>k_ipv4_in := k_ipv4_in k + 1\<rparr>) b)"
    using assms(5) by (simp add: packet_is_ours_def)
  moreover have "take FRAME_MAX payload = payload"
    using assms(3) by (simp add: FRAME_MAX_def)
  moreover have "TYPE_IPV4 \<noteq> TYPE_ARP" by (simp add: TYPE_IPV4_def TYPE_ARP_def)
  ultimately show ?thesis
    using assms(4) by (auto simp: handle_def e handle_ipv4_def i Let_def)
qed

section \<open>The frame of a segment\<close>

text \<open>What a frame carries, when it is a sound TCP segment: the two addresses and the segment.\<close>

definition frame_segment :: "u8 list \<Rightarrow> (ipv4 \<times> ipv4 \<times> segment) option" where
  "frame_segment frame =
     (case Option.bind (eth_parse frame) (\<lambda>f. ipv4_parse (eth_payload f)) of
        None \<Rightarrow> None
      | Some p \<Rightarrow>
          if ip_protocol p \<noteq> PROTOCOL_TCP then None
          else map_option (\<lambda>s. (ip_source p, ip_destination p, s))
                 (tcp_parse (ip_source p) (ip_destination p) (ip_payload p)))"

text \<open>A turn of the output loop gives the card one frame, with the segment that was chosen.\<close>

lemma pump_step_frame:
  assumes c: "peek i (if_streams n) = Some c" "\<not> c_reset c" and can: "can_send now (c_remote c) n"
    and ch: "pump_choice c = Some (fl, ms, len, fin)" and macs: "knows_macs n"
  shows "\<exists>frame s. if_device (snd (pump_step recording now i n)) = if_device n @ [frame] \<and>
    frame_segment frame = Some (if_address n, c_remote c, s) \<and> sg_sequence s = c_snd_nxt c \<and>
    sg_flags s = fl \<and> sg_payload s = take len (drop (unat (in_flight c)) (c_send c) @ replicate len 0)"
proof -
  let ?out = "pump_segment fl ms len c"
  obtain w b where w: "tcp_write (replicate (TCP_HEADER + 4 + MSS) 0) (if_address n) (c_remote c) ?out = (w, b)"
    by fastforce
  have "len \<le> MSS" and small: "length (take w b) \<le> 1480"
    using tcp_write_length [OF w] pump_choice_length [OF ch] by (auto simp: TCP_HEADER_def MSS_def)
  then have room: "TCP_HEADER + 4 + length (og_payload ?out) \<le> length (replicate (TCP_HEADER + 4 + MSS) (0 :: u8))"
    by simp
  obtain n' where n': "send_ipv4 recording now (c_remote c) PROTOCOL_TCP (take w b) n = (None, n')"
    using send_ipv4_succeeds [OF _ can small, of recording] by (auto simp: card_accepts_def recording_def)
  obtain m where m: "if_device n' = if_device n @ [ipv4_frame m (c_remote c) PROTOCOL_TCP (take w b) (if_next_id n) n]"
      "length m = 6"
    using send_ipv4_recorded [OF n' macs small] by blast
  have "length (if_mac n) = 6" using macs by (simp add: knows_macs_def)
  then obtain pkt where "eth_parse (ipv4_frame m (c_remote c) PROTOCOL_TCP (take w b) (if_next_id n) n) =
      Some \<lparr>eth_destination = m, eth_kind = TYPE_IPV4, eth_payload = pkt\<rparr>"
    "ipv4_parse pkt = Some \<lparr>ip_source = if_address n, ip_destination = c_remote c, ip_protocol = PROTOCOL_TCP,
      ip_payload = take w b\<rparr>"
    using ipv4_frame_received [OF m(2) _ small] by blast
  moreover have "if_device (snd (pump_step recording now i n)) = if_device n'"
    by (simp add: pump_step_def c ch w n' Let_def)
  ultimately show ?thesis
    using m(1) tcp_round_trip(1) [OF room w]
    by (intro exI conjI) (assumption | simp add: frame_segment_def pump_segment_def)+
qed

lemma send_ipv4_grows: "\<exists>fs. if_device (snd (send_ipv4 recording now dest p payload n)) = if_device n @ fs"
  by (auto simp: send_ipv4_def request_arp_def card_send_def recording_def Let_def split: option.split)

lemma pump_step_device:
  "if_device (snd (pump_step tx now i n)) = if_device n \<or>
   (\<exists>dest p. if_device (snd (pump_step tx now i n)) = if_device (snd (send_ipv4 tx now dest PROTOCOL_TCP p n)))"
proof (cases "peek i (if_streams n)")
  case (Some c)
  show ?thesis
  proof (cases "c_reset c \<or> pump_choice c = None")
    case False
    then obtain fl ms len fin where ch: "pump_choice c = Some (fl, ms, len, fin)" "\<not> c_reset c"
      by (metis not_None_eq prod_cases4)
    obtain w b where w: "tcp_write (replicate (TCP_HEADER + 4 + MSS) 0) (if_address n) (c_remote c)
        (pump_segment fl ms len c) = (w, b)" by fastforce
    obtain e m where "send_ipv4 tx now (c_remote c) PROTOCOL_TCP (take w b) n = (e, m)" by fastforce
    then have "if_device (snd (pump_step tx now i n)) =
        if_device (snd (send_ipv4 tx now (c_remote c) PROTOCOL_TCP (take w b) n))"
      by (simp add: pump_step_def Some ch w Let_def split: option.split)
    then show ?thesis by blast
  qed (auto simp: pump_step_def Some)
qed (simp add: pump_step_def)

lemma pump_step_grows: "\<exists>fs. if_device (snd (pump_step recording now i n)) = if_device n @ fs"
  using pump_step_device [of recording now i n] send_ipv4_grows by (metis append_Nil2)

lemma pump_grows: "\<exists>fs. if_device (tcp_pump recording now i n) = if_device n @ fs"
proof (induction recording now i n rule: tcp_pump.induct)
  case (1 now i n)
  obtain b m where st: "pump_step recording now i n = (b, m)" by fastforce
  then obtain fs where "if_device m = if_device n @ fs"
    using pump_step_grows [of now i n] by auto
  then show ?case
    using "1.hyps" [OF st [symmetric]] by (cases b) (subst tcp_pump.simps, auto simp: st)+
qed

text \<open>So does the loop, for the first segment it owes.\<close>

lemma pump_first_frame:
  assumes "peek i (if_streams n) = Some c" "\<not> c_reset c" and "can_send now (c_remote c) n"
    and "pump_choice c = Some (fl, ms, len, fin)" and "knows_macs n"
  shows "\<exists>frame fs s. if_device (tcp_pump recording now i n) = if_device n @ frame # fs \<and>
    frame_segment frame = Some (if_address n, c_remote c, s) \<and> sg_sequence s = c_snd_nxt c \<and>
    sg_flags s = fl \<and> sg_payload s = take len (drop (unat (in_flight c)) (c_send c) @ replicate len 0)"
proof -
  obtain b m where st: "pump_step recording now i n = (b, m)" by fastforce
  have "\<exists>fs. if_device (tcp_pump recording now i n) = if_device m @ fs"
    using pump_grows [of now i m] by (subst tcp_pump.simps) (cases b, auto simp: st)
  then show ?thesis
    using pump_step_frame [OF assms] by (auto simp: st)
qed

section \<open>A datagram from program to program\<close>

text \<open>
  C29. A datagram arrives as it was sent.  When \<open>socket_send\<close> on one host succeeds, its card has
  been given exactly one more frame; and when packets for the destination come to another host
  that takes them (the hardware address the sender knows for it is that host's, or the frame is
  for everybody), that frame changes no socket there but the one bound to the destination's port:
  at the end of its queue stands one more datagram, with the sender's address and port and exactly
  the bytes that were sent, or, when eight are waiting already, the datagram is lost and counted in
  the socket.  When no socket has the port, the interface counts it as unheard.  The receiver's
  table is one its operations can have led to (\<open>sockets_ok\<close>), and the port is not zero, which
  every socket that is not bound has (\<open>unbound_socket_hears_port_zero\<close>).
\<close>

theorem datagram_arrives:
  assumes sent: "net_socket_send recording now own i data \<lparr>net_iface = Some a, net_has_address = h\<rparr> =
      (Inr k, \<lparr>net_iface = Some a', net_has_address = h\<rparr>)"
    and route: "socket_route own i (if_sockets a) = Inr (port, dest, to_port)" and "to_port \<noteq> 0"
    and macs: "knows_macs a" and reach: "reaches now a dest b" and ok: "sockets_ok (if_sockets b)"
  shows "\<exists>frame. if_device a' = if_device a @ [frame] \<and> k = length data \<and>
    (\<forall>j s. sock_at j (if_sockets b) = Some s \<longrightarrow> sock_at j (if_sockets (handle tx later frame b)) = Some
       (if so_local_port s \<noteq> to_port then s
        else if length (so_queue s) < QUEUE_DEPTH
        then s\<lparr>so_queue := so_queue s @ [\<lparr>rv_from = if_address a, rv_port = port, rv_data = data\<rparr>]\<rparr>
        else s\<lparr>so_dropped := so_dropped s + 1\<rparr>)) \<and>
    (\<forall>j. sock_at j (if_sockets b) = None \<longrightarrow> sock_at j (if_sockets (handle tx later frame b)) = None) \<and>
    k_udp_in (if_counters (handle tx later frame b)) = k_udp_in (if_counters b) + 1 \<and>
    k_udp_no_listener (if_counters (handle tx later frame b)) = k_udp_no_listener (if_counters b) +
      (if \<exists>j s. sock_at j (if_sockets b) = Some s \<and> so_local_port s = to_port then 0 else 1)"
proof -
  have len: "length data \<le> MAX_DATAGRAM" and s: "iface_socket_send recording now own i data a = (Inr k, a')"
    using sent by (auto simp: net_socket_send_def with_iface_def split: if_splits prod.splits)
  obtain w b0 where w: "udp_write (replicate (UDP_HEADER + MAX_DATAGRAM) 0) (if_address a) dest port to_port data = (w, b0)"
    by fastforce
  obtain a1 where a1: "send_ipv4 recording now dest PROTOCOL_UDP (take w b0) a = (None, a1)"
    "if_device a' = if_device a1" "k = length data"
    using s by (auto simp: iface_socket_send_def route w split: prod.splits option.splits)
  have room: "UDP_HEADER + length data \<le> length (replicate (UDP_HEADER + MAX_DATAGRAM) (0::u8))"
    "UDP_HEADER + length data < 65536"
    using len by (simp_all add: UDP_HEADER_def MAX_DATAGRAM_def)
  note udp = udp_round_trip [OF room w]
  have small: "length (take w b0) \<le> 1480"
    using udp(2) len by (simp add: UDP_HEADER_def MAX_DATAGRAM_def)
  obtain m where m: "if_device a1 = if_device a @ [ipv4_frame m dest PROTOCOL_UDP (take w b0) (if_next_id a) a]"
      "length m = 6" "hop_mac now dest a = Some m"
    using send_ipv4_recorded [OF a1(1) macs small] by blast
  let ?f = "ipv4_frame m dest PROTOCOL_UDP (take w b0) (if_next_id a) a"
  have mac: "length (if_mac a) = 6" using macs by (simp add: knows_macs_def)
  have ours: "m = if_mac b \<or> m = MAC_BROADCAST" "packet_is_ours dest b"
    using reach m(3) by (auto simp: reaches_def)
  have "handle tx later ?f b =
      handle_udp (if_address a) dest (take w b0) (count (\<lambda>k. k\<lparr>k_ipv4_in := k_ipv4_in k + 1\<rparr>) b)"
    using handle_frame [OF m(2) mac small ours] by (simp add: Let_def)
  moreover obtain d t where dl: "sockets_deliver to_port (if_address a) port data (if_sockets b) = (d, t)"
    by fastforce
  ultimately have tables: "if_sockets (handle tx later ?f b) = t"
    "k_udp_in (if_counters (handle tx later ?f b)) = k_udp_in (if_counters b) + 1"
    "k_udp_no_listener (if_counters (handle tx later ?f b)) = k_udp_no_listener (if_counters b) + (if d then 0 else 1)"
    by (simp_all add: handle_udp_def udp(1) Let_def)
  have del: "delivered_to to_port \<lparr>rv_from = if_address a, rv_port = port, rv_data = data\<rparr> (if_sockets b) t"
    and heard: "d \<longleftrightarrow> (\<exists>j s. sock_at j (if_sockets b) = Some s \<and> so_local_port s = to_port)"
    using sockets_deliver_table [OF ok assms(3), of "if_address a" port data] by (simp_all add: dl)
  have "if_device a' = if_device a @ [?f]" using m(1) a1(2) by simp
  then show ?thesis
    using a1(3) del tables(2,3) unfolding tables(1) [symmetric] delivered_to_def heard by blast
qed

definition dgram_host :: "u8 list list iface" where
  "dgram_host = (iface_start [] (replicate 6 2))
     \<lparr>if_address := 0x0A000002, if_netmask := 0xFFFFFF00,
      if_table := arp_remember arp_new 0x0A000003 (replicate 6 3) 0,
      if_sockets := sockets_new\<lparr>st_slots := (st_slots sockets_new)[0 := Some \<lparr>so_owner = 7,
        so_local_port = 50000, so_peer = Some (0x0A000003, 53), so_queue = [], so_last_peer = None,
        so_dropped = 0\<rparr>]\<rparr>\<rparr>"

definition dgram_server :: "unit iface" where
  "dgram_server = (iface_start () (replicate 6 3))
     \<lparr>if_address := 0x0A000003, if_netmask := 0xFFFFFF00,
      if_table := arp_remember arp_new 0x0A000002 (replicate 6 2) 0,
      if_sockets := fold socket_step [SOpen 9, SBind 9 0 53] sockets_new\<rparr>"

lemma dgram_server_socket:
  "sock_at 0 (if_sockets dgram_server) = Some \<lparr>so_owner = 9, so_local_port = 53, so_peer = None, so_queue = [],
     so_last_peer = None, so_dropped = 0\<rparr>"
proof -
  have "sock_at 0 (fold socket_step [SOpen 9, SBind 9 0 53] sockets_new) =
      Some \<lparr>so_owner = 9, so_local_port = 53, so_peer = None, so_queue = [], so_last_peer = None, so_dropped = 0\<rparr>"
    by code_simp
  then show ?thesis by (simp add: dgram_server_def)
qed

lemma dgram_host_route: "can_send 5 0x0A000003 dgram_host" "knows_macs dgram_host"
  "reaches 5 dgram_host 0x0A000003 dgram_server"
  "socket_route 7 0 (if_sockets dgram_host) = Inr (50000, 0x0A000003, 53)"
proof -
  have new: "arp_new = [None, None, None, None, None, None, None, None]"
    by (simp add: arp_new_def ARP_ENTRIES_def numeral_eq_Suc)
  show "can_send 5 0x0A000003 dgram_host" "knows_macs dgram_host"
    "reaches 5 dgram_host 0x0A000003 dgram_server"
    by (simp_all add: reaches_def hop_mac_def dgram_server_def packet_is_ours_def hop_is_broadcast_def
        network_broadcast_def can_send_def dgram_host_def next_hop_def same_network_def is_unspecified_def
        arp_lookup_def arp_remember_def new ARP_LIFETIME_MS_def knows_macs_def iface_start_def)
  show "socket_route 7 0 (if_sockets dgram_host) = Inr (50000, 0x0A000003, 53)"
    by (simp add: dgram_host_def socket_route_def get_socket_def sockets_new_def MAX_SOCKETS_def)
qed

lemma recording_accepts [simp]: "card_accepts recording"
  by (simp add: card_accepts_def recording_def)

lemma dgram_sent:
  "\<exists>n. net_socket_send recording 5 7 0 [1, 2, 3] \<lparr>net_iface = Some dgram_host, net_has_address = True\<rparr> =
    (Inr 3, \<lparr>net_iface = Some n, net_has_address = True\<rparr>)"
proof -
  obtain w b where w: "udp_write (replicate (UDP_HEADER + MAX_DATAGRAM) 0) (if_address dgram_host) 0x0A000003
      50000 53 [1, 2, 3] = (w, b)"
    by fastforce
  have "w = 11"
    using udp_round_trip(2) [OF _ _ w] by (simp add: UDP_HEADER_def MAX_DATAGRAM_def)
  then have "length (take w b) \<le> 1480" by simp
  then obtain d where "send_ipv4 recording 5 0x0A000003 PROTOCOL_UDP (take w b) dgram_host =
      (None, dgram_host\<lparr>if_next_id := if_next_id dgram_host + 1, if_device := d\<rparr>)"
    using send_ipv4_succeeds [OF recording_accepts dgram_host_route(1)] by blast
  then show ?thesis
    by (simp add: net_socket_send_def MAX_DATAGRAM_def with_iface_def iface_socket_send_def
        dgram_host_route(4) w [unfolded MAX_DATAGRAM_def, simplified])
qed

theorem datagram_arrives_witness:
  "\<exists>(n :: u8 list list iface) frame. if_device n = [frame] \<and>
     map_option so_queue (sock_at 0 (if_sockets (handle (\<lambda>f d. (None, d)) 9 frame dgram_server))) =
       Some [\<lparr>rv_from = 0x0A000002, rv_port = 50000, rv_data = [1, 2, 3]\<rparr>]"
proof -
  obtain n where n: "net_socket_send recording 5 7 0 [1, 2, 3]
      \<lparr>net_iface = Some dgram_host, net_has_address = True\<rparr> =
    (Inr 3, \<lparr>net_iface = Some n, net_has_address = True\<rparr>)"
    using dgram_sent by blast
  have host: "if_device dgram_host = []" "if_address dgram_host = 0x0A000002"
    by (simp_all add: dgram_host_def iface_start_def)
  have ok: "sockets_ok (if_sockets dgram_server)"
    using sockets_ok_run [OF sockets_ok_new, of "[SOpen 9, SBind 9 0 53]"] by (simp add: dgram_server_def)
  have port: "(53 :: u16) \<noteq> 0" by simp
  obtain frame where "if_device n = [frame]" and "\<forall>j s. sock_at j (if_sockets dgram_server) = Some s \<longrightarrow>
      sock_at j (if_sockets (handle (\<lambda>f d. (None, d)) 9 frame dgram_server)) = Some
       (if so_local_port s \<noteq> 53 then s
        else if length (so_queue s) < QUEUE_DEPTH
        then s\<lparr>so_queue := so_queue s @ [\<lparr>rv_from = 0x0A000002, rv_port = 50000, rv_data = [1, 2, 3]\<rparr>]\<rparr>
        else s\<lparr>so_dropped := so_dropped s + 1\<rparr>)"
    using datagram_arrives [OF n dgram_host_route(4) port dgram_host_route(2,3) ok, where later = 9 and tx = "\<lambda>f d. (None, d)"]
    unfolding host by auto
  with dgram_server_socket show ?thesis
    by (intro exI [where x = n] exI [where x = frame]) (auto simp: QUEUE_DEPTH_def)
qed

section \<open>An echo request and its answer\<close>

lemma icmp_write_length:
  "icmp_write buffer kind ident sequence data = (w, b) \<Longrightarrow> w = ICMP_HEADER + length data"
  by (simp add: icmp_write_def Let_def)

text \<open>The packet of an echo message, as \<^verbatim>\<open>ping\<close> sends it.\<close>

lemma echo_answered:
  assumes "card_accepts tx" and "can_send later (ip_source q) b" and "\<not> is_unspecified (if_address b)"
    and parsed: "icmp_parse (ip_payload q) = Some e" and kind: "echo_kind e = ECHO_REQUEST"
    and len: "length (echo_data e) \<le> 1472"
  shows "\<exists>w buf n. icmp_write (replicate FRAME_MAX 0) ECHO_REPLY (echo_id e) (echo_sequence e) (echo_data e) = (w, buf) \<and>
    send_ipv4 tx later (ip_source q) PROTOCOL_ICMP (take w buf)
      (count (\<lambda>k. k\<lparr>k_echo_requests_in := k_echo_requests_in k + 1\<rparr>) b) = (None, n) \<and>
    handle_icmp tx later q b = count (\<lambda>k. k\<lparr>k_echo_replies_out := k_echo_replies_out k + 1\<rparr>) n \<and>
    length (take w buf) \<le> 1480 \<and>
    icmp_parse (take w buf) = Some \<lparr>echo_kind = ECHO_REPLY, echo_id = echo_id e,
      echo_sequence = echo_sequence e, echo_data = echo_data e\<rparr>"
proof -
  let ?b = "count (\<lambda>k. k\<lparr>k_echo_requests_in := k_echo_requests_in k + 1\<rparr>) b"
  obtain w buf where w: "icmp_write (replicate FRAME_MAX 0) ECHO_REPLY (echo_id e) (echo_sequence e) (echo_data e) = (w, buf)"
    by fastforce
  have small: "length (take w buf) \<le> 1480"
    using icmp_write_length [OF w] len by (simp add: ICMP_HEADER_def)
  have "can_send later (ip_source q) ?b"
    using assms(2) by (rule can_send_cong [THEN iffD2, rotated 4]) simp_all
  then obtain n where n: "send_ipv4 tx later (ip_source q) PROTOCOL_ICMP (take w buf) ?b = (None, n)"
    using send_ipv4_succeeds [OF assms(1) _ small] by blast
  have "ICMP_HEADER + length (echo_data e) \<le> length (replicate FRAME_MAX (0::u8))"
    using len by (simp add: ICMP_HEADER_def FRAME_MAX_def)
  then have "icmp_parse (take w buf) = Some \<lparr>echo_kind = ECHO_REPLY, echo_id = echo_id e,
      echo_sequence = echo_sequence e, echo_data = echo_data e\<rparr>"
    using icmp_round_trip [OF _ _ w] by simp
  moreover have "handle_icmp tx later q b = count (\<lambda>k. k\<lparr>k_echo_replies_out := k_echo_replies_out k + 1\<rparr>) n"
    using assms(3) n by (simp add: handle_icmp_def parsed kind Let_def w)
  ultimately show ?thesis using w n small by blast
qed

text \<open>
  C30. A ping is answered, and its answer is understood.  A host with an address that receives an
  echo request whose sender it can reach gives its card exactly one frame; the host that asked,
  when that frame comes to it, notes a reply from the address it asked, with the identifier and
  the sequence number of its request; and the message the reply carries has the data of the request.
\<close>

theorem echo_returned:
  assumes request: "icmp_parse message = Some e" "echo_kind e = ECHO_REQUEST" "length message \<le> 1480"
    and asked: "length m = 6" "m = if_mac b \<or> m = MAC_BROADCAST" "packet_is_ours dest b"
    and macs: "length (if_mac a) = 6" "knows_macs b"
    and address: "\<not> is_unspecified (if_address b)"
    and route: "can_send later (if_address a) b" "reaches later b (if_address a) a"
  shows "\<exists>frame reply. if_device (handle recording later (ipv4_frame m dest PROTOCOL_ICMP message ident a) b) =
      if_device b @ [frame] \<and>
    icmp_parse reply = Some (e\<lparr>echo_kind := ECHO_REPLY\<rparr>) \<and>
    Option.bind (eth_parse frame) (\<lambda>f. ipv4_parse (eth_payload f)) =
      Some \<lparr>ip_source = if_address b, ip_destination = if_address a, ip_protocol = PROTOCOL_ICMP, ip_payload = reply\<rparr> \<and>
    if_last_reply (handle tx now frame a) = Some \<lparr>rp_from = if_address b, rp_id = echo_id e,
      rp_sequence = echo_sequence e, rp_at_ms = now\<rparr>"
proof -
  let ?q = "\<lparr>ip_source = if_address a, ip_destination = dest, ip_protocol = PROTOCOL_ICMP, ip_payload = message\<rparr>"
  let ?b = "count (\<lambda>k. k\<lparr>k_ipv4_in := k_ipv4_in k + 1\<rparr>) b"
  let ?r = "\<lparr>echo_kind = ECHO_REPLY, echo_id = echo_id e, echo_sequence = echo_sequence e, echo_data = echo_data e\<rparr>"
  have pr: "PROTOCOL_ICMP \<noteq> PROTOCOL_UDP" "PROTOCOL_ICMP \<noteq> PROTOCOL_TCP"
    by (simp_all add: PROTOCOL_ICMP_def PROTOCOL_UDP_def PROTOCOL_TCP_def)
  have h: "handle recording later (ipv4_frame m dest PROTOCOL_ICMP message ident a) b = handle_icmp recording later ?q ?b"
    using handle_frame [OF asked(1) macs(1) request(3) asked(2,3)] pr by (simp add: Let_def)
  have data: "length (echo_data e) \<le> 1472"
    using request(1,3) by (auto simp: icmp_parse_def ICMP_HEADER_def Let_def split: if_splits)
  have route': "can_send later (ip_source ?q) ?b"
    using route(1) by (simp, rule can_send_cong [THEN iffD2, rotated 4]) simp_all
  obtain w buf n where n: "send_ipv4 recording later (if_address a) PROTOCOL_ICMP (take w buf)
        (count (\<lambda>k. k\<lparr>k_echo_requests_in := k_echo_requests_in k + 1\<rparr>) ?b) = (None, n)"
      "handle_icmp recording later ?q ?b = count (\<lambda>k. k\<lparr>k_echo_replies_out := k_echo_replies_out k + 1\<rparr>) n"
    and small: "length (take w buf) \<le> 1480" and reply: "icmp_parse (take w buf) = Some ?r"
    using echo_answered [OF recording_accepts route', of e] address request(1,2) data by auto
  have kb: "knows_macs (count (\<lambda>k. k\<lparr>k_echo_requests_in := k_echo_requests_in k + 1\<rparr>) ?b)"
    using macs(2) by (simp add: knows_macs_def)
  have same: "ipv4_frame u d p l i (x\<lparr>if_counters := k\<rparr>) = ipv4_frame u d p l i x" for u d p l i k and x :: "u8 list list iface"
    by (simp add: ipv4_frame_def)
  have hops: "hop_mac later d (x\<lparr>if_counters := k\<rparr>) = hop_mac later d x" for d k and x :: "u8 list list iface"
    by (simp add: hop_mac_def next_hop_def hop_is_broadcast_def cong: option.case_cong)
  obtain u where u: "if_device n = if_device b @ [ipv4_frame u (if_address a) PROTOCOL_ICMP (take w buf) (if_next_id b) b]"
      "length u = 6" "hop_mac later (if_address a) b = Some u"
    using send_ipv4_recorded [OF n(1) kb small] by (auto simp: same hops)
  let ?f = "ipv4_frame u (if_address a) PROTOCOL_ICMP (take w buf) (if_next_id b) b"
  have mb: "length (if_mac b) = 6" using macs(2) by (simp add: knows_macs_def)
  have ours: "u = if_mac a \<or> u = MAC_BROADCAST" "packet_is_ours (if_address a) a"
    using route(2) u(3) by (auto simp: reaches_def)
  have "handle tx now ?f a = handle_icmp tx now \<lparr>ip_source = if_address b, ip_destination = if_address a,
      ip_protocol = PROTOCOL_ICMP, ip_payload = take w buf\<rparr> (count (\<lambda>k. k\<lparr>k_ipv4_in := k_ipv4_in k + 1\<rparr>) a)"
    using handle_frame [OF u(2) mb small ours] pr by (simp add: Let_def)
  then have "if_last_reply (handle tx now ?f a) = Some \<lparr>rp_from = if_address b, rp_id = echo_id e,
      rp_sequence = echo_sequence e, rp_at_ms = now\<rparr>"
    by (simp add: handle_icmp_def reply ECHO_REPLY_def ECHO_REQUEST_def)
  moreover have "Option.bind (eth_parse ?f) (\<lambda>f. ipv4_parse (eth_payload f)) =
      Some \<lparr>ip_source = if_address b, ip_destination = if_address a, ip_protocol = PROTOCOL_ICMP, ip_payload = take w buf\<rparr>"
    using ipv4_frame_received [OF u(2) mb small, of "if_address a" PROTOCOL_ICMP "if_next_id b"] by auto
  moreover have "?r = e\<lparr>echo_kind := ECHO_REPLY\<rparr>" by simp
  ultimately show ?thesis
    using h n(2) u(1) reply by (intro exI [where x = ?f] exI [where x = "take w buf"]) simp
qed

theorem echo_returned_witness:
  "\<exists>frame reply. icmp_parse reply = Some \<lparr>echo_kind = ECHO_REPLY, echo_id = 1, echo_sequence = 2, echo_data = [7]\<rparr> \<and>
    if_last_reply (handle (\<lambda>f d. (None, d)) 20 frame dgram_server) =
      Some \<lparr>rp_from = 0x0A000002, rp_id = 1, rp_sequence = 2, rp_at_ms = 20\<rparr>"
proof -
  let ?e = "\<lparr>echo_kind = ECHO_REQUEST, echo_id = 1, echo_sequence = 2, echo_data = [7]\<rparr>"
  obtain w buf where w: "icmp_write (replicate 9 0) ECHO_REQUEST 1 2 [7] = (w, buf)" by fastforce
  have m: "icmp_parse (take w buf) = Some ?e"
    using icmp_round_trip [OF _ _ w] by (simp add: ICMP_HEADER_def)
  have len: "length (take w buf) \<le> 1480"
    using icmp_write_length [OF w] by (simp add: ICMP_HEADER_def)
  have new: "arp_new = [None, None, None, None, None, None, None, None]"
    by (simp add: arp_new_def ARP_ENTRIES_def numeral_eq_Suc)
  have "can_send 5 (if_address dgram_server) dgram_host" "reaches 5 dgram_host (if_address dgram_server) dgram_server"
    using dgram_host_route(1,3) by (simp_all add: dgram_server_def)
  moreover have "packet_is_ours 0x0A000002 dgram_host" "\<not> is_unspecified (if_address dgram_host)"
    "if_address dgram_host = 0x0A000002" "length (if_mac dgram_server) = 6" "length (replicate 6 2 :: mac) = 6"
    "replicate 6 2 = if_mac dgram_host"
    by (simp_all add: packet_is_ours_def dgram_host_def dgram_server_def is_unspecified_def iface_start_def)
  ultimately show ?thesis
    using echo_returned [OF m _ len, where m = "replicate 6 2" and b = dgram_host and dest = "0x0A000002" and
        a = dgram_server and later = 5 and now = 20 and tx = "\<lambda>f d. (None, d)"]
      dgram_host_route(2) by auto
qed

end
