(* ===== verification/Hazards.thy ===== *)
theory Hazards
  imports Delivery
begin

text \<open>
  Time-outs and losses of a TCP connection (\<^verbatim>\<open>tcp_tick\<close>, \<^verbatim>\<open>back_off\<close>, \<^verbatim>\<open>gave_up\<close> with the output
  loop): how a silent peer is given up, and the situations in which the code leaves a
  connection without a timer, a slot without an owner, or data unsent.
\<close>

section \<open>A silent peer\<close>

text \<open>What the output loop leaves as it is in an established connection that is not closing.\<close>

definition same_retry :: "conn \<Rightarrow> conn \<Rightarrow> bool" where
  "same_retry c d \<longleftrightarrow> c_state d = c_state c \<and> c_closing d = c_closing c \<and> c_send d = c_send c \<and>
     c_snd_una d = c_snd_una c \<and> c_snd_wnd d = c_snd_wnd c \<and> c_peer_mss d = c_peer_mss c \<and>
     c_retries d = c_retries c \<and> c_rto_ms d = c_rto_ms c \<and> c_reset d = c_reset c \<and>
     c_remote d = c_remote c \<and> (c_retransmit_at c \<noteq> 0 \<longrightarrow> c_retransmit_at d = c_retransmit_at c)"

lemma same_retry_refl [simp]: "same_retry c c"
  by (simp add: same_retry_def)

lemma same_retry_trans: "same_retry c d \<Longrightarrow> same_retry d e \<Longrightarrow> same_retry c e"
  by (simp add: same_retry_def)

lemma same_retry_sent: "\<not> fin \<Longrightarrow> same_retry c (pump_sent now fl len fin c)"
  by (simp add: same_retry_def pump_sent_def Let_def arm_def)

lemma same_retry_pending: "same_retry c (pump_pending now c)"
  by (simp add: same_retry_def pump_pending_def Let_def arm_def)

lemma pump_step_same_retry:
  assumes "peek i (if_streams n) = Some c" and "\<not> c_closing c" and st: "pump_step tx now i n = (b, n')"
  shows "\<exists>d. peek i (if_streams n') = Some d \<and> same_retry c d"
proof -
  have no_fin: "\<not> fin" if "pump_choice c = Some (fl, ms, len, fin)" for fl ms len fin
    using that assms(2) by (cases rule: pump_choice_cases) (auto simp: owes_fin_def)
  show ?thesis
    using st assms(1) same_retry_pending
    by (auto simp: pump_step_def Let_def dest!: send_ipv4_tables no_fin intro!: same_retry_sent
        split: if_splits option.splits prod.splits)
qed

lemma pump_same_retry:
  "peek i (if_streams n) = Some c \<Longrightarrow> \<not> c_closing c \<Longrightarrow>
   \<exists>d. peek i (if_streams (tcp_pump tx now i n)) = Some d \<and> same_retry c d"
proof (induction tx now i n arbitrary: c rule: tcp_pump.induct)
  case (1 tx now i n)
  obtain b m where st: "pump_step tx now i n = (b, m)" by fastforce
  obtain d where d: "peek i (if_streams m) = Some d" "same_retry c d"
    using pump_step_same_retry [OF "1.prems" st] by blast
  show ?case
  proof (cases b)
    case True
    then have "tcp_pump tx now i n = tcp_pump tx now i m"
      by (subst tcp_pump.simps) (simp add: st)
    moreover have "\<not> c_closing d" using d(2) "1.prems"(2) by (simp add: same_retry_def)
    then have "\<exists>e. peek i (if_streams (tcp_pump tx now i m)) = Some e \<and> same_retry d e"
      using "1.IH" [OF st [symmetric] _ d(1)] True by simp
    ultimately show ?thesis
      using d(2) same_retry_trans by auto
  next
    case False
    then have "tcp_pump tx now i n = m"
      by (subst tcp_pump.simps) (simp add: st)
    then show ?thesis using d by simp
  qed
qed

text \<open>Data in flight, \<open>r\<close> attempts made, the next due by \<open>due\<close>.\<close>

definition retrying :: "nat \<Rightarrow> nat \<Rightarrow> conn \<Rightarrow> bool" where
  "retrying r due c \<longleftrightarrow> \<not> c_reset c \<and> c_state c = Established \<and> \<not> c_closing c \<and> c_send c \<noteq> [] \<and>
     0 < c_snd_wnd c \<and> 0 < c_peer_mss c \<and> in_flight c \<noteq> 0 \<and> c_retries c = r \<and>
     c_rto_ms c \<le> RTO_MAX_MS \<and> 0 < c_rto_ms c \<and> 0 < c_retransmit_at c \<and> c_retransmit_at c \<le> due"

lemma settled_in_flight:
  assumes "settled d" and "c_state d = Established" and "c_send d \<noteq> []" and "0 < c_snd_wnd d" and "0 < c_peer_mss d"
  shows "in_flight d \<noteq> 0"
proof
  assume "in_flight d = 0"
  then have "sendable d = min (min (length (c_send d)) (unat (c_snd_wnd d))) (min (unat (c_peer_mss d)) MSS)"
    using assms(2) by (simp add: sendable_def)
  moreover have "0 < unat (c_snd_wnd d)" "0 < unat (c_peer_mss d)"
    using assms(4,5) by (simp_all add: unat_gt_0 word_gt_0)
  then have "0 < min (min (length (c_send d)) (unat (c_snd_wnd d))) (min (unat (c_peer_mss d)) MSS)"
    using assms(3) by (simp add: MSS_def)
  ultimately show False
    using assms(1) unfolding settled_def by (metis less_irrefl)
qed

text \<open>The route to the peer, which the ticks of a connection leave as it is.\<close>

definition same_route :: "'d iface \<Rightarrow> 'd iface \<Rightarrow> bool" where
  "same_route n m \<longleftrightarrow> if_address m = if_address n \<and> if_netmask m = if_netmask n \<and>
     if_gateway m = if_gateway n \<and> if_table m = if_table n"

lemma same_route_can_send: "same_route n m \<Longrightarrow> can_send now d m = can_send now d n"
  by (rule can_send_cong) (simp_all add: same_route_def)

text \<open>The output loop leaves the counts of time-outs alone.\<close>

lemma send_ipv4_timeout_counters:
  "k_tcp_retransmits (if_counters (snd (send_ipv4 tx now dest p payload n))) = k_tcp_retransmits (if_counters n) \<and>
   k_tcp_timeouts (if_counters (snd (send_ipv4 tx now dest p payload n))) = k_tcp_timeouts (if_counters n)"
  by (auto simp: send_ipv4_def request_arp_def card_send_def Let_def split: option.split prod.split)

lemma pump_step_timeout_counters:
  assumes "pump_step tx now i n = (b, m)"
  shows "k_tcp_retransmits (if_counters m) = k_tcp_retransmits (if_counters n) \<and>
    k_tcp_timeouts (if_counters m) = k_tcp_timeouts (if_counters n)"
proof (cases "peek i (if_streams n)")
  case (Some c)
  show ?thesis
  proof (cases "c_reset c \<or> pump_choice c = None")
    case False
    then obtain fl ms len fin where ch: "pump_choice c = Some (fl, ms, len, fin)" "\<not> c_reset c"
      by (metis not_None_eq prod_cases4)
    obtain w buf where w: "tcp_write (replicate (TCP_HEADER + 4 + MSS) 0) (if_address n) (c_remote c)
        (pump_segment fl ms len c) = (w, buf)" by fastforce
    obtain e k where e: "send_ipv4 tx now (c_remote c) PROTOCOL_TCP (take w buf) n = (e, k)" by fastforce
    have "k_tcp_retransmits (if_counters k) = k_tcp_retransmits (if_counters n) \<and>
        k_tcp_timeouts (if_counters k) = k_tcp_timeouts (if_counters n)"
      using send_ipv4_timeout_counters [of tx now "c_remote c" PROTOCOL_TCP "take w buf" n] by (simp add: e)
    then show ?thesis
      using assms by (auto simp: pump_step_def Some ch w e Let_def split: option.splits if_splits)
  qed (use assms in \<open>auto simp: pump_step_def Some split: if_splits\<close>)
qed (use assms in \<open>simp add: pump_step_def\<close>)

lemma pump_timeout_counters:
  "k_tcp_retransmits (if_counters (tcp_pump tx now i n)) = k_tcp_retransmits (if_counters n) \<and>
   k_tcp_timeouts (if_counters (tcp_pump tx now i n)) = k_tcp_timeouts (if_counters n)"
proof (induction tx now i n rule: tcp_pump.induct)
  case (1 tx now i n)
  obtain b m where st: "pump_step tx now i n = (b, m)" by fastforce
  show ?case
    using "1.IH" [OF st [symmetric]] pump_step_timeout_counters [OF st]
    by (cases b) (subst (1 2) tcp_pump.simps, simp add: st)+
qed

text \<open>What a connection would send again: its first unacknowledged bytes, as many as go in a segment.\<close>

definition first_unacked :: "conn \<Rightarrow> u8 list" where
  "first_unacked c = take (min (min (length (c_send c)) (unat (c_snd_wnd c))) (min (unat (c_peer_mss c)) MSS)) (c_send c)"

text \<open>
  Frames of which the first carries those bytes from an address to the peer, under the number of
  the first of them.
\<close>

definition resends :: "conn \<Rightarrow> ipv4 \<Rightarrow> u8 list list \<Rightarrow> bool" where
  "resends c address frames \<longleftrightarrow> first_unacked c \<noteq> [] \<and>
     (\<exists>frame rest s. frames = frame # rest \<and> frame_segment frame = Some (address, c_remote c, s) \<and>
        sg_sequence s = c_snd_una c \<and> sg_payload s = first_unacked c)"

lemma resends_cong:
  "same_retry c d \<Longrightarrow> resends d a fs = resends c a fs"
  by (simp add: resends_def first_unacked_def same_retry_def)

text \<open>One time-out of many: the data goes out again and the count goes up.\<close>

lemma retry_tick:
  assumes c: "peek i (if_streams n) = Some c" "retrying r due c"
    and r: "r < MAX_RETRIES" and t: "due \<le> t" and can: "can_send t (c_remote c) n" and macs: "knows_macs n"
  defines "n' \<equiv> tick_stream recording t i n"
  shows "\<exists>d frames. peek i (if_streams n') = Some d \<and> retrying (r + 1) (t + RTO_MAX_MS) d \<and>
    first_unacked d = first_unacked c \<and> c_snd_una d = c_snd_una c \<and> c_remote d = c_remote c \<and>
    same_route n n' \<and> knows_macs n' \<and> if_device n' = if_device n @ frames \<and> resends c (if_address n) frames \<and>
    k_tcp_retransmits (if_counters n') = k_tcp_retransmits (if_counters n) + 1 \<and>
    k_tcp_timeouts (if_counters n') = k_tcp_timeouts (if_counters n)"
proof -
  define b where "b = (back_off t c)\<lparr>c_snd_nxt := c_snd_una c, c_fin_sent := False\<rparr>"
  have "c_snd_nxt c \<noteq> c_snd_una c" using c(2) by (auto simp: retrying_def in_flight_def)
  then have tick: "tick_conn t c = (b, True, False, True)"
    using c(2) r t by (auto simp: retrying_def tick_conn_def timed_out_def gave_up_def Let_def b_def back_off_def)
  have not_expired: "\<not> stream_expired i t (if_streams n)"
    using c by (auto simp: stream_expired_def retrying_def peek_def split: if_splits)
  define m where "m = count (\<lambda>k. k\<lparr>k_tcp_retransmits := k_tcp_retransmits k + 1\<rparr>) (change_stream i (\<lambda>c. b) n)"
  have ts: "n' = tcp_pump recording t i m"
    using not_expired c(1) by (simp add: n'_def tick_stream_def tick m_def)
  have pm: "peek i (if_streams m) = Some b"
    using c(1) by (simp add: m_def)
  have b: "c_state b = Established" "\<not> c_closing b" "c_send b \<noteq> []" "0 < c_snd_wnd b" "0 < c_peer_mss b"
    "c_retries b = r + 1" "c_rto_ms b \<le> RTO_MAX_MS" "0 < c_rto_ms b" "\<not> c_reset b" "c_remote b = c_remote c"
    "0 < c_retransmit_at b" "c_retransmit_at b \<le> t + RTO_MAX_MS" "in_flight b = 0"
    and same: "c_send b = c_send c" "c_snd_una b = c_snd_una c" "c_snd_wnd b = c_snd_wnd c" "c_peer_mss b = c_peer_mss c"
      "c_snd_nxt b = c_snd_una c"
    using c(2) by (auto simp: b_def retrying_def back_off_def Let_def RTO_MAX_MS_def in_flight_def)
  have route: "same_route n m" and macs_m: "knows_macs m" and dev: "if_device m = if_device n"
    "if_address m = if_address n"
    using macs by (simp_all add: same_route_def m_def knows_macs_def)
  have can_m: "can_send t (c_remote b) m"
    using can b(10) same_route_can_send [OF route] by simp
  from pump_settled [OF recording_accepts pm b(9) this] obtain d where
    d: "peek i (if_streams n') = Some d" "settled d" "same_route m n'" "if_mac n' = if_mac m"
    by (auto simp: same_route_def ts)
  moreover obtain e where "peek i (if_streams n') = Some e" "same_retry b e"
    using pump_same_retry [OF pm b(2)] by (auto simp: ts)
  ultimately have s: "same_retry b d" by simp
  have "in_flight d \<noteq> 0"
    by (rule settled_in_flight [OF d(2)]) (use s b in \<open>simp_all add: same_retry_def\<close>)
  then have retrying: "retrying (r + 1) (t + RTO_MAX_MS) d"
    using s b by (simp add: retrying_def same_retry_def)
  have kept: "first_unacked d = first_unacked c" "c_snd_una d = c_snd_una c" "c_remote d = c_remote c"
    using s b(10) same by (simp_all add: first_unacked_def same_retry_def)
  have len: "sendable b = min (min (length (c_send c)) (unat (c_snd_wnd c))) (min (unat (c_peer_mss c)) MSS)" (is "_ = ?len")
    using b(1,13) same by (simp add: sendable_def)
  have "0 < unat (c_snd_wnd b)" "0 < unat (c_peer_mss b)"
    using b(4,5) by (simp_all add: unat_gt_0 word_gt_0)
  then have some: "0 < sendable b"
    using b(3) unfolding len same by (simp add: MSS_def)
  then have "pump_choice b = Some (ACK OR PSH, False, sendable b, False)"
    using b(1) by (simp add: pump_choice.simps)
  from pump_first_frame [OF pm b(9) can_m this macs_m] obtain frame fs sg where f:
    "if_device n' = if_device n @ frame # fs" "frame_segment frame = Some (if_address n, c_remote c, sg)"
    "sg_sequence sg = c_snd_una c" "sg_payload sg = take (sendable b) (c_send b @ replicate (sendable b) 0)"
    unfolding ts [symmetric] dev b(10) same(5) using b(13) by auto
  have "sg_payload sg = first_unacked c"
    using f(4) unfolding len same first_unacked_def by (simp add: min_def)
  moreover have "first_unacked c \<noteq> []"
    using some b(3) unfolding len same first_unacked_def by simp
  ultimately have "resends c (if_address n) (frame # fs)"
    using f(2,3) by (auto simp: resends_def)
  moreover have "same_route n n'" "knows_macs n'"
    using d(3,4) route macs_m by (auto simp: same_route_def knows_macs_def)
  moreover have "k_tcp_retransmits (if_counters n') = k_tcp_retransmits (if_counters n) + 1 \<and>
      k_tcp_timeouts (if_counters n') = k_tcp_timeouts (if_counters n)"
    using pump_timeout_counters [of recording t i m] by (simp add: ts m_def)
  ultimately show ?thesis
    using d(1) retrying kept f(1) by blast
qed

lemma last_tick:
  assumes c: "peek i (if_streams n) = Some c" "retrying MAX_RETRIES due c" and t: "due \<le> t"
  defines "n' \<equiv> tick_stream recording t i n"
  shows "\<exists>d. peek i (if_streams n') = Some d \<and> c_reset d \<and> c_state d = Closed \<and> if_device n' = if_device n \<and>
    k_tcp_retransmits (if_counters n') = k_tcp_retransmits (if_counters n) \<and>
    k_tcp_timeouts (if_counters n') = k_tcp_timeouts (if_counters n) + 1"
proof -
  have tick: "tick_conn t c = (c, False, True, False)"
    using c(2) t by (simp add: retrying_def tick_conn_def timed_out_def gave_up_def)
  have "\<not> stream_expired i t (if_streams n)"
    using c by (auto simp: stream_expired_def retrying_def peek_def split: if_splits)
  then show ?thesis
    using c(1) by (simp add: n'_def tick_stream_def tick)
qed

text \<open>Each tick comes at least four seconds after the one before.\<close>

fun spaced :: "nat \<Rightarrow> nat list \<Rightarrow> bool" where
  "spaced due [] = True"
| "spaced due (t # ts) = (due \<le> t \<and> spaced (t + RTO_MAX_MS) ts)"

text \<open>The interface after ticks at the given times, with a card that keeps the frames it is given.\<close>

definition ticks :: "nat \<Rightarrow> nat list \<Rightarrow> u8 list list iface \<Rightarrow> u8 list list iface" where
  "ticks i ts n = fold (\<lambda>t. tick_stream recording t i) ts n"

lemma ticks_simps [simp]: "ticks i [] n = n" "ticks i (t # ts) n = ticks i ts (tick_stream recording t i n)"
  by (simp_all add: ticks_def)

text \<open>Each of the ticks but the last sends the data again, and the last gives up.\<close>

lemma silent_ticks:
  assumes "peek i (if_streams n) = Some c" and "retrying r due c"
    and "r + length ts = MAX_RETRIES + 1" and "spaced due ts" and "\<forall>t\<in>set ts. can_send t (c_remote c) n"
    and "r \<le> MAX_RETRIES" and "knows_macs n"
  shows "(\<forall>k<MAX_RETRIES - r. \<exists>d frames. if_device (ticks i (take (k + 1) ts) n) = if_device (ticks i (take k ts) n) @ frames \<and>
       resends c (if_address n) frames \<and> peek i (if_streams (ticks i (take (k + 1) ts) n)) = Some d \<and>
       \<not> c_reset d \<and> c_state d = Established) \<and>
    (\<exists>d. peek i (if_streams (ticks i ts n)) = Some d \<and> c_reset d \<and> c_state d = Closed) \<and>
    k_tcp_retransmits (if_counters (ticks i ts n)) = k_tcp_retransmits (if_counters n) + (MAX_RETRIES - r) \<and>
    k_tcp_timeouts (if_counters (ticks i ts n)) = k_tcp_timeouts (if_counters n) + 1"
  using assms
proof (induction ts arbitrary: n c r due)
  case (Cons t ts)
  show ?case
  proof (cases "r = MAX_RETRIES")
    case True
    then have "ts = []" using Cons.prems(3) by simp
    then show ?thesis
      using last_tick [OF Cons.prems(1) Cons.prems(2) [unfolded True], of t] Cons.prems(4) True by auto
  next
    case False
    then have r: "r < MAX_RETRIES" using Cons.prems(6) by simp
    let ?n = "tick_stream recording t i n"
    obtain d frames where d: "peek i (if_streams ?n) = Some d" "retrying (r + 1) (t + RTO_MAX_MS) d"
      "first_unacked d = first_unacked c" "c_snd_una d = c_snd_una c" "c_remote d = c_remote c" "same_route n ?n"
      "knows_macs ?n" "if_device ?n = if_device n @ frames" "resends c (if_address n) frames"
      "k_tcp_retransmits (if_counters ?n) = k_tcp_retransmits (if_counters n) + 1"
      "k_tcp_timeouts (if_counters ?n) = k_tcp_timeouts (if_counters n)"
      using retry_tick [OF Cons.prems(1,2) r, of t] Cons.prems(4,5,7) by auto
    have "\<forall>u\<in>set ts. can_send u (c_remote d) ?n"
      using Cons.prems(5) by (simp add: d(5) same_route_can_send [OF d(6)])
    note ih = Cons.IH [OF d(1,2) _ _ this _ d(7)]
    have same: "resends d (if_address ?n) fs = resends c (if_address n) fs" for fs
      using d(3-6) by (simp add: resends_def same_route_def)
    have later: "\<forall>k<MAX_RETRIES - (r + 1). \<exists>d frames.
       if_device (ticks i (take (k + 1) ts) ?n) = if_device (ticks i (take k ts) ?n) @ frames \<and>
       resends c (if_address n) frames \<and> peek i (if_streams (ticks i (take (k + 1) ts) ?n)) = Some d \<and>
       \<not> c_reset d \<and> c_state d = Established"
      and last: "\<exists>d. peek i (if_streams (ticks i ts ?n)) = Some d \<and> c_reset d \<and> c_state d = Closed"
      and counts: "k_tcp_retransmits (if_counters (ticks i ts ?n)) = k_tcp_retransmits (if_counters ?n) + (MAX_RETRIES - (r + 1))"
        "k_tcp_timeouts (if_counters (ticks i ts ?n)) = k_tcp_timeouts (if_counters ?n) + 1"
      using ih Cons.prems(3,4) r unfolding same by simp_all
    have "\<exists>d frames. if_device (ticks i (take (k + 1) (t # ts)) n) = if_device (ticks i (take k (t # ts)) n) @ frames \<and>
       resends c (if_address n) frames \<and> peek i (if_streams (ticks i (take (k + 1) (t # ts)) n)) = Some d \<and>
       \<not> c_reset d \<and> c_state d = Established" if "k < MAX_RETRIES - r" for k
    proof (cases k)
      case 0
      then show ?thesis using d(1,2,8,9) by (auto simp: retrying_def)
    next
      case (Suc j)
      then show ?thesis using later [rule_format, of j] that by simp
    qed
    then show ?thesis
      using last counts d(10,11) r by simp
  qed
qed simp


definition sending_example :: conn where
  "sending_example = (conn_new 7 Established 50000)\<lparr>c_remote := 0x0A000003, c_snd_una := 1, c_snd_nxt := 2,
     c_snd_wnd := 100, c_send := [9], c_retransmit_at := 300\<rparr>"

definition silent_example :: "u8 list list iface" where
  "silent_example = dgram_host\<lparr>if_streams := [Some sending_example]\<rparr>"


section \<open>Where a connection is left without a timer\<close>

text \<open>A connection with no timer set is left alone by every tick.\<close>

lemma no_timer_no_tick: "c_retransmit_at c = 0 \<Longrightarrow> tick_conn now c = (c, False, False, False)"
  by (simp add: tick_conn_def timed_out_def)

text \<open>
  An acknowledgement of part of what is in flight clears the timer, and nothing sets it again
  until more is sent: the rest, if it was lost, is never sent again.  (Two bytes in flight,
  the first acknowledged.)
\<close>

lemma partial_ack_clears_timer:
  fixes c :: conn
  assumes "c_state c = Established" and "\<not> c_fin_sent c" and "\<not> c_closing c" and "\<not> c_need_ack c"
    and "c_send c = [x, y]" and "c_snd_una c = 10" and "c_snd_nxt c = 12"
  shows "let d = acknowledge 11 c in c_send d = [y] \<and> in_flight d = 1 \<and> pump_choice d = None \<and>
    (\<forall>now. tick_conn now d = (d, False, False, False))"
proof -
  have "seq_after 11 10" by (simp add: seq_after_def seq_before_def)
  then have d: "acknowledge 11 c =
      c\<lparr>c_send := [y], c_snd_una := 11, c_retries := 0, c_rto_ms := RTO_MS, c_retransmit_at := 0\<rparr>"
    using assms by (simp add: acknowledge_def)
  show ?thesis
    using assms
    by (simp add: d settled_iff [symmetric] settled_def sendable_def in_flight_def owes_fin_def no_timer_no_tick)
qed

text \<open>
  A card that refuses the frame (\<^verbatim>\<open>Busy\<close>, say) leaves the connection exactly as it was: what the
  program has written lies in the buffer, and when no timer was running none is set.
\<close>

lemma refused_frame_forgotten:
  assumes "\<And>f d. fst (tx f d) = Some e" and "peek i (if_streams n) = Some c" and "can_send now (c_remote c) n"
    and "c_retransmit_at c = 0"
  shows "peek i (if_streams (tcp_pump tx now i n)) = Some c \<and> (\<forall>t. tick_conn t c = (c, False, False, False))"
proof -
  obtain hop where hop: "next_hop (c_remote c) n = Some hop"
    "hop_is_broadcast hop n \<or> arp_lookup (if_table n) hop now \<noteq> None"
    using assms(3) by (auto simp: can_send_def split: option.splits)
  obtain m where m: "(if hop_is_broadcast hop n then Some MAC_BROADCAST
      else arp_lookup (if_table n) hop now) = Some m"
    using hop(2) by (cases "hop_is_broadcast hop n") auto
  have tx: "\<exists>d'. tx f d = (Some e, d')" for f d
    using assms(1) [of f d] by (cases "tx f d") simp
  have refused: "\<exists>err n'. send_ipv4 tx now (c_remote c) p payload n = (Some err, n') \<and> err \<noteq> Pending \<and>
      if_streams n' = if_streams n" for p payload
  proof -
    let ?n = "n\<lparr>if_next_id := if_next_id n + 1\<rparr>"
    obtain d where "tx (ipv4_frame m (c_remote c) p payload (if_next_id n) ?n) (if_device n) = (Some e, d)"
      using tx by blast
    then have "card_send tx (ipv4_frame m (c_remote c) p payload (if_next_id n) ?n) ?n =
        (Some e, ?n\<lparr>if_device := d\<rparr>)"
      by (simp add: card_send_def)
    then show ?thesis
      using assms(3) hop(1) by (simp add: send_ipv4_def m can_send_def Let_def)
  qed
  have "\<exists>n'. pump_step tx now i n = (False, n') \<and> if_streams n' = if_streams n"
  proof (cases "c_reset c \<or> pump_choice c = None")
    case True
    then show ?thesis using assms(2) by (auto simp: pump_step_def)
  next
    case False
    then obtain fl ms len fin where ch: "pump_choice c = Some (fl, ms, len, fin)" "\<not> c_reset c"
      by (metis not_None_eq prod_cases4)
    obtain w b where w: "tcp_write (replicate (TCP_HEADER + 4 + MSS) 0) (if_address n) (c_remote c)
        (pump_segment fl ms len c) = (w, b)" by fastforce
    show ?thesis
      using refused [of PROTOCOL_TCP "take w b"] by (auto simp: pump_step_def assms(2) ch w Let_def)
  qed
  then obtain n' where "pump_step tx now i n = (False, n')" "if_streams n' = if_streams n" by blast
  then have "if_streams (tcp_pump tx now i n) = if_streams n"
    by (subst tcp_pump.simps) simp
  then show ?thesis
    using assms(2,4) by (simp add: no_timer_no_tick)
qed

text \<open>
  After a time-out has moved the next number back to the first unacknowledged one, an
  acknowledgement of what was sent before it moves the first unacknowledged number past the
  next: the difference wraps around and nothing the program writes is ever sendable, nor a
  \<open>FIN\<close>, and no timer runs.
\<close>

lemma late_ack_stalls:
  fixes c :: conn
  assumes "c_snd_una c = 10" and "c_snd_nxt c = 10" and "\<not> c_fin_sent c" and "c_send c = [x, y, z]"
    and "length bytes \<le> SEND_BUFFER"
  shows "let d = (acknowledge 13 c)\<lparr>c_send := bytes, c_snd_wnd := w, c_closing := b\<rparr> in
      sendable d = 0 \<and> \<not> owes_fin d \<and> (\<forall>now. tick_conn now d = (d, False, False, False))"
proof -
  have "seq_after 13 10" by (simp add: seq_after_def seq_before_def)
  then have d: "acknowledge 13 c =
      c\<lparr>c_send := [], c_snd_una := 13, c_retries := 0, c_rto_ms := RTO_MS, c_retransmit_at := 0\<rparr>"
    using assms by (simp add: acknowledge_def)
  show ?thesis
    using assms(1,2,5)
    by (simp add: d sendable_def SEND_BUFFER_def owes_fin_def in_flight_def no_timer_no_tick)
qed

text \<open>
  With the peer's window closed and data still in the buffer, a shutdown sends the \<open>FIN\<close> at
  once, in front of the data; after it no data is ever sent again.
\<close>

lemma fin_before_data:
  fixes c :: conn
  assumes "c_state c = Established" and "c_closing c" and "\<not> c_fin_sent c" and "c_send c \<noteq> []"
    and "c_snd_wnd c = 0" and "c_snd_nxt c = c_snd_una c"
  shows "pump_choice c = Some (ACK OR FIN, False, 0, True)"
    and "sendable ((pump_sent now (ACK OR FIN) 0 True c)\<lparr>c_snd_wnd := w\<rparr>) = 0"
    and "c_send (pump_sent now (ACK OR FIN) 0 True c) = c_send c"
proof -
  show "pump_choice c = Some (ACK OR FIN, False, 0, True)"
    using assms by (simp add: pump_choice.simps sendable_def owes_fin_def in_flight_def)
  have "c_state (pump_sent now (ACK OR FIN) 0 True c) = FinWait1"
    using assms(1) by (simp add: pump_sent_def)
  then show "sendable ((pump_sent now (ACK OR FIN) 0 True c)\<lparr>c_snd_wnd := w\<rparr>) = 0"
    by (simp add: sendable_def)
  show "c_send (pump_sent now (ACK OR FIN) 0 True c) = c_send c"
    by (simp add: pump_sent_def Let_def)
qed

text \<open>
  A peer that takes such a \<open>FIN\<close>, which stands at the number of the first queued byte, takes a
  delayed segment with the second byte as the next: it has the second byte without the first.
\<close>

lemma byte_lost_behind_fin:
  defines "peer \<equiv> (conn_new 7 Established 80)\<lparr>c_rcv_nxt := 10\<rparr>"
  defines "segment \<equiv> \<lambda>flags number data. \<lparr>sg_source_port = 50000, sg_destination_port = 80, sg_sequence = number,
    sg_acknowledgement = 0, sg_flags = flags, sg_window = 100, sg_mss = None, sg_payload = data\<rparr>"
  shows "c_recv (fst (segment_arrives now (segment ACK 11 [2]) (fst (segment_arrives now (segment (ACK OR FIN) 10 []) peer)))) = [2]"
  unfolding peer_def segment_def by code_simp

text \<open>
  While the neighbour does not answer, every tick starts the count of attempts anew: a
  connection whose first segment never left is never given up.
\<close>

lemma unanswered_arp_resets_retries:
  assumes "peek i (if_streams n) = Some c" and "timed_out t c" and "in_flight c = 0" and "\<not> c_reset c"
    and "c_state c \<noteq> TimeWait" and "pump_choice (disarm c) \<noteq> None"
    and "next_hop (c_remote c) n = Some hop" and "\<not> hop_is_broadcast hop n"
    and "arp_lookup (if_table n) hop t = None" and "\<not> is_unspecified (if_address n)"
  shows "\<exists>d. peek i (if_streams (tick_stream tx t i n)) = Some d \<and> \<not> c_reset d \<and> c_retries d = 0 \<and>
    c_retransmit_at d = t + 50 \<and> in_flight d = 0"
proof -
  have tick: "tick_conn t c = (disarm c, True, False, False)"
    using assms(2,3) by (simp add: tick_conn_def)
  have live: "\<not> stream_expired i t (if_streams n)"
    using assms(1,5) by (auto simp: stream_expired_def peek_def split: if_splits)
  define m where "m = change_stream i (\<lambda>c'. disarm c) n"
  have ts: "tick_stream tx t i n = tcp_pump tx t i m"
    using live assms(1) by (simp add: tick_stream_def tick m_def)
  have pm: "peek i (if_streams m) = Some (disarm c)" "\<not> c_reset (disarm c)" "c_remote (disarm c) = c_remote c"
    using assms(1,4) by (simp_all add: m_def) (simp_all add: disarm_def)
  have send: "send_ipv4 tx t (c_remote c) p payload m = (Some Pending, request_arp tx hop m)" for p payload
  proof -
    have "next_hop (c_remote c) m = next_hop (c_remote c) n" "hop_is_broadcast hop m = hop_is_broadcast hop n"
      "if_table m = if_table n" "if_address m = if_address n"
      by (simp_all add: m_def next_hop_def hop_is_broadcast_def)
    then show ?thesis
      using assms(7-10) by (simp add: send_ipv4_def)
  qed
  obtain fl ms len fin where ch: "pump_choice (disarm c) = Some (fl, ms, len, fin)"
    using assms(6) by (metis not_None_eq prod_cases4)
  obtain w b where w: "tcp_write (replicate (TCP_HEADER + 4 + MSS) 0) (if_address m) (c_remote c)
      (pump_segment fl ms len (disarm c)) = (w, b)" by fastforce
  have "pump_step tx t i m = (False, change_stream i (pump_pending t) (request_arp tx hop m))"
    by (simp add: pump_step_def pm ch w send)
  then have "tcp_pump tx t i m = change_stream i (pump_pending t) (request_arp tx hop m)"
    by (subst tcp_pump.simps) simp
  then have "peek i (if_streams (tick_stream tx t i n)) = Some (pump_pending t (disarm c))"
    by (simp add: ts pm(1))
  moreover have "c_retries (pump_pending t (disarm c)) = 0" "\<not> c_reset (pump_pending t (disarm c))"
    "c_retransmit_at (pump_pending t (disarm c)) = t + 50" "in_flight (pump_pending t (disarm c)) = 0"
    using assms(3,4) by (simp_all add: pump_pending_def arm_def disarm_def Let_def in_flight_def)
  ultimately show ?thesis by blast
qed

text \<open>A connection that has been given up is counted as given up again at every later tick.\<close>

lemma given_up_counted_again:
  assumes "peek i (if_streams n) = Some c" and "c_state c = Closed" and "timed_out t c"
    and "in_flight c \<noteq> 0" and "gave_up c" and "t \<le> u"
  shows "k_tcp_timeouts (if_counters (tick_stream tx u i (tick_stream tx t i n))) =
    k_tcp_timeouts (if_counters n) + 2"
proof -
  have one: "if_streams (tick_stream tx v i m) = change i (\<lambda>c. c\<lparr>c_reset := True, c_state := Closed\<rparr>) (change i (\<lambda>_. d) (if_streams m)) \<and>
      k_tcp_timeouts (if_counters (tick_stream tx v i m)) = k_tcp_timeouts (if_counters m) + 1"
    if "peek i (if_streams m) = Some d" "timed_out v d" "in_flight d \<noteq> 0" "gave_up d" "c_state d = Closed"
    for m :: "'a iface" and v d
  proof -
    have "\<not> stream_expired i v (if_streams m)"
      using that(1,5) by (auto simp: stream_expired_def peek_def split: if_splits)
    then show ?thesis
      using that by (simp add: tick_stream_def tick_conn_def)
  qed
  let ?m = "tick_stream tx t i n" and ?d = "c\<lparr>c_reset := True, c_state := Closed\<rparr>"
  have m: "peek i (if_streams ?m) = Some ?d"
    using one [OF assms(1,3,4,5,2)] assms(1) by simp
  have "timed_out u ?d" "in_flight ?d \<noteq> 0" "gave_up ?d"
    using assms(3-6) by (auto simp: timed_out_def in_flight_def gave_up_def)
  then show ?thesis
    using one [OF m] one [OF assms(1,3,4,5,2)] by simp
qed

section \<open>Slots and listeners\<close>

text \<open>
  A connection that its program has closed, and whose peer had closed first, ends in
  \<open>Closed\<close> when its \<open>FIN\<close> is acknowledged; when it was not born of a listener its slot stays
  taken, and no tick frees it.
\<close>

lemma closed_no_pump: "peek i (if_streams m) = Some d \<Longrightarrow> c_state d = Closed \<Longrightarrow> tcp_pump tx now i m = m"
  by (subst tcp_pump.simps) (simp add: pump_step_def pump_choice.simps)

lemma closed_client_keeps_slot:
  assumes "peek i (if_streams n) = Some c" and "c_state c = LastAck" and "c_listener c = None"
    and "c_fin_sent c" and "c_snd_nxt c = c_snd_una c + 1" and "\<not> c_reset c"
    and "seg_has sg ACK" and "\<not> seg_has sg RST" and "\<not> seg_has sg FIN" and "sg_payload sg = []"
    and "sg_acknowledgement sg = c_snd_nxt c"
  shows "\<exists>d. peek i (if_streams (tcp_known tx now source sg i n)) = Some d \<and> c_state d = Closed \<and>
    (\<forall>t m. peek i (if_streams m) = Some d \<longrightarrow> if_streams (tick_stream tx t i m) = if_streams m)"
proof -
  define e where "e = (case sg_mss sg of None \<Rightarrow> c\<lparr>c_snd_wnd := sg_window sg\<rparr>
    | Some k \<Rightarrow> c\<lparr>c_snd_wnd := sg_window sg, c_peer_mss := clamp_mss k\<rparr>)"
  have e: "c_state e = LastAck" "c_fin_sent e" "c_snd_nxt e = c_snd_una e + 1" "c_listener e = None"
    "c_snd_nxt e = c_snd_nxt c" "\<not> c_reset e" "c_snd_una e = c_snd_una c"
    using assms(2-6) by (auto simp: e_def split: option.split)
  have after: "seq_after (c_snd_una e + 1) (c_snd_una e)"
    using seq_after_offset [of 1 0 "c_snd_una e"] by simp
  define d where "d = fst (segment_arrives now sg c)"
  have "segment_arrives now sg c = (synchronized_segment now sg e, False, False)"
    using assms(2) by (simp add: segment_arrives_def Let_def e_def split: option.split)
  moreover have "synchronized_segment now sg e =
      (acknowledge (c_snd_una e + 1) e)\<lparr>c_state := Closed\<rparr>"
    using e(1-3) assms(7,9,10,11) e(5) after
    by (simp add: synchronized_segment_def accept_data_def close_state_def acknowledge_def Let_def)
  ultimately have arr: "segment_arrives now sg c = (d, False, False)"
    and d: "c_state d = Closed" "c_listener d = None" "c_retransmit_at d = 0"
    using after e(1,4) by (simp_all add: d_def acknowledge_def Let_def)
  let ?m = "change_stream i (\<lambda>c. fst (segment_arrives now sg c)) n"
  have m: "peek i (if_streams ?m) = Some d"
    using assms(1) by (simp add: d_def)
  have "tcp_pump tx now i ?m = ?m"
    using m d(1) by (rule closed_no_pump)
  then have known: "tcp_known tx now source sg i n = ?m"
    using assms(8) m d(2) by (simp add: tcp_known_def assms(1) arr Let_def)
  have "if_streams (tick_stream tx t i k) = if_streams k" if "peek i (if_streams k) = Some d" for t k
  proof -
    have "\<not> stream_expired i t (if_streams k)"
      using that d(1) by (auto simp: stream_expired_def peek_def split: if_splits)
    then show ?thesis
      using that by (auto simp: tick_stream_def no_timer_no_tick [OF d(3)] intro!: streams_eqI)
  qed
  then show ?thesis
    using m d(1) unfolding known by blast
qed

text \<open>
  Closing a listener leaves the connections it has begun pointing at its slot: once another
  task listens in that slot, a connection that then completes is handed to it, a connection of
  the first task, which the second cannot even look at.
\<close>

lemma stranger_gets_connection:
  fixes lc cc :: conn
  assumes "c_owner lc = 1" and "c_owner cc = 1" and "c_listener lc = None" and "c_listener cc = Some 0"
  defines "s0 \<equiv> [Some lc, Some cc]"
  defines "s1 \<equiv> snd (streams_open 2 (streams_close 0 s0))"
  defines "s2 \<equiv> snd (streams_listen 2 0 (snd (streams_bind 2 0 80 s1)))"
  shows "c_state cc \<noteq> Listen \<Longrightarrow> fst (streams_accept 2 0 (hand_to_listener 1 s2)) = Inr (Some 1) \<and>
    get_stream 2 1 (hand_to_listener 1 s2) = Inl BadStream"
proof -
  assume st: "c_state cc \<noteq> Listen"
  have s1: "s1 = [Some (conn_new 2 Closed 0), Some cc]"
    by (simp add: s1_def s0_def streams_open_def streams_close_def listener_of_def peek_def free_slot_def assms(3))
  have s2: "s2 = [Some ((conn_new 2 Closed 0)\<lparr>c_local_port := 80, c_state := Listen\<rparr>), Some cc]"
    using st
    by (simp add: s2_def s1 streams_bind_def streams_listen_def get_stream_def peek_def change_def conn_new_def
        enumerate_eq_zip)
  have "hand_to_listener 1 s2 =
      [Some ((conn_new 2 Closed 0)\<lparr>c_local_port := 80, c_state := Listen, c_backlog := [1]\<rparr>), Some cc]"
    by (simp add: s2 hand_to_listener_def listener_of_def peek_def change_def assms(4) conn_new_def)
  then show ?thesis
    by (simp add: streams_accept_def get_stream_def peek_def conn_new_def assms(2))
qed

text \<open>
  The limit of the queue of a listener counts only the connections that are complete: each of
  any number of begun ones may still join it.
\<close>

lemma backlog_limit_passed:
  assumes "peek l ss = Some lc" and "length (c_backlog lc) = BACKLOG" and "peek i ss = Some c"
    and "c_listener c = Some l" and "c_state c = SynReceived" and "i \<noteq> l"
  shows "\<exists>d. peek l (hand_to_listener i ss) = Some d \<and> BACKLOG < length (c_backlog d)"
  using assms by (simp add: hand_to_listener_def listener_of_def)

text \<open>Two tasks may bind one port before either listens, and then both listen on it.\<close>

lemma two_listeners_one_port:
  defines "s \<equiv> [Some (conn_new 1 Closed 0), Some (conn_new 2 Closed 0)]"
  defines "b \<equiv> snd (streams_bind 2 1 80 (snd (streams_bind 1 0 80 s)))"
  shows "fst (streams_bind 1 0 80 s) = Inr 80" and "fst (streams_bind 2 1 80 (snd (streams_bind 1 0 80 s))) = Inr 80"
    and "fst (streams_listen 1 0 b) = None" and "fst (streams_listen 2 1 (snd (streams_listen 1 0 b))) = None"
  by (simp_all add: s_def b_def streams_bind_def streams_listen_def get_stream_def peek_def change_def
      conn_new_def enumerate_eq_zip)

end
