(* ===== verification/Sched.thy ===== *)
theory Sched
  imports Prelude
begin

text \<open>
  The task scheduler: \<^verbatim>\<open>sched/task.rs\<close> (states of a task, what it waits for, its stack with the
  guard band) and \<^verbatim>\<open>sched/mod.rs\<close> (the table of tasks, the choice of the next one, blocking and
  waking, the accounting of the time slice, starting and ending tasks).  Everything here runs
  under the scheduler's lock, so each definition is one atomic step; what happens between two of
  them on several processors is modelled in the theory of the machine.

  A number of a processor, which the code asks of the hardware, is an argument; so are the clock
  and the answers of the heap.  \<open>'r\<close> stands for the contents of a register file: the scheduler
  only stores and loads it.
\<close>

section \<open>Tasks\<close>

definition STACK_PAGE :: nat where "STACK_PAGE = 4096"
definition TASK_STACK_SIZE :: nat where "TASK_STACK_SIZE = 64 * 1024"
definition STACK_GUARD_SIZE :: nat where "STACK_GUARD_SIZE = STACK_PAGE"
definition STACK_ALIGN :: nat where "STACK_ALIGN = 16"
definition GUARD_PATTERN :: u64 where "GUARD_PATTERN = 0x5461736B47756172"
definition GUARD_LOW_PROBES :: nat where "GUARD_LOW_PROBES = 8"
definition GUARD_HIGH_PROBES :: nat where "GUARD_HIGH_PROBES = 32"

type_synonym tid = u32

definition TASK_IDLE :: tid where "TASK_IDLE = 0"

datatype wait =
    Until nat
  | WaitTask tid
  | InputUntil nat
  | Irq u32
  | IrqUntil u32 nat
  | LockAt nat
  | Futex nat
  | FutexUntil nat nat

datatype task_state = Ready | Running | Blocked wait | Finished

fun task_state_text :: "task_state \<Rightarrow> string" where
  "task_state_text Ready = ''ready''"
| "task_state_text Running = ''running''"
| "task_state_text (Blocked w) = ''blocked''"
| "task_state_text Finished = ''finished''"

fun waited_thing :: "task_state \<Rightarrow> (string \<times> nat) option" where
  "waited_thing (Blocked (Until at)) = Some (''sleeping until uptime ms'', at)"
| "waited_thing (Blocked (WaitTask i)) = Some (''waiting for task #'', unat i)"
| "waited_thing (Blocked (InputUntil at)) = Some (''waiting for input until uptime ms'', at)"
| "waited_thing (Blocked (Futex key)) = Some (''waiting on an address, key'', key)"
| "waited_thing (Blocked (FutexUntil key at)) = Some (''waiting on an address, key'', key)"
| "waited_thing (Blocked (Irq source)) = Some (''waiting for device'', unat source)"
| "waited_thing (Blocked (IrqUntil source at)) = Some (''waiting for device (with a deadline)'', unat source)"
| "waited_thing (Blocked (LockAt address)) = Some (''waiting for a lock at'', address)"
| "waited_thing st = None"

datatype spawn_error = OutOfMemory | TooManyTasks

fun spawn_error_text :: "spawn_error \<Rightarrow> string" where
  "spawn_error_text OutOfMemory = ''kernel heap exhausted''"
| "spawn_error_text TooManyTasks = ''task table is full''"

subsection \<open>The stack and its guard band\<close>

text \<open>The words of the guard band are the memory at the bottom of the block.\<close>

record stack =
  sk_base :: nat
  sk_size :: nat
  sk_guard :: "u64 list"

definition guard_words :: nat where "guard_words = STACK_GUARD_SIZE div 8"

definition guard_word :: "nat \<Rightarrow> u64" where "guard_word i = GUARD_PATTERN XOR of_nat i"

definition paint_guard :: "u64 list" where "paint_guard = map guard_word [0..<guard_words]"

text \<open>\<^verbatim>\<open>Layout::from_size_align\<close> refuses what would overflow when rounded up to the alignment.\<close>

definition layout_ok :: "nat \<Rightarrow> nat \<Rightarrow> bool" where
  "layout_ok bytes align \<longleftrightarrow> bytes \<le> 2 ^ 63 - align"

definition stack_allocate :: "nat \<Rightarrow> nat option \<Rightarrow> stack option" where
  "stack_allocate usable heap =
     (case checked_add64 STACK_GUARD_SIZE usable of
        None \<Rightarrow> None
      | Some all \<Rightarrow>
          if \<not> layout_ok all STACK_ALIGN then None
          else map_option (\<lambda>raw. \<lparr>sk_base = raw, sk_size = all, sk_guard = paint_guard\<rparr>) heap)"

definition stack_top :: "stack \<Rightarrow> nat" where "stack_top k = sk_base k + sk_size k"

definition usable_size :: "stack \<Rightarrow> nat" where "usable_size k = sk_size k - STACK_GUARD_SIZE"

definition guard_intact :: "stack \<Rightarrow> bool" where
  "guard_intact k \<longleftrightarrow>
     (let probe = (\<lambda>i. sk_guard k ! i = guard_word i);
          high_from = guard_words - GUARD_HIGH_PROBES
      in list_all probe [0..<min GUARD_LOW_PROBES guard_words] \<and> list_all probe [high_from..<guard_words])"

subsection \<open>The task\<close>

record user_machine =
  um_space_root :: "nat option"
  um_return_stack :: nat

definition user_default :: user_machine where
  "user_default = \<lparr>um_space_root = None, um_return_stack = 0\<rparr>"

record 'r task =
  ta_id :: tid
  ta_name :: string
  ta_state :: task_state
  ta_tls :: u64
  ta_switches :: nat
  ta_preempted :: nat
  ta_cpu_ms :: nat
  ta_ran_since_ms :: nat
  ta_woken_by_irq_ms :: nat
  ta_longest_irq_wait_ms :: nat
  ta_boost :: bool
  ta_context :: "'r option"
  ta_stack :: "stack option"
  ta_fpu :: "'r option"
  ta_user :: user_machine
  ta_result :: int
  ta_daemon :: bool
  ta_cpu :: "nat option"
  ta_entry :: "nat option"
  ta_arg :: nat

definition task_idle :: "nat \<Rightarrow> 'r task" where
  "task_idle cpu =
     \<lparr>ta_id = TASK_IDLE, ta_name = ''idle'', ta_state = Running, ta_tls = 0, ta_switches = 0,
      ta_preempted = 0, ta_cpu_ms = 0, ta_ran_since_ms = 0, ta_woken_by_irq_ms = 0,
      ta_longest_irq_wait_ms = 0, ta_boost = False, ta_context = None, ta_stack = None, ta_fpu = None,
      ta_user = user_default, ta_result = 0, ta_daemon = False, ta_cpu = Some cpu, ta_entry = None,
      ta_arg = 0\<rparr>"

text \<open>
  \<open>context\<close> is the context that leads to the entry point on the new stack, and \<open>fpu\<close> the freshly
  initialised area for vector registers, when the heap had room for one.
\<close>

definition task_new :: "tid \<Rightarrow> string \<Rightarrow> stack \<Rightarrow> 'r \<Rightarrow> 'r option \<Rightarrow> 'r task" where
  "task_new ident name stk ctx fpu =
     \<lparr>ta_id = ident, ta_name = name, ta_state = Ready, ta_tls = 0, ta_switches = 0,
      ta_preempted = 0, ta_cpu_ms = 0, ta_ran_since_ms = 0, ta_woken_by_irq_ms = 0,
      ta_longest_irq_wait_ms = 0, ta_boost = False, ta_context = Some ctx, ta_stack = Some stk,
      ta_fpu = fpu, ta_user = user_default, ta_result = 0, ta_daemon = False, ta_cpu = None,
      ta_entry = None, ta_arg = 0\<rparr>"

section \<open>The scheduler\<close>

definition MAX_CPUS :: nat where "MAX_CPUS = 8"
definition MAX_TASKS :: nat where "MAX_TASKS = 256 + MAX_CPUS"
definition MAX_SESSIONS :: nat where "MAX_SESSIONS = 8"
definition SLICE_TICKS :: nat where "SLICE_TICKS = 10"
definition TIMER_HZ :: nat where "TIMER_HZ = 1000"
definition SLICE_MS :: nat where "SLICE_MS = SLICE_TICKS * 1000 div TIMER_HZ"

datatype cause = Voluntary | Preempted

record cpu =
  cp_current :: nat
  cp_previous :: "nat option"
  cp_switches :: nat
  cp_forced :: nat

text \<open>
  \<^verbatim>\<open>Scheduler\<close>, and the atomics beside it: the sessions of the slots, whether preemption is on,
  and for every processor its flag, what is left of its slice, its idle ticks and whether it idles.
\<close>

record 'r sched =
  se_tasks :: "'r task option list"
  se_cpus :: "cpu list"
  se_next_id :: tid
  se_running :: bool
  se_ticking :: bool
  se_session :: "nat list"
  se_preemption :: bool
  se_need_resched :: "bool list"
  se_slice_left :: "nat list"
  se_idle_ticks :: "nat list"
  se_on_idle :: "bool list"

definition sched_new :: "'r sched" where
  "sched_new =
     \<lparr>se_tasks = replicate MAX_TASKS None,
      se_cpus = map (\<lambda>i. \<lparr>cp_current = i, cp_previous = None, cp_switches = 0, cp_forced = 0\<rparr>) [0..<MAX_CPUS],
      se_next_id = 1, se_running = False, se_ticking = False, se_session = replicate MAX_TASKS 0,
      se_preemption = False, se_need_resched = replicate MAX_CPUS False,
      se_slice_left = replicate MAX_CPUS SLICE_TICKS, se_idle_ticks = replicate MAX_CPUS 0,
      se_on_idle = replicate MAX_CPUS True\<rparr>"

definition is_idle_slot :: "nat \<Rightarrow> bool" where
  "is_idle_slot slot \<longleftrightarrow> slot < MAX_CPUS"

definition task_at :: "nat \<Rightarrow> 'r sched \<Rightarrow> 'r task option" where
  "task_at slot s = (if slot < length (se_tasks s) then se_tasks s ! slot else None)"

definition change_task :: "nat \<Rightarrow> ('r task \<Rightarrow> 'r task) \<Rightarrow> 'r sched \<Rightarrow> 'r sched" where
  "change_task slot f s = s\<lparr>se_tasks := (se_tasks s)[slot := map_option f (task_at slot s)]\<rparr>"

definition change_tasks :: "('r task \<Rightarrow> 'r task) \<Rightarrow> 'r sched \<Rightarrow> 'r sched" where
  "change_tasks f s = s\<lparr>se_tasks := map (map_option f) (se_tasks s)\<rparr>"

definition current_on :: "nat \<Rightarrow> 'r sched \<Rightarrow> nat" where
  "current_on c s = cp_current (se_cpus s ! c)"

text \<open>A task that \<^verbatim>\<open>iter().flatten().find(..)\<close> finds, by number; the idle tasks have number 0.\<close>

definition find_task :: "tid \<Rightarrow> 'r sched \<Rightarrow> nat option" where
  "find_task ident s = position (\<lambda>e. case e of None \<Rightarrow> False | Some t \<Rightarrow> ta_id t = ident) (se_tasks s)"

text \<open>The same among the slots that are not idle tasks'.\<close>

definition find_plain :: "tid \<Rightarrow> 'r sched \<Rightarrow> nat option" where
  "find_plain ident s =
     find_range (\<lambda>slot. case task_at slot s of None \<Rightarrow> False | Some t \<Rightarrow> ta_id t = ident)
       MAX_CPUS (length (se_tasks s))"

subsection \<open>Which slot, and which task\<close>

definition retired :: "'r task \<Rightarrow> bool" where
  "retired t \<longleftrightarrow> ta_state t = Finished \<and> ta_cpu t = None"

definition free_task_slot :: "'r sched \<Rightarrow> nat option" where
  "free_task_slot s =
     (case find_range (\<lambda>i. task_at i s = None) MAX_CPUS MAX_TASKS of
        Some i \<Rightarrow> Some i
      | None \<Rightarrow>
          min_by_key (\<lambda>i. case task_at i s of None \<Rightarrow> 0xFFFFFFFF | Some t \<Rightarrow> ta_id t)
            (filter (\<lambda>i. case task_at i s of None \<Rightarrow> False | Some t \<Rightarrow> retired t) [MAX_CPUS..<MAX_TASKS]))"

text \<open>The slots after \<open>slot\<close>, around the table, without \<open>slot\<close> itself.\<close>

definition ring_after :: "nat \<Rightarrow> nat list" where
  "ring_after slot = map (\<lambda>step. (slot + step) mod MAX_TASKS) [1..<MAX_TASKS]"

definition can_run :: "'r task \<Rightarrow> bool" where
  "can_run t \<longleftrightarrow> ta_state t = Ready \<and> ta_cpu t = None"

definition takes :: "('r task \<Rightarrow> bool) \<Rightarrow> 'r sched \<Rightarrow> nat \<Rightarrow> bool" where
  "takes p s slot \<longleftrightarrow>
     \<not> is_idle_slot slot \<and> (case task_at slot s of None \<Rightarrow> False | Some t \<Rightarrow> p t)"

definition pick_next :: "nat \<Rightarrow> 'r sched \<Rightarrow> nat option" where
  "pick_next c s =
     (let current = current_on c s in
      case find (takes (\<lambda>t. ta_boost t \<and> can_run t) s) (ring_after current) of
        Some slot \<Rightarrow> Some slot
      | None \<Rightarrow>
          (case find (takes can_run s) (ring_after current) of
             Some slot \<Rightarrow> Some slot
           | None \<Rightarrow>
               if is_idle_slot current then None
               else
                 (case map_option ta_state (task_at current s) of
                    Some Running \<Rightarrow> None
                  | Some Ready \<Rightarrow> None
                  | _ \<Rightarrow> Some c)))"

subsection \<open>Waking\<close>

fun deadline :: "task_state \<Rightarrow> nat option" where
  "deadline (Blocked (Until at)) = Some at"
| "deadline (Blocked (InputUntil at)) = Some at"
| "deadline (Blocked (IrqUntil source at)) = Some at"
| "deadline (Blocked (FutexUntil key at)) = Some at"
| "deadline st = None"

definition due :: "nat \<Rightarrow> 'r task \<Rightarrow> bool" where
  "due now t \<longleftrightarrow> (case deadline (ta_state t) of None \<Rightarrow> False | Some at \<Rightarrow> at \<le> now)"

definition wake_when :: "('r task \<Rightarrow> bool) \<Rightarrow> 'r task \<Rightarrow> 'r task" where
  "wake_when p t = (if p t then t\<lparr>ta_state := Ready\<rparr> else t)"

definition wake_expired :: "nat \<Rightarrow> 'r sched \<Rightarrow> bool \<times> 'r sched" where
  "wake_expired now s =
     (list_ex (\<lambda>e. case e of None \<Rightarrow> False | Some t \<Rightarrow> due now t) (se_tasks s),
      change_tasks (wake_when (due now)) s)"

definition waits_for :: "wait \<Rightarrow> 'r task \<Rightarrow> bool" where
  "waits_for w t \<longleftrightarrow> ta_state t = Blocked w"

definition wake_waiters :: "tid \<Rightarrow> 'r sched \<Rightarrow> 'r sched" where
  "wake_waiters ident = change_tasks (wake_when (waits_for (WaitTask ident)))"

fun awaits_irq :: "u32 \<Rightarrow> task_state \<Rightarrow> bool" where
  "awaits_irq source (Blocked (Irq waited)) = (waited = source)"
| "awaits_irq source (Blocked (IrqUntil waited at)) = (waited = source)"
| "awaits_irq source st = False"

definition irq_woken :: "u32 \<Rightarrow> nat \<Rightarrow> 'r task \<Rightarrow> 'r task" where
  "irq_woken source now t =
     (if awaits_irq source (ta_state t)
      then t\<lparr>ta_state := Ready, ta_woken_by_irq_ms := max now 1, ta_boost := True\<rparr> else t)"

definition wake_irq :: "u32 \<Rightarrow> nat \<Rightarrow> 'r sched \<Rightarrow> 'r sched" where
  "wake_irq source now = change_tasks (irq_woken source now)"

definition wake_lock :: "nat \<Rightarrow> 'r sched \<Rightarrow> 'r sched" where
  "wake_lock address = change_tasks (wake_when (waits_for (LockAt address)))"

fun awaits_futex :: "nat \<Rightarrow> task_state \<Rightarrow> bool" where
  "awaits_futex key (Blocked (Futex waited)) = (waited = key)"
| "awaits_futex key (Blocked (FutexUntil waited at)) = (waited = key)"
| "awaits_futex key st = False"

text \<open>The loop of \<^verbatim>\<open>wake_futex\<close>: \<open>limit\<close> tasks at most, or all of them when it is 0.\<close>

fun wake_futex_loop :: "nat \<Rightarrow> nat \<Rightarrow> nat \<Rightarrow> 'r task option list \<Rightarrow> nat \<times> 'r task option list" where
  "wake_futex_loop key limit woken [] = (woken, [])"
| "wake_futex_loop key limit woken (e # es) =
     (case e of
        None \<Rightarrow> (case wake_futex_loop key limit woken es of (w, es) \<Rightarrow> (w, None # es))
      | Some t \<Rightarrow>
          if limit \<noteq> 0 \<and> limit \<le> woken then (woken, e # es)
          else if awaits_futex key (ta_state t)
          then (case wake_futex_loop key limit (woken + 1) es of
                  (w, es) \<Rightarrow> (w, Some (t\<lparr>ta_state := Ready\<rparr>) # es))
          else (case wake_futex_loop key limit woken es of (w, es) \<Rightarrow> (w, e # es)))"

definition wake_futex :: "nat \<Rightarrow> nat \<Rightarrow> 'r sched \<Rightarrow> nat \<times> 'r sched" where
  "wake_futex key limit s =
     (case wake_futex_loop key limit 0 (se_tasks s) of (w, ts) \<Rightarrow> (w, s\<lparr>se_tasks := ts\<rparr>))"

definition ask_reschedule :: "'r sched \<Rightarrow> 'r sched" where
  "ask_reschedule s =
     (if se_preemption s then s\<lparr>se_need_resched := map (\<lambda>_. True) (se_need_resched s)\<rparr> else s)"

fun awaits_input :: "task_state \<Rightarrow> bool" where
  "awaits_input (Blocked (InputUntil at)) = True"
| "awaits_input st = False"

definition input_woken :: "'r task \<Rightarrow> 'r task" where
  "input_woken t = (if awaits_input (ta_state t) then t\<lparr>ta_state := Ready, ta_boost := True\<rparr> else t)"

text \<open>\<open>locked\<close> is whether \<^verbatim>\<open>try_lock\<close> got the lock.\<close>

definition wake_input :: "bool \<Rightarrow> 'r sched \<Rightarrow> 'r sched" where
  "wake_input locked s =
     (if \<not> locked then s
      else
        let woke = list_ex (\<lambda>e. case e of None \<Rightarrow> False | Some t \<Rightarrow> awaits_input (ta_state t)) (se_tasks s);
            s = change_tasks input_woken s
        in if woke then ask_reschedule s else s)"

definition is_blocked :: "task_state \<Rightarrow> bool" where
  "is_blocked st = (case st of Blocked w \<Rightarrow> True | _ \<Rightarrow> False)"

definition wake_task :: "bool \<Rightarrow> tid \<Rightarrow> 'r sched \<Rightarrow> 'r sched" where
  "wake_task locked ident s =
     (if \<not> locked then s
      else
        (case find_plain ident s of
           None \<Rightarrow> s
         | Some slot \<Rightarrow> change_task slot (wake_when (\<lambda>t. is_blocked (ta_state t))) s))"

subsection \<open>Blocking\<close>

text \<open>
  The part of every \<^verbatim>\<open>block_on_..\<close> that runs under the lock.  \<open>ready\<close> is what the condition answered
  there; the first component says whether the caller goes on to \<^verbatim>\<open>schedule\<close>.
\<close>

definition block_current :: "nat \<Rightarrow> wait \<Rightarrow> 'r sched \<Rightarrow> 'r sched" where
  "block_current c w s = change_task (current_on c s) (\<lambda>t. t\<lparr>ta_state := Blocked w\<rparr>) s"

definition block_on :: "nat \<Rightarrow> wait \<Rightarrow> bool \<Rightarrow> 'r sched \<Rightarrow> bool \<times> 'r sched" where
  "block_on c w ready s =
     (if \<not> se_running s \<or> ready then (False, s) else (True, block_current c w s))"

definition sleep_until :: "nat \<Rightarrow> nat \<Rightarrow> 'r sched \<Rightarrow> bool \<times> 'r sched" where
  "sleep_until c at_ms s =
     (if \<not> se_running s then (False, s) else (True, block_current c (Until at_ms) s))"

definition sleep_ms :: "nat \<Rightarrow> nat \<Rightarrow> nat \<Rightarrow> 'r sched \<Rightarrow> bool \<times> 'r sched" where
  "sleep_ms c ms now s =
     (if ms = 0 then (False, s) else sleep_until c (saturating_add64 now (max ms 1)) s)"

definition block_on_input :: "nat \<Rightarrow> nat \<Rightarrow> bool \<Rightarrow> 'r sched \<Rightarrow> bool \<times> 'r sched" where
  "block_on_input c until changed = block_on c (InputUntil until) changed"

definition block_on_lock :: "nat \<Rightarrow> nat \<Rightarrow> bool \<Rightarrow> 'r sched \<Rightarrow> bool \<times> 'r sched" where
  "block_on_lock c address is_free = block_on c (LockAt address) is_free"

definition block_on_irq_until :: "nat \<Rightarrow> u32 \<Rightarrow> nat \<Rightarrow> nat \<Rightarrow> bool \<Rightarrow> 'r sched \<Rightarrow> bool \<times> 'r sched" where
  "block_on_irq_until c source ms now ready =
     block_on c (IrqUntil source (saturating_add64 now (max ms 1))) ready"

definition block_on_irq :: "nat \<Rightarrow> u32 \<Rightarrow> bool \<Rightarrow> 'r sched \<Rightarrow> bool \<times> 'r sched" where
  "block_on_irq c source ready = block_on c (Irq source) ready"

definition block_on_futex :: "nat \<Rightarrow> nat \<Rightarrow> nat option \<Rightarrow> bool \<Rightarrow> 'r sched \<Rightarrow> bool \<times> 'r sched" where
  "block_on_futex c key until ready =
     block_on c (case until of Some at \<Rightarrow> FutexUntil key at | None \<Rightarrow> Futex key) ready"

text \<open>One turn of the loop of \<^verbatim>\<open>wait\<close>: an answer, or the caller blocks and schedules.\<close>

definition wait_turn :: "nat \<Rightarrow> tid \<Rightarrow> 'r sched \<Rightarrow> int option option \<times> 'r sched" where
  "wait_turn c ident s =
     (case find_plain ident s of
        None \<Rightarrow> (Some None, s)
      | Some slot \<Rightarrow>
          (case task_at slot s of
             None \<Rightarrow> (Some None, s)
           | Some t \<Rightarrow>
               if ta_state t = Finished then (Some (Some (ta_result t)), s)
               else (None, block_current c (WaitTask ident) s)))"

subsection \<open>Cleaning up\<close>

definition reapable :: "'r task \<Rightarrow> bool" where
  "reapable t \<longleftrightarrow> retired t \<and> ta_stack t \<noteq> None"

definition reap_entry :: "nat \<Rightarrow> 'r task option \<Rightarrow> 'r task option" where
  "reap_entry slot e =
     (if is_idle_slot slot then e
      else map_option (\<lambda>t. if reapable t then t\<lparr>ta_stack := None\<rparr> else t) e)"

definition reap :: "'r sched \<Rightarrow> nat \<times> 'r sched" where
  "reap s =
     (length (filter (\<lambda>(slot, e). \<not> is_idle_slot slot \<and> (case e of None \<Rightarrow> False | Some t \<Rightarrow> reapable t))
        (enumerate 0 (se_tasks s))),
      s\<lparr>se_tasks := map (\<lambda>(slot, e). reap_entry slot e) (enumerate 0 (se_tasks s))\<rparr>)"

definition alive :: "'r sched \<Rightarrow> nat" where
  "alive s = length (filter (\<lambda>(slot, e). \<not> is_idle_slot slot \<and>
     (case e of None \<Rightarrow> False | Some t \<Rightarrow> \<not> ta_daemon t \<and> ta_state t \<noteq> Finished)) (enumerate 0 (se_tasks s)))"

definition change_cpu :: "nat \<Rightarrow> (cpu \<Rightarrow> cpu) \<Rightarrow> 'r sched \<Rightarrow> 'r sched" where
  "change_cpu c f s = s\<lparr>se_cpus := (se_cpus s)[c := f (se_cpus s ! c)]\<rparr>"

definition finish_switch :: "nat \<Rightarrow> 'r sched \<Rightarrow> 'r sched" where
  "finish_switch c s =
     (case cp_previous (se_cpus s ! c) of
        None \<Rightarrow> s
      | Some previous \<Rightarrow>
          change_task previous (\<lambda>t. t\<lparr>ta_cpu := None\<rparr>) (change_cpu c (\<lambda>p. p\<lparr>cp_previous := None\<rparr>) s))"

definition switches_all :: "'r sched \<Rightarrow> nat" where
  "switches_all s = sum_list (map cp_switches (se_cpus s))"

definition forced_all :: "'r sched \<Rightarrow> nat" where
  "forced_all s = sum_list (map cp_forced (se_cpus s))"

subsection \<open>Switching\<close>

text \<open>
  What a processor holds: its general and vector registers, the stack traps go to, the root of
  the page tables (\<open>None\<close> for the kernel's own) and the base of thread-local storage.
\<close>

record 'r core =
  co_regs :: 'r
  co_vectors :: 'r
  co_trap_stack :: nat
  co_space :: "nat option"
  co_tls :: u64

datatype decision = Stay | Switch nat nat u64 | Overflow string tid

definition switch_out :: "cause \<Rightarrow> nat \<Rightarrow> 'r task \<Rightarrow> 'r task" where
  "switch_out why now t =
     (let t = (if ta_state t = Running then t\<lparr>ta_state := Ready\<rparr> else t);
          t = (if ta_ran_since_ms t \<noteq> 0
               then t\<lparr>ta_cpu_ms := ta_cpu_ms t + (now - ta_ran_since_ms t), ta_ran_since_ms := 0\<rparr> else t)
      in if why = Preempted then t\<lparr>ta_preempted := ta_preempted t + 1\<rparr> else t)"

definition switch_in :: "nat \<Rightarrow> nat \<Rightarrow> 'r task \<Rightarrow> 'r task" where
  "switch_in c now t =
     (let t = t\<lparr>ta_state := Running, ta_cpu := Some c, ta_switches := ta_switches t + 1,
                ta_boost := False, ta_ran_since_ms := now\<rparr>
      in if ta_woken_by_irq_ms t \<noteq> 0
         then t\<lparr>ta_longest_irq_wait_ms := max (ta_longest_irq_wait_ms t) (now - ta_woken_by_irq_ms t),
                ta_woken_by_irq_ms := 0\<rparr>
         else t)"

text \<open>The vector registers of the task that leaves are saved if it has an area for them.\<close>

definition save_vectors :: "'r \<Rightarrow> 'r task \<Rightarrow> 'r task" where
  "save_vectors v t = (if ta_fpu t = None then t else t\<lparr>ta_fpu := Some v\<rparr>)"

text \<open>What the processor is given for the task that comes, still under the lock.\<close>

definition load_machine :: "'r task \<Rightarrow> 'r core \<Rightarrow> 'r core" where
  "load_machine t co =
     co\<lparr>co_trap_stack := um_return_stack (ta_user t), co_space := um_space_root (ta_user t),
        co_vectors := (case ta_fpu t of None \<Rightarrow> co_vectors co | Some v \<Rightarrow> v)\<rparr>"

definition commit_switch :: "cause \<Rightarrow> nat \<Rightarrow> nat \<Rightarrow> nat \<Rightarrow> nat \<Rightarrow> 'r \<Rightarrow> 'r sched \<Rightarrow> 'r sched" where
  "commit_switch why c now current nxt v s =
     (let s = change_task current (\<lambda>t. switch_out why now (save_vectors v t)) s;
          s = change_task nxt (switch_in c now) s;
          s = change_cpu c (\<lambda>p. p\<lparr>cp_previous := Some current, cp_current := nxt,
                cp_switches := cp_switches p + 1,
                cp_forced := (if why = Preempted then cp_forced p + 1 else cp_forced p)\<rparr>) s
      in s\<lparr>se_slice_left := (se_slice_left s)[c := SLICE_TICKS],
           se_on_idle := (se_on_idle s)[c := is_idle_slot nxt]\<rparr>)"

definition stay_on :: "nat \<Rightarrow> 'r sched \<Rightarrow> 'r sched" where
  "stay_on current s =
     (if is_idle_slot current then s
      else change_task current (\<lambda>t. if ta_state t = Ready then t\<lparr>ta_state := Running\<rparr> else t) s)"

text \<open>
  \<^verbatim>\<open>schedule_with\<close> up to the point where the lock is released.  \<open>now\<close> is the clock when the
  deadlines are looked at, \<open>later\<close> when the time on the processor is accounted.
\<close>

definition schedule_with :: "cause \<Rightarrow> nat \<Rightarrow> nat \<Rightarrow> nat \<Rightarrow> 'r core \<Rightarrow> 'r sched \<Rightarrow> decision \<times> 'r core \<times> 'r sched" where
  "schedule_with why c now later co s =
     (if \<not> se_running s then (Stay, co, s)
      else
        let s = snd (reap s);
            s = snd (wake_expired now s);
            current = current_on c s
        in case pick_next c s of
             None \<Rightarrow> (Stay, co, stay_on current s)
           | Some nxt \<Rightarrow>
               (case task_at current s of
                  None \<Rightarrow> (Stay, co, s)
                | Some source \<Rightarrow>
                    if (case ta_stack source of None \<Rightarrow> False | Some k \<Rightarrow> \<not> guard_intact k)
                    then (Overflow (ta_name source) (ta_id source), co, s)
                    else
                      (case task_at nxt s of
                         None \<Rightarrow> (Stay, co, s)
                       | Some target \<Rightarrow>
                           (Switch current nxt (ta_tls target), load_machine target co,
                            commit_switch why c later current nxt (co_vectors co) s))))"

text \<open>
  After the lock: the base of thread-local storage, and \<^verbatim>\<open>switch_context\<close>.  Loading a context that
  was never saved is undefined behaviour; that it does not happen is proved.
\<close>

definition swap_context :: "nat \<Rightarrow> nat \<Rightarrow> u64 \<Rightarrow> 'r core \<Rightarrow> 'r sched \<Rightarrow> ('r core \<times> 'r sched) option" where
  "swap_context from to tls co s =
     (case Option.bind (task_at to s) ta_context of
        None \<Rightarrow> None
      | Some regs \<Rightarrow>
          Some (co\<lparr>co_tls := tls, co_regs := regs\<rparr>,
                change_task from (\<lambda>t. t\<lparr>ta_context := Some (co_regs co)\<rparr>) s))"

text \<open>The first thing on a new stack; without an entry point the machine halts.\<close>

definition task_start :: "nat \<Rightarrow> nat \<Rightarrow> 'r sched \<Rightarrow> (nat \<times> nat) option \<times> 'r sched" where
  "task_start c slot s =
     (let s = finish_switch c s in
      (Option.bind (task_at slot s) (\<lambda>t. map_option (\<lambda>entry. (entry, ta_arg t)) (ta_entry t)), s))"

subsection \<open>The time slice\<close>

definition on_timer_tick :: "nat \<Rightarrow> 'r sched \<Rightarrow> 'r sched" where
  "on_timer_tick c s =
     (if \<not> se_ticking s then s
      else
        let s = (if se_on_idle s ! c then s\<lparr>se_idle_ticks := (se_idle_ticks s)[c := se_idle_ticks s ! c + 1]\<rparr> else s);
            left = se_slice_left s ! c - 1
        in if left = 0
           then s\<lparr>se_slice_left := (se_slice_left s)[c := SLICE_TICKS],
                  se_need_resched := (se_need_resched s)[c := True]\<rparr>
           else s\<lparr>se_slice_left := (se_slice_left s)[c := left]\<rparr>)"

text \<open>Whether \<^verbatim>\<open>preempt_point\<close> goes on to switch.\<close>

definition preempt_point :: "nat \<Rightarrow> 'r sched \<Rightarrow> bool \<times> 'r sched" where
  "preempt_point c s =
     (if \<not> se_preemption s then (False, s)
      else (se_need_resched s ! c, s\<lparr>se_need_resched := (se_need_resched s)[c := False]\<rparr>))"

definition set_preemption :: "bool \<Rightarrow> 'r sched \<Rightarrow> 'r sched" where
  "set_preemption enabled s =
     (let s = s\<lparr>se_preemption := enabled\<rparr> in
      if enabled then s else s\<lparr>se_need_resched := map (\<lambda>_. False) (se_need_resched s)\<rparr>)"

subsection \<open>Beginning and end of a task\<close>

text \<open>
  \<open>heap\<close> answers the allocation of the stack, \<open>boxed\<close> that of the task, \<open>fpu\<close> the area for vector
  registers; \<open>mk_context\<close> is \<^verbatim>\<open>Context::new\<close>, of the top of the stack and the argument.
\<close>

definition spawn_raw ::
  "nat \<Rightarrow> string \<Rightarrow> nat \<Rightarrow> nat \<Rightarrow> nat \<Rightarrow> nat option \<Rightarrow> bool \<Rightarrow> 'r option \<Rightarrow> (nat \<Rightarrow> nat \<Rightarrow> 'r) \<Rightarrow> 'r sched \<Rightarrow>
   (spawn_error + tid) \<times> 'r sched" where
  "spawn_raw c name stack_bytes entry arg heap boxed fpu mk_context s =
     (case stack_allocate stack_bytes heap of
        None \<Rightarrow> (Inl OutOfMemory, s)
      | Some stk \<Rightarrow>
          (case free_task_slot s of
             None \<Rightarrow> (Inl TooManyTasks, s)
           | Some slot \<Rightarrow>
               let ident = se_next_id s;
                   s = s\<lparr>se_session := (se_session s)[slot := se_session s ! current_on c s]\<rparr>;
                   t = task_new ident name stk (mk_context (stack_top stk) slot) fpu;
                   t = t\<lparr>ta_entry := Some entry, ta_arg := arg\<rparr>
               in if \<not> boxed then (Inl OutOfMemory, s)
                  else (Inr ident, s\<lparr>se_next_id := se_next_id s + 1, se_tasks := (se_tasks s)[slot := Some t]\<rparr>)))"

text \<open>\<open>trampoline\<close> is the address of the function that calls the entry point and then exits.\<close>

definition spawn ::
  "nat \<Rightarrow> string \<Rightarrow> nat \<Rightarrow> nat \<Rightarrow> nat option \<Rightarrow> bool \<Rightarrow> 'r option \<Rightarrow> (nat \<Rightarrow> nat \<Rightarrow> 'r) \<Rightarrow> 'r sched \<Rightarrow>
   (spawn_error + tid) \<times> 'r sched" where
  "spawn c name trampoline entry heap boxed fpu mk_context s =
     spawn_raw c name TASK_STACK_SIZE trampoline entry heap boxed fpu mk_context s"

definition mark_daemon :: "tid \<Rightarrow> 'r sched \<Rightarrow> 'r sched" where
  "mark_daemon ident s =
     (case find_task ident s of None \<Rightarrow> s | Some slot \<Rightarrow> change_task slot (\<lambda>t. t\<lparr>ta_daemon := True\<rparr>) s)"

definition spawn_daemon ::
  "nat \<Rightarrow> string \<Rightarrow> nat \<Rightarrow> nat \<Rightarrow> nat option \<Rightarrow> bool \<Rightarrow> 'r option \<Rightarrow> (nat \<Rightarrow> nat \<Rightarrow> 'r) \<Rightarrow> 'r sched \<Rightarrow>
   (spawn_error + tid) \<times> 'r sched" where
  "spawn_daemon c name trampoline entry heap boxed fpu mk_context s =
     (case spawn c name trampoline entry heap boxed fpu mk_context s of
        (Inl e, s) \<Rightarrow> (Inl e, s)
      | (Inr ident, s) \<Rightarrow> (Inr ident, mark_daemon ident s))"

text \<open>The part of \<^verbatim>\<open>exit_current_with\<close> under the lock; \<^verbatim>\<open>schedule\<close> follows, and does not return.\<close>

definition exit_current_with :: "nat \<Rightarrow> int \<Rightarrow> 'r sched \<Rightarrow> 'r sched" where
  "exit_current_with c result s =
     (let current = current_on c s;
          ident = (case task_at current s of None \<Rightarrow> TASK_IDLE | Some t \<Rightarrow> ta_id t);
          s = change_task current (\<lambda>t. t\<lparr>ta_state := Finished, ta_result := result, ta_user := user_default\<rparr>) s
      in wake_waiters ident s)"

subsection \<open>Processors\<close>

definition prepare_cpu :: "nat \<Rightarrow> nat option \<Rightarrow> bool \<Rightarrow> 'r sched \<Rightarrow> nat option \<times> 'r sched" where
  "prepare_cpu index heap boxed s =
     (if index = 0 \<or> MAX_CPUS \<le> index then (None, s)
      else
        (case stack_allocate TASK_STACK_SIZE heap of
           None \<Rightarrow> (None, s)
         | Some stk \<Rightarrow>
             if \<not> boxed then (None, s)
             else (Some (stack_top stk),
                   change_cpu index (\<lambda>p. p\<lparr>cp_current := index\<rparr>)
                     (s\<lparr>se_tasks := (se_tasks s)[index := Some ((task_idle index)\<lparr>ta_stack := Some stk\<rparr>)]\<rparr>))))"

definition forget_cpu :: "nat \<Rightarrow> 'r sched \<Rightarrow> 'r sched" where
  "forget_cpu index s =
     (if index = 0 \<or> MAX_CPUS \<le> index then s else s\<lparr>se_tasks := (se_tasks s)[index := None]\<rparr>)"

text \<open>The beginning of \<^verbatim>\<open>run\<close>, on the boot processor; a second call halts the machine.\<close>

definition run_start :: "'r sched \<Rightarrow> 'r sched option" where
  "run_start s =
     (if se_running s then None
      else Some (change_cpu 0 (\<lambda>p. p\<lparr>cp_current := 0\<rparr>)
        (s\<lparr>se_tasks := (se_tasks s)[0 := Some (task_idle 0)], se_running := True, se_ticking := True\<rparr>)))"

subsection \<open>Questions and small changes\<close>

definition current_task :: "nat \<Rightarrow> 'r sched \<Rightarrow> tid" where
  "current_task c s = (case task_at (current_on c s) s of None \<Rightarrow> TASK_IDLE | Some t \<Rightarrow> ta_id t)"

definition current_name :: "nat \<Rightarrow> 'r sched \<Rightarrow> string" where
  "current_name c s = (case task_at (current_on c s) s of None \<Rightarrow> ''none'' | Some t \<Rightarrow> ta_name t)"

definition is_daemon :: "nat \<Rightarrow> 'r sched \<Rightarrow> bool" where
  "is_daemon c s = (case task_at (current_on c s) s of None \<Rightarrow> False | Some t \<Rightarrow> ta_daemon t)"

definition sched_session :: "nat \<Rightarrow> 'r sched \<Rightarrow> nat" where
  "sched_session c s = min (se_session s ! current_on c s) (MAX_SESSIONS - 1)"

definition set_session :: "nat \<Rightarrow> nat \<Rightarrow> 'r sched \<Rightarrow> 'r sched" where
  "set_session c session s =
     s\<lparr>se_session := (se_session s)[current_on c s := min session (MAX_SESSIONS - 1)]\<rparr>"

definition set_current_tls :: "nat \<Rightarrow> u64 \<Rightarrow> 'r core \<Rightarrow> 'r sched \<Rightarrow> 'r core \<times> 'r sched" where
  "set_current_tls c base co s =
     (co\<lparr>co_tls := base\<rparr>, change_task (current_on c s) (\<lambda>t. t\<lparr>ta_tls := base\<rparr>) s)"

definition set_current_space :: "nat \<Rightarrow> nat option \<Rightarrow> 'r sched \<Rightarrow> 'r sched" where
  "set_current_space c root s =
     change_task (current_on c s) (\<lambda>t. t\<lparr>ta_user := (ta_user t)\<lparr>um_space_root := root\<rparr>\<rparr>) s"

definition remember_return_stack :: "nat \<Rightarrow> nat \<Rightarrow> 'r core \<Rightarrow> 'r sched \<Rightarrow> 'r core \<times> 'r sched" where
  "remember_return_stack c stk co s =
     (co\<lparr>co_trap_stack := stk\<rparr>,
      change_task (current_on c s) (\<lambda>t. t\<lparr>ta_user := (ta_user t)\<lparr>um_return_stack := stk\<rparr>\<rparr>) s)"

definition return_stack :: "nat \<Rightarrow> 'r sched \<Rightarrow> nat" where
  "return_stack c s = (case task_at (current_on c s) s of None \<Rightarrow> 0 | Some t \<Rightarrow> um_return_stack (ta_user t))"

definition is_idle :: "tid \<Rightarrow> 'r sched \<Rightarrow> bool" where
  "is_idle ident s = list_ex (\<lambda>(slot, e). case e of None \<Rightarrow> False | Some t \<Rightarrow> ta_id t = ident \<and> is_idle_slot slot)
     (enumerate 0 (se_tasks s))"

definition lookup_task :: "tid \<Rightarrow> 'r sched \<Rightarrow> (nat \<times> task_state) option" where
  "lookup_task ident s =
     Option.bind (find_plain ident s) (\<lambda>slot. map_option (\<lambda>t. (slot, ta_state t)) (task_at slot s))"

definition id_of_slot :: "nat \<Rightarrow> 'r sched \<Rightarrow> tid option" where
  "id_of_slot slot s = (if is_idle_slot slot then None else map_option ta_id (task_at slot s))"

definition result_of :: "tid \<Rightarrow> 'r sched \<Rightarrow> int option" where
  "result_of ident s =
     map_option ta_result (find (\<lambda>t. ta_id t = ident \<and> ta_state t = Finished) (List.map_filter id (se_tasks s)))"

definition open_span :: "nat \<Rightarrow> 'r task \<Rightarrow> nat" where
  "open_span now t = (if ta_ran_since_ms t = 0 then 0 else now - ta_ran_since_ms t)"

definition cpu_ms :: "tid \<Rightarrow> nat \<Rightarrow> 'r sched \<Rightarrow> nat option" where
  "cpu_ms ident now s =
     map_option (\<lambda>t. ta_cpu_ms t + open_span now t)
       (find (\<lambda>t. ta_id t = ident) (List.map_filter id (se_tasks s)))"

text \<open>The snapshot the task manager is shown, with as many rows as the heap had room for.\<close>

definition task_facts :: "nat \<Rightarrow> nat \<Rightarrow> 'r sched \<Rightarrow> (nat \<times> tid \<times> string \<times> task_state \<times> nat \<times> bool \<times> nat) list" where
  "task_facts room now s =
     take room (List.map_filter (\<lambda>(slot, e). map_option (\<lambda>t. (slot, ta_id t, ta_name t, ta_state t,
       ta_cpu_ms t + open_span now t, ta_daemon t, ta_switches t)) e) (enumerate 0 (se_tasks s)))"

end
