(* ===== verification/Machine.thy ===== *)
theory Machine
  imports Sched
begin

text \<open>
  Several processors at work on one scheduler.  A switch is not one step: the decision is made
  under the lock (\<^verbatim>\<open>schedule_with\<close>), the registers are exchanged after the lock is released
  (\<^verbatim>\<open>switch_context\<close>), and only then does the task that came take the mark of the processor off
  the task that left (\<^verbatim>\<open>finish_switch\<close>).  Between these moments every other processor may do
  anything.  The theory states what the marks are for and proves it for every interleaving.
\<close>

section \<open>The machine\<close>

text \<open>
  \<open>Leaving from to tls\<close>: the decision is made, the registers are still those of \<open>from\<close>.
  \<open>Arrived\<close>: the registers are exchanged, the mark is still on the task that left.
\<close>

datatype phase = Off | Steady | Leaving nat nat u64 | Arrived

record 'r machine =
  mc_sched :: "'r sched"
  mc_cores :: "nat \<Rightarrow> 'r core"
  mc_phase :: "nat \<Rightarrow> phase"

abbreviation previous_on :: "nat \<Rightarrow> 'r sched \<Rightarrow> nat option" where
  "previous_on c s \<equiv> cp_previous (se_cpus s ! c)"

text \<open>The task running on the processor may block or exit; an idle task does neither.\<close>

definition may_leave :: "nat \<Rightarrow> 'r sched \<Rightarrow> bool" where
  "may_leave c s \<longleftrightarrow> \<not> is_idle_slot (current_on c s) \<and>
     map_option ta_state (task_at (current_on c s) s) = Some Running"

text \<open>
  What runs under the lock without switching: first what interrupt handlers and tasks do to
  others, then what the running task does to itself.
\<close>

inductive call :: "nat \<Rightarrow> 'r sched \<Rightarrow> 'r sched \<Rightarrow> bool" where
  irq: "call c s (wake_irq source now s)"
| input: "call c s (wake_input locked s)"
| lock: "call c s (wake_lock address s)"
| futex: "call c s (snd (wake_futex key limit s))"
| one: "call c s (wake_task locked ident s)"
| daemon: "call c s (mark_daemon ident s)"
| session: "call c s (set_session c k s)"
| space: "call c s (set_current_space c root s)"
| tick: "call c s (on_timer_tick c s)"
| flag: "call c s (snd (preempt_point c s))"
| preemption: "call c s (set_preemption on s)"
| block: "may_leave c s \<Longrightarrow> call c s (snd (block_on c w ready s))"
| sleep: "may_leave c s \<Longrightarrow> call c s (snd (sleep_until c at_ms s))"
| await: "may_leave c s \<Longrightarrow> call c s (snd (wait_turn c ident s))"
| exit: "may_leave c s \<Longrightarrow> call c s (exit_current_with c result s)"

text \<open>
  What an observer of the registers is told of a step: a processor computed, a task was born with
  its first registers, a processor began with its idle task, an idle task was made or forgotten, or
  nothing that a task could see.
\<close>

datatype 'r event = Compute nat 'r 'r | Born nat 'r "'r option" | Online nat | Reset nat | Hidden

inductive machine_step :: "'r event \<Rightarrow> 'r machine \<Rightarrow> 'r machine \<Rightarrow> bool" where
  compute: "mc_phase m c \<noteq> Off \<Longrightarrow> (mc_phase m c \<noteq> Steady \<longrightarrow> v = co_vectors (mc_cores m c)) \<Longrightarrow>
    machine_step (Compute c r v) m
      (m\<lparr>mc_cores := (mc_cores m)(c := (mc_cores m c)\<lparr>co_regs := r, co_vectors := v\<rparr>)\<rparr>)"
| call: "c < MAX_CPUS \<Longrightarrow> call c (mc_sched m) s' \<Longrightarrow> machine_step Hidden m (m\<lparr>mc_sched := s'\<rparr>)"
| tls: "mc_phase m c = Steady \<Longrightarrow> set_current_tls c base (mc_cores m c) (mc_sched m) = (co, s') \<Longrightarrow>
    machine_step Hidden m (m\<lparr>mc_sched := s', mc_cores := (mc_cores m)(c := co)\<rparr>)"
| trap: "mc_phase m c = Steady \<Longrightarrow> remember_return_stack c stk (mc_cores m c) (mc_sched m) = (co, s') \<Longrightarrow>
    machine_step Hidden m (m\<lparr>mc_sched := s', mc_cores := (mc_cores m)(c := co)\<rparr>)"
| stay: "mc_phase m c = Steady \<Longrightarrow>
    schedule_with why c now later (mc_cores m c) (mc_sched m) = (Stay, co, s') \<Longrightarrow>
    machine_step Hidden m (m\<lparr>mc_sched := s', mc_cores := (mc_cores m)(c := co)\<rparr>)"
| decide: "mc_phase m c = Steady \<Longrightarrow>
    schedule_with why c now later (mc_cores m c) (mc_sched m) = (Switch from to tls, co, s') \<Longrightarrow>
    machine_step Hidden m (m\<lparr>mc_sched := s', mc_cores := (mc_cores m)(c := co),
      mc_phase := (mc_phase m)(c := Leaving from to tls)\<rparr>)"
| swap: "mc_phase m c = Leaving from to tls \<Longrightarrow>
    swap_context from to tls (mc_cores m c) (mc_sched m) = Some (co, s') \<Longrightarrow>
    machine_step Hidden m (m\<lparr>mc_sched := s', mc_cores := (mc_cores m)(c := co),
      mc_phase := (mc_phase m)(c := Arrived)\<rparr>)"
| finish: "mc_phase m c = Arrived \<Longrightarrow>
    machine_step Hidden m (m\<lparr>mc_sched := finish_switch c (mc_sched m), mc_phase := (mc_phase m)(c := Steady)\<rparr>)"
| born: "c < MAX_CPUS \<Longrightarrow>
    spawn_raw c name bytes entry arg heap boxed fpu mk (mc_sched m) = (Inr ident, s') \<Longrightarrow>
    free_task_slot (mc_sched m) = Some slot \<Longrightarrow> stack_allocate bytes heap = Some stk \<Longrightarrow>
    machine_step (Born slot (mk (stack_top stk) slot) fpu) m (m\<lparr>mc_sched := s'\<rparr>)"
| prepare: "mc_phase m c = Off \<Longrightarrow> prepare_cpu c heap boxed (mc_sched m) = (Some top_address, s') \<Longrightarrow>
    machine_step (Reset c) m (m\<lparr>mc_sched := s'\<rparr>)"
| forget: "mc_phase m c = Off \<Longrightarrow> 0 < c \<Longrightarrow> c < MAX_CPUS \<Longrightarrow>
    machine_step (Reset c) m (m\<lparr>mc_sched := forget_cpu c (mc_sched m)\<rparr>)"
| boot: "mc_phase m 0 = Off \<Longrightarrow> run_start (mc_sched m) = Some s' \<Longrightarrow>
    machine_step (Online 0) m (m\<lparr>mc_sched := s', mc_phase := (mc_phase m)(0 := Steady)\<rparr>)"
| online: "mc_phase m c = Off \<Longrightarrow> 0 < c \<Longrightarrow> c < MAX_CPUS \<Longrightarrow> task_at c (mc_sched m) \<noteq> None \<Longrightarrow>
    machine_step (Online c) m (m\<lparr>mc_phase := (mc_phase m)(c := Steady)\<rparr>)"

definition machine_off :: "(nat \<Rightarrow> 'r core) \<Rightarrow> 'r machine" where
  "machine_off cores = \<lparr>mc_sched = sched_new, mc_cores = cores, mc_phase = (\<lambda>c. Off)\<rparr>"

inductive reachable :: "'r machine \<Rightarrow> bool" where
  start: "reachable (machine_off cores)"
| step: "reachable m \<Longrightarrow> machine_step e m m' \<Longrightarrow> reachable m'"

section \<open>The invariant\<close>

text \<open>
  A task marked with a processor is the one running there, or the one whose switch away is not
  over, or the idle task of a processor that has not begun; and it is the only such.
\<close>

definition marks_ok :: "'r machine \<Rightarrow> bool" where
  "marks_ok m \<longleftrightarrow> (let s = mc_sched m in
     \<forall>slot t c. task_at slot s = Some t \<and> ta_cpu t = Some c \<longrightarrow> c < MAX_CPUS \<and>
       (is_idle_slot slot \<longrightarrow> slot = c) \<and>
       (if mc_phase m c = Off then slot = c else slot = current_on c s \<or> previous_on c s = Some slot))"

definition marked :: "nat \<Rightarrow> nat \<Rightarrow> 'r sched \<Rightarrow> bool" where
  "marked slot c s \<longleftrightarrow> map_option ta_cpu (task_at slot s) = Some (Some c)"

definition has_context :: "nat \<Rightarrow> 'r sched \<Rightarrow> bool" where
  "has_context slot s \<longleftrightarrow> Option.bind (task_at slot s) ta_context \<noteq> None"

definition phase_ok :: "'r machine \<Rightarrow> nat \<Rightarrow> bool" where
  "phase_ok m c \<longleftrightarrow> (let s = mc_sched m in
     (case mc_phase m c of
        Off \<Rightarrow> c < MAX_CPUS \<longrightarrow> current_on c s = c \<and> previous_on c s = None \<and>
          (task_at c s \<noteq> None \<longrightarrow> marked c c s)
      | Steady \<Rightarrow> previous_on c s = None
      | Leaving from to tls \<Rightarrow> previous_on c s = Some from \<and> current_on c s = to \<and> has_context to s
      | Arrived \<Rightarrow> (\<exists>p. previous_on c s = Some p \<and> has_context p s)) \<and>
     (mc_phase m c \<noteq> Off \<longrightarrow> c < MAX_CPUS \<and> task_at c s \<noteq> None \<and> marked (current_on c s) c s \<and>
        (is_idle_slot (current_on c s) \<longrightarrow> current_on c s = c)) \<and>
     (\<forall>p. mc_phase m c \<noteq> Off \<and> previous_on c s = Some p \<longrightarrow> p \<noteq> current_on c s \<and> marked p c s))"

definition task_ok :: "'r sched \<Rightarrow> nat \<Rightarrow> 'r task \<Rightarrow> bool" where
  "task_ok s slot t \<longleftrightarrow>
     (ta_cpu t = None \<longrightarrow> ta_context t \<noteq> None) \<and>
     (ta_state t = Running \<longrightarrow> (\<exists>c. ta_cpu t = Some c \<and> current_on c s = slot)) \<and>
     (\<not> is_idle_slot slot \<and> \<not> retired t \<longrightarrow> ta_stack t \<noteq> None) \<and>
     (is_idle_slot slot \<longrightarrow> ta_fpu t = None)"

definition machine_ok :: "'r machine \<Rightarrow> bool" where
  "machine_ok m \<longleftrightarrow>
     length (se_tasks (mc_sched m)) = MAX_TASKS \<and> length (se_cpus (mc_sched m)) = MAX_CPUS \<and>
     marks_ok m \<and> (\<forall>c. phase_ok m c) \<and>
     (\<forall>slot t. task_at slot (mc_sched m) = Some t \<longrightarrow> task_ok (mc_sched m) slot t)"

lemma task_at_change [simp]:
  "task_at i (change_task slot f s) = (if i = slot then map_option f (task_at i s) else task_at i s)"
  by (auto simp: task_at_def change_task_def)

lemma change_task_other [simp]:
  "se_cpus (change_task slot f s) = se_cpus s" "length (se_tasks (change_task slot f s)) = length (se_tasks s)"
  "se_running (change_task slot f s) = se_running s"
  by (simp_all add: change_task_def)

lemma task_at_changes [simp]: "task_at i (change_tasks f s) = map_option f (task_at i s)"
  by (simp add: task_at_def change_tasks_def)

lemma change_tasks_other [simp]:
  "se_cpus (change_tasks f s) = se_cpus s" "length (se_tasks (change_tasks f s)) = length (se_tasks s)"
  by (simp_all add: change_tasks_def)

lemma current_on_cong: "se_cpus s' = se_cpus s \<Longrightarrow> current_on c s' = current_on c s"
  by (simp add: current_on_def)

text \<open>
  A change that moves no task between processors: marks and registers stay, a task that has
  retired stays finished, only the task a processor is on may be called running, and a stack goes
  only from a task that has retired.
\<close>

definition tame_task :: "'r sched \<Rightarrow> nat \<Rightarrow> 'r task \<Rightarrow> 'r task \<Rightarrow> bool" where
  "tame_task s slot t t' \<longleftrightarrow>
     ta_cpu t' = ta_cpu t \<and> ta_context t' = ta_context t \<and> ta_fpu t' = ta_fpu t \<and>
     (ta_state t = Finished \<longrightarrow> ta_state t' = Finished) \<and>
     (ta_state t' = Finished \<longrightarrow> ta_state t = Finished \<or> ta_cpu t \<noteq> None) \<and>
     (ta_state t' = Running \<longrightarrow> ta_state t = Running \<or> (\<exists>c. ta_cpu t = Some c \<and> current_on c s = slot)) \<and>
     (ta_stack t' = ta_stack t \<or> retired t)"

definition tame :: "'r sched \<Rightarrow> 'r sched \<Rightarrow> bool" where
  "tame s s' \<longleftrightarrow> se_cpus s' = se_cpus s \<and> length (se_tasks s') = length (se_tasks s) \<and>
     (\<forall>slot. rel_option (tame_task s slot) (task_at slot s) (task_at slot s'))"

lemma tame_refl: "tame s s"
  by (auto simp: tame_def tame_task_def option.rel_refl)

lemma tame_task_trans:
  "tame_task s slot t u \<Longrightarrow> tame_task s' slot u v \<Longrightarrow> se_cpus s' = se_cpus s \<Longrightarrow> tame_task s slot t v"
  by (auto simp: tame_task_def retired_def current_on_def)

lemma tame_trans:
  assumes "tame s s'" and "tame s' s''"
  shows "tame s s''"
proof -
  have "rel_option (tame_task s slot) (task_at slot s) (task_at slot s'')" for slot
  proof -
    have "rel_option (tame_task s slot) (task_at slot s) (task_at slot s')"
      "rel_option (tame_task s' slot) (task_at slot s') (task_at slot s'')" "se_cpus s' = se_cpus s"
      using assms by (simp_all add: tame_def)
    then show ?thesis
      by (cases "task_at slot s"; cases "task_at slot s'"; cases "task_at slot s''")
        (auto intro: tame_task_trans)
  qed
  then show ?thesis using assms by (simp add: tame_def)
qed

lemma tame_changes:
  assumes "\<And>slot t. task_at slot s = Some t \<Longrightarrow> tame_task s slot t (f t)"
  shows "tame s (change_tasks f s)"
  using assms by (auto simp: tame_def option_rel_Some1 rel_option_iff split: option.splits)

lemma tame_change:
  assumes "\<And>t. task_at slot s = Some t \<Longrightarrow> tame_task s slot t (f t)"
  shows "tame s (change_task slot f s)"
  using assms
  by (auto simp: tame_def rel_option_iff tame_task_def split: option.splits)

lemma tame_tasks_same:
  assumes "se_cpus s' = se_cpus s" and "se_tasks s' = se_tasks s"
  shows "tame s s'"
proof -
  have "task_at i s' = task_at i s" for i using assms(2) by (simp add: task_at_def)
  then show ?thesis using tame_refl [of s] assms by (simp add: tame_def)
qed

subsection \<open>Every call is tame\<close>

lemma tame_wake:
  assumes "\<And>t. ta_state (f t) = ta_state t \<or> is_blocked (ta_state t) \<and> ta_state (f t) = Ready"
    and "\<And>t. ta_cpu (f t) = ta_cpu t \<and> ta_context (f t) = ta_context t \<and> ta_fpu (f t) = ta_fpu t \<and> ta_stack (f t) = ta_stack t"
  shows "tame_task s slot t (f t)"
  using assms(1) [of t] assms(2) [of t] by (auto simp: tame_task_def is_blocked_def split: task_state.splits)

lemma wake_when_blocked:
  assumes "\<And>t. p t \<Longrightarrow> is_blocked (ta_state t)"
  shows "tame_task s slot t (wake_when p t)"
  by (rule tame_wake) (use assms in \<open>auto simp: wake_when_def\<close>)

lemma due_blocked: "due now t \<Longrightarrow> is_blocked (ta_state t)"
  by (cases "ta_state t") (auto simp: due_def is_blocked_def)

lemma awaits_blocked:
  "awaits_irq source st \<Longrightarrow> is_blocked st" "awaits_futex key st \<Longrightarrow> is_blocked st" "awaits_input st \<Longrightarrow> is_blocked st"
  by (auto simp: is_blocked_def elim: awaits_irq.elims awaits_futex.elims awaits_input.elims)

lemma waits_blocked: "waits_for w t \<Longrightarrow> is_blocked (ta_state t)"
  by (simp add: waits_for_def is_blocked_def)

lemma tame_wake_expired: "tame s (snd (wake_expired now s))"
  by (simp add: wake_expired_def tame_changes wake_when_blocked due_blocked)

lemma tame_wake_irq: "tame s (wake_irq source now s)"
  unfolding wake_irq_def
  by (rule tame_changes, rule tame_wake) (auto simp: irq_woken_def awaits_blocked)

lemma tame_wake_waiters: "tame s (wake_waiters ident s)"
  by (simp add: wake_waiters_def tame_changes wake_when_blocked waits_blocked)

lemma tame_wake_lock: "tame s (wake_lock address s)"
  by (simp add: wake_lock_def tame_changes wake_when_blocked waits_blocked)

lemma tame_ask_reschedule: "tame s (ask_reschedule s)"
  by (rule tame_tasks_same) (simp_all add: ask_reschedule_def)

lemma tame_wake_input: "tame s (wake_input locked s)"
proof -
  have "tame s (change_tasks input_woken s)"
    by (rule tame_changes, rule tame_wake) (auto simp: input_woken_def awaits_blocked)
  then show ?thesis
    using tame_trans tame_ask_reschedule by (auto simp: wake_input_def Let_def tame_refl)
qed

lemma tame_wake_task: "tame s (wake_task locked ident s)"
  by (auto simp: wake_task_def tame_refl tame_change wake_when_blocked split: option.splits)

lemma futex_loop_entries:
  "list_all2 (rel_option (\<lambda>t t'. t' = t \<or> awaits_futex key (ta_state t) \<and> t' = t\<lparr>ta_state := Ready\<rparr>))
     ts (snd (wake_futex_loop key limit woken ts))"
proof (induction key limit woken ts rule: wake_futex_loop.induct)
  case (2 key limit woken e es)
  then show ?case
    by (cases e) (auto simp: list.rel_refl option.rel_refl split: prod.splits)
qed simp

lemma tame_wake_futex: "tame s (snd (wake_futex key limit s))"
proof -
  let ?s = "snd (wake_futex key limit s)"
  note rel = futex_loop_entries [of key "se_tasks s" limit 0]
  have "rel_option (tame_task s slot) (task_at slot s) (task_at slot ?s)" for slot
  proof -
    have "rel_option (\<lambda>t t'. t' = t \<or> awaits_futex key (ta_state t) \<and> t' = t\<lparr>ta_state := Ready\<rparr>)
        (task_at slot s) (task_at slot ?s)"
      using rel by (auto simp: wake_futex_def task_at_def list_all2_conv_all_nth split: prod.splits)
    then show ?thesis
      by (rule option.rel_mono_strong) (auto simp: tame_task_def dest: awaits_blocked simp: is_blocked_def)
  qed
  then show ?thesis
    using list_all2_lengthD [OF rel] by (simp add: tame_def wake_futex_def split: prod.splits)
qed

lemma tame_mark_daemon: "tame s (mark_daemon ident s)"
  by (auto simp: mark_daemon_def tame_refl tame_change tame_task_def split: option.splits)

lemma tame_set_current_space: "tame s (set_current_space c root s)"
  by (simp add: set_current_space_def tame_change tame_task_def)

lemma tame_block_current: "may_leave c s \<Longrightarrow> tame s (block_current c w s)"
  by (auto simp: block_current_def may_leave_def tame_task_def intro!: tame_change)

lemma tame_exit:
  assumes "may_leave c s" and "marked (current_on c s) c s"
  shows "tame s (exit_current_with c result s)"
proof -
  let ?f = "\<lambda>t. t\<lparr>ta_state := Finished, ta_result := result, ta_user := user_default\<rparr>"
  have "tame s (change_task (current_on c s) ?f s)"
    using assms by (auto simp: may_leave_def marked_def tame_task_def intro!: tame_change)
  then show ?thesis
    unfolding exit_current_with_def Let_def by (rule tame_trans) (rule tame_wake_waiters)
qed

lemma tame_reap: "tame s (snd (reap s))"
proof -
  have "rel_option (tame_task s slot) (task_at slot s) (task_at slot (snd (reap s)))" for slot
    by (auto simp: reap_def task_at_def nth_enumerate_eq reap_entry_def rel_option_iff tame_task_def
        reapable_def split: option.splits)
  then show ?thesis by (simp add: tame_def reap_def)
qed

lemma tame_call:
  assumes "call c s s'" and "may_leave c s \<longrightarrow> marked (current_on c s) c s"
  shows "tame s s'"
  using assms
proof cases
  case (block w ready)
  then show ?thesis by (auto simp: block_on_def tame_refl tame_block_current)
next
  case (sleep at_ms)
  then show ?thesis by (auto simp: sleep_until_def tame_refl tame_block_current)
next
  case (await ident)
  then show ?thesis
    by (auto simp: wait_turn_def tame_refl tame_block_current split: option.splits)
next
  case (exit result)
  then show ?thesis using assms(2) by (simp add: tame_exit)
qed (auto simp: tame_wake_irq tame_wake_input tame_wake_lock tame_wake_futex tame_wake_task tame_mark_daemon
    tame_set_current_space set_session_def on_timer_tick_def preempt_point_def set_preemption_def Let_def
    intro!: tame_tasks_same)

subsection \<open>A tame change keeps the invariant\<close>

lemma tame_task_at:
  assumes "tame s s'" and "task_at slot s' = Some t'"
  shows "\<exists>t. task_at slot s = Some t \<and> tame_task s slot t t'"
  using assms unfolding tame_def by (metis option.rel_cases option.discI option.inject)

lemma tame_same:
  assumes "tame s s'"
  shows "se_cpus s' = se_cpus s" "current_on c s' = current_on c s" "marked slot c s' = marked slot c s"
    "has_context slot s' = has_context slot s" "task_at slot s' = None \<longleftrightarrow> task_at slot s = None"
    "length (se_tasks s') = length (se_tasks s)"
proof -
  have "rel_option (tame_task s slot) (task_at slot s) (task_at slot s')"
    and cpus: "se_cpus s' = se_cpus s" and "length (se_tasks s') = length (se_tasks s)"
    using assms by (simp_all add: tame_def)
  then show "marked slot c s' = marked slot c s" "has_context slot s' = has_context slot s"
    "task_at slot s' = None \<longleftrightarrow> task_at slot s = None" "length (se_tasks s') = length (se_tasks s)"
    by (cases "task_at slot s"; cases "task_at slot s'"; auto simp: marked_def has_context_def tame_task_def)+
  show "se_cpus s' = se_cpus s" "current_on c s' = current_on c s" using cpus by (simp_all add: current_on_def)
qed

lemma tame_machine_ok:
  assumes ok: "machine_ok m" and t: "tame (mc_sched m) s'" and ph: "mc_phase m' = mc_phase m"
    and s': "mc_sched m' = s'"
  shows "machine_ok m'"
proof -
  let ?s = "mc_sched m"
  have marks: "marks_ok m'"
    unfolding marks_ok_def Let_def s' ph tame_same(1,2) [OF t]
  proof (intro allI impI)
    fix slot t' c
    assume a: "task_at slot s' = Some t' \<and> ta_cpu t' = Some c"
    then obtain u where "task_at slot ?s = Some u" "ta_cpu u = Some c"
      using a tame_task_at [OF t, of slot t'] by (auto simp: tame_task_def)
    then show "c < MAX_CPUS \<and> (is_idle_slot slot \<longrightarrow> slot = c) \<and>
        (if mc_phase m c = Off then slot = c else slot = current_on c ?s \<or> previous_on c ?s = Some slot)"
      using ok by (auto simp: machine_ok_def marks_ok_def Let_def)
  qed
  have "phase_ok m' c" for c
  proof -
    have "phase_ok m c" using ok by (simp add: machine_ok_def)
    then show ?thesis
      unfolding phase_ok_def Let_def s' ph tame_same [OF t] .
  qed
  moreover have "task_ok s' slot t'" if a: "task_at slot s' = Some t'" for slot t'
  proof -
    obtain u where u: "task_at slot ?s = Some u" "tame_task ?s slot u t'"
      using tame_task_at [OF t a] by blast
    then have "task_ok ?s slot u" using ok by (auto simp: machine_ok_def)
    then show ?thesis
      using u(2) by (auto simp: task_ok_def tame_task_def retired_def tame_same(2) [OF t])
  qed
  ultimately show ?thesis
    using ok marks by (simp add: machine_ok_def s' tame_same [OF t])
qed

section \<open>What a task sees of the registers\<close>

text \<open>
  The task whose general registers a processor holds, and the one whose vector registers; they
  differ between the decision and the exchange.  A task sees the registers of the processor that
  holds them, or what was saved when it was last taken off.
\<close>

definition regs_owner :: "'r machine \<Rightarrow> nat \<Rightarrow> nat option" where
  "regs_owner m c =
     (case mc_phase m c of Off \<Rightarrow> None | Leaving from to tls \<Rightarrow> Some from | _ \<Rightarrow> Some (current_on c (mc_sched m)))"

definition vectors_owner :: "'r machine \<Rightarrow> nat \<Rightarrow> nat option" where
  "vectors_owner m c = (if mc_phase m c = Off then None else Some (current_on c (mc_sched m)))"

definition saved_regs :: "'r machine \<Rightarrow> nat \<Rightarrow> 'r option" where
  "saved_regs m slot = Option.bind (task_at slot (mc_sched m)) ta_context"

definition saved_vectors :: "'r machine \<Rightarrow> nat \<Rightarrow> 'r option" where
  "saved_vectors m slot = Option.bind (task_at slot (mc_sched m)) ta_fpu"

definition task_regs :: "'r machine \<Rightarrow> nat \<Rightarrow> 'r option" where
  "task_regs m slot =
     (case find (\<lambda>c. regs_owner m c = Some slot) [0..<MAX_CPUS] of
        Some c \<Rightarrow> Some (co_regs (mc_cores m c)) | None \<Rightarrow> saved_regs m slot)"

definition task_vectors :: "'r machine \<Rightarrow> nat \<Rightarrow> 'r option" where
  "task_vectors m slot =
     (if saved_vectors m slot = None then None
      else case find (\<lambda>c. vectors_owner m c = Some slot) [0..<MAX_CPUS] of
        Some c \<Rightarrow> Some (co_vectors (mc_cores m c)) | None \<Rightarrow> saved_vectors m slot)"

lemma marked_unique: "marked slot c s \<Longrightarrow> marked slot d s \<Longrightarrow> c = d"
  by (auto simp: marked_def)

lemma marks_if:
  assumes "machine_ok m" and "task_at slot (mc_sched m) = Some t" and "ta_cpu t = Some c"
  shows "c < MAX_CPUS \<and> (is_idle_slot slot \<longrightarrow> slot = c) \<and>
    (if mc_phase m c = Off then slot = c
     else slot = current_on c (mc_sched m) \<or> previous_on c (mc_sched m) = Some slot)"
proof -
  have "marks_ok m" using assms(1) by (simp add: machine_ok_def)
  then show ?thesis using assms(2,3) unfolding marks_ok_def Let_def by blast
qed

lemma marks_okD:
  assumes "machine_ok m" and "task_at slot (mc_sched m) = Some t" and "ta_cpu t = Some c"
  shows "c < MAX_CPUS" and "is_idle_slot slot \<Longrightarrow> slot = c"
    and "mc_phase m c = Off \<Longrightarrow> slot = c"
    and "mc_phase m c \<noteq> Off \<Longrightarrow> slot = current_on c (mc_sched m) \<or> previous_on c (mc_sched m) = Some slot"
  using marks_if [OF assms] by (auto split: if_splits)

lemma phase_okD:
  assumes "machine_ok m"
  shows "phase_ok m c"
  using assms by (simp add: machine_ok_def)

lemma phase_okI:
  assumes "mc_phase m c \<noteq> Off" and "c < MAX_CPUS" and "task_at c (mc_sched m) \<noteq> None"
    and "marked (current_on c (mc_sched m)) c (mc_sched m)"
    and "is_idle_slot (current_on c (mc_sched m)) \<Longrightarrow> current_on c (mc_sched m) = c"
    and "\<And>p. previous_on c (mc_sched m) = Some p \<Longrightarrow>
      p \<noteq> current_on c (mc_sched m) \<and> marked p c (mc_sched m)"
    and "case mc_phase m c of Off \<Rightarrow> True | Steady \<Rightarrow> previous_on c (mc_sched m) = None
      | Leaving from to tls \<Rightarrow> previous_on c (mc_sched m) = Some from \<and>
          current_on c (mc_sched m) = to \<and> has_context to (mc_sched m)
      | Arrived \<Rightarrow> (\<exists>p. previous_on c (mc_sched m) = Some p \<and> has_context p (mc_sched m))"
  shows "phase_ok m c"
proof -
  have "case mc_phase m c of
        Off \<Rightarrow> c < MAX_CPUS \<longrightarrow> current_on c (mc_sched m) = c \<and> previous_on c (mc_sched m) = None \<and>
          (task_at c (mc_sched m) \<noteq> None \<longrightarrow> marked c c (mc_sched m))
      | Steady \<Rightarrow> previous_on c (mc_sched m) = None
      | Leaving from to tls \<Rightarrow> previous_on c (mc_sched m) = Some from \<and>
          current_on c (mc_sched m) = to \<and> has_context to (mc_sched m)
      | Arrived \<Rightarrow> (\<exists>p. previous_on c (mc_sched m) = Some p \<and> has_context p (mc_sched m))"
    using assms(1,7) by (cases "mc_phase m c") simp_all
  then show ?thesis unfolding phase_ok_def Let_def using assms(2-6) by blast
qed

lemma phase_ok_keep:
  assumes ok: "phase_ok m d" and ph: "mc_phase m' d = mc_phase m d"
    and cur: "current_on d (mc_sched m') = current_on d (mc_sched m)"
    and prev: "previous_on d (mc_sched m') = previous_on d (mc_sched m)"
    and ex: "task_at d (mc_sched m') = None \<longleftrightarrow> task_at d (mc_sched m) = None"
    and mk: "\<And>slot. marked slot d (mc_sched m) \<Longrightarrow> marked slot d (mc_sched m')"
    and ctx: "\<And>slot. marked slot d (mc_sched m) \<Longrightarrow> has_context slot (mc_sched m) \<Longrightarrow>
      has_context slot (mc_sched m')"
  shows "phase_ok m' d"
proof (cases "mc_phase m d = Off")
  case True
  then show ?thesis using ok mk unfolding phase_ok_def Let_def ph cur prev ex by simp
next
  case False
  have cases: "case mc_phase m' d of Off \<Rightarrow> True | Steady \<Rightarrow> previous_on d (mc_sched m') = None
      | Leaving from to tls \<Rightarrow> previous_on d (mc_sched m') = Some from \<and>
          current_on d (mc_sched m') = to \<and> has_context to (mc_sched m')
      | Arrived \<Rightarrow> (\<exists>p. previous_on d (mc_sched m') = Some p \<and> has_context p (mc_sched m'))"
    using ok False ctx by (cases "mc_phase m d") (auto simp: phase_ok_def Let_def ph cur prev)
  note facts = ok [unfolded phase_ok_def Let_def]
  show ?thesis
  proof (rule phase_okI)
    show "task_at d (mc_sched m') \<noteq> None" unfolding ex using facts False by blast
    show "marked (current_on d (mc_sched m')) d (mc_sched m')" unfolding cur using facts False mk by blast
    show "is_idle_slot (current_on d (mc_sched m')) \<Longrightarrow> current_on d (mc_sched m') = d"
      unfolding cur using facts False by blast
    show "p \<noteq> current_on d (mc_sched m') \<and> marked p d (mc_sched m')"
      if "previous_on d (mc_sched m') = Some p" for p
      using that unfolding cur prev using facts False mk by blast
  qed (use facts False ph cases in simp_all)
qed

lemma home_idle:
  assumes "machine_ok m" and "mc_phase m c \<noteq> Off"
  shows "is_idle_slot (current_on c (mc_sched m)) \<Longrightarrow> current_on c (mc_sched m) = c"
  using phase_okD [OF assms(1), of c] assms(2) unfolding phase_ok_def Let_def by blast

lemma owner_marked:
  assumes "machine_ok m"
  shows "regs_owner m c = Some slot \<Longrightarrow> marked slot c (mc_sched m) \<and> c < MAX_CPUS"
    and "vectors_owner m c = Some slot \<Longrightarrow> marked slot c (mc_sched m) \<and> c < MAX_CPUS"
  using phase_okD [OF assms, of c]
  by (auto simp: phase_ok_def Let_def regs_owner_def vectors_owner_def split: phase.splits if_splits)

lemma find_unique:
  assumes "p c" and "c < n" and "\<And>d. p d \<Longrightarrow> d = c"
  shows "find p [0..<n] = Some c"
proof (cases "find p [0..<n]")
  case None
  then show ?thesis using assms(1,2) by (simp add: find_None_iff)
next
  case (Some d)
  then show ?thesis using assms(3) find_SomeD by metis
qed

lemma task_regs_on:
  assumes "machine_ok m" and "regs_owner m c = Some slot"
  shows "task_regs m slot = Some (co_regs (mc_cores m c))"
proof -
  have "find (\<lambda>c. regs_owner m c = Some slot) [0..<MAX_CPUS] = Some c"
  proof (rule find_unique)
    fix d
    assume "regs_owner m d = Some slot"
    then have "marked slot d (mc_sched m)" using owner_marked(1) [OF assms(1)] by blast
    moreover have "marked slot c (mc_sched m)" using owner_marked(1) [OF assms] by blast
    ultimately show "d = c" by (rule marked_unique)
  qed (use assms(2) owner_marked(1) [OF assms] in simp_all)
  then show ?thesis by (simp add: task_regs_def)
qed

lemma task_regs_off: "(\<And>c. regs_owner m c \<noteq> Some slot) \<Longrightarrow> task_regs m slot = saved_regs m slot"
  by (auto simp: task_regs_def split: option.splits dest!: find_SomeD)

lemma task_vectors_on:
  assumes "machine_ok m" and "vectors_owner m c = Some slot"
  shows "task_vectors m slot = (if saved_vectors m slot = None then None else Some (co_vectors (mc_cores m c)))"
proof -
  have "find (\<lambda>c. vectors_owner m c = Some slot) [0..<MAX_CPUS] = Some c"
  proof (rule find_unique)
    fix d
    assume "vectors_owner m d = Some slot"
    then have "marked slot d (mc_sched m)" using owner_marked(2) [OF assms(1)] by blast
    moreover have "marked slot c (mc_sched m)" using owner_marked(2) [OF assms] by blast
    ultimately show "d = c" by (rule marked_unique)
  qed (use assms(2) owner_marked(2) [OF assms] in simp_all)
  then show ?thesis by (simp add: task_vectors_def)
qed

lemma task_vectors_off: "(\<And>c. vectors_owner m c \<noteq> Some slot) \<Longrightarrow> task_vectors m slot = saved_vectors m slot"
  by (auto simp: task_vectors_def split: option.splits dest!: find_SomeD)

text \<open>The registers seen do not change when neither the holders nor what they hold does.\<close>

lemma task_regs_same:
  assumes "\<And>c. regs_owner m' c = regs_owner m c"
    and "\<And>c. co_regs (mc_cores m' c) = co_regs (mc_cores m c)"
    and "\<And>slot. saved_regs m' slot = saved_regs m slot"
  shows "task_regs m' = task_regs m"
  using assms by (auto simp: task_regs_def fun_eq_iff split: option.splits)

lemma task_vectors_same:
  assumes "\<And>c. vectors_owner m' c = vectors_owner m c"
    and "\<And>c. co_vectors (mc_cores m' c) = co_vectors (mc_cores m c)"
    and "\<And>slot. saved_vectors m' slot = saved_vectors m slot"
  shows "task_vectors m' = task_vectors m"
  using assms by (auto simp: task_vectors_def fun_eq_iff split: option.splits)

lemma tame_saved:
  assumes "tame (mc_sched m) (mc_sched m')"
  shows "saved_regs m' slot = saved_regs m slot" "saved_vectors m' slot = saved_vectors m slot"
proof -
  have "rel_option (tame_task (mc_sched m) slot) (task_at slot (mc_sched m)) (task_at slot (mc_sched m'))"
    using assms by (simp add: tame_def)
  then show "saved_regs m' slot = saved_regs m slot" "saved_vectors m' slot = saved_vectors m slot"
    by (cases "task_at slot (mc_sched m)"; cases "task_at slot (mc_sched m')";
        simp add: saved_regs_def saved_vectors_def tame_task_def)+
qed

lemma tame_views:
  assumes "tame (mc_sched m) (mc_sched m')" and "mc_phase m' = mc_phase m"
    and "\<And>c. co_regs (mc_cores m' c) = co_regs (mc_cores m c) \<and> co_vectors (mc_cores m' c) = co_vectors (mc_cores m c)"
  shows "task_regs m' = task_regs m" "task_vectors m' = task_vectors m"
  using assms tame_same(2) [OF assms(1)]
  by (auto intro!: task_regs_same task_vectors_same simp: tame_saved regs_owner_def vectors_owner_def
      split: phase.splits)

section \<open>The decision\<close>

lemma ring_after_bound: "slot \<in> set (ring_after c) \<Longrightarrow> slot < MAX_TASKS"
  by (auto simp: ring_after_def MAX_TASKS_def MAX_CPUS_def)

lemma pick_next_cases:
  assumes "pick_next c s = Some nxt"
  shows "takes can_run s nxt \<or> nxt = c \<and> \<not> is_idle_slot (current_on c s)"
  using assms
  by (auto simp: pick_next_def Let_def takes_def split: option.splits if_splits task_state.splits dest!: find_SomeD)

lemma current_marked:
  assumes "machine_ok m" and "mc_phase m c \<noteq> Off"
  shows "marked (current_on c (mc_sched m)) c (mc_sched m)" "c < MAX_CPUS" "task_at c (mc_sched m) \<noteq> None"
  using phase_okD [OF assms(1), of c] assms(2) by (auto simp: phase_ok_def Let_def)

lemma pick_next_free:
  assumes ok: "machine_ok m" and "mc_phase m c = Steady" and pick: "pick_next c (mc_sched m) = Some nxt"
  shows "nxt \<noteq> current_on c (mc_sched m) \<and> (is_idle_slot nxt \<longrightarrow> nxt = c) \<and>
    (\<exists>t. task_at nxt (mc_sched m) = Some t \<and> ta_cpu t = None)"
proof -
  let ?s = "mc_sched m"
  have ph: "marked (current_on c ?s) c ?s" "previous_on c ?s = None" "task_at c ?s \<noteq> None"
    using phase_okD [OF ok, of c] assms(2) by (auto simp: phase_ok_def Let_def)
  show ?thesis
  proof (cases "takes can_run ?s nxt")
    case True
    then show ?thesis
      using ph(1) by (auto simp: takes_def can_run_def marked_def split: option.splits)
  next
    case False
    then have nxt: "nxt = c" and busy: "\<not> is_idle_slot (current_on c ?s)"
      using pick_next_cases [OF pick] by auto
    have idle: "is_idle_slot c" using current_marked(2) [OF ok] assms(2) by (simp add: is_idle_slot_def)
    obtain t where t: "task_at c ?s = Some t" using ph(3) by blast
    have "ta_cpu t = None"
    proof (cases "ta_cpu t")
      case (Some d)
      have "c = d" by (rule marks_okD(2) [OF ok t Some idle])
      then have "mc_phase m d \<noteq> Off" using assms(2) by simp
      from marks_okD(4) [OF ok t Some this] have "c = current_on c ?s \<or> previous_on c ?s = Some c"
        unfolding \<open>c = d\<close> .
      then have False using busy idle ph(2) by (metis option.distinct(1))
      then show ?thesis ..
    qed simp
    moreover have "c \<noteq> current_on c ?s" using busy idle by metis
    ultimately show ?thesis unfolding nxt by (simp add: t)
  qed
qed

lemma change_cpu_on [simp]:
  "se_tasks (change_cpu c f s) = se_tasks s" "task_at i (change_cpu c f s) = task_at i s"
  "length (se_cpus (change_cpu c f s)) = length (se_cpus s)"
  by (simp_all add: change_cpu_def task_at_def)

lemma change_cpu_at: "c < length (se_cpus s) \<Longrightarrow>
    se_cpus (change_cpu c f s) ! d = (if d = c then f (se_cpus s ! d) else se_cpus s ! d)"
  by (simp add: change_cpu_def nth_list_update)

lemma commit_task_at:
  assumes "nxt \<noteq> current"
  shows "task_at i (commit_switch why c now current nxt v s) =
    (if i = nxt then map_option (switch_in c now) (task_at i s)
     else if i = current then map_option (\<lambda>t. switch_out why now (save_vectors v t)) (task_at i s)
     else task_at i s)"
proof -
  let ?s = "change_cpu c (\<lambda>p. p\<lparr>cp_previous := Some current, cp_current := nxt, cp_switches := cp_switches p + 1,
      cp_forced := (if why = Preempted then cp_forced p + 1 else cp_forced p)\<rparr>)
    (change_task nxt (switch_in c now) (change_task current (\<lambda>t. switch_out why now (save_vectors v t)) s))"
  have "task_at i (commit_switch why c now current nxt v s) = task_at i ?s"
    by (simp add: commit_switch_def Let_def task_at_def)
  then show ?thesis using assms by simp
qed

lemma commit_cpus:
  assumes "c < length (se_cpus s)"
  shows "current_on d (commit_switch why c now current nxt v s) = (if d = c then nxt else current_on d s)"
    "previous_on d (commit_switch why c now current nxt v s) = (if d = c then Some current else previous_on d s)"
    "length (se_tasks (commit_switch why c now current nxt v s)) = length (se_tasks s)"
    "length (se_cpus (commit_switch why c now current nxt v s)) = length (se_cpus s)"
  using assms by (simp_all add: commit_switch_def Let_def current_on_def change_cpu_at)

lemma switch_in_fields [simp]:
  "ta_cpu (switch_in c now t) = Some c" "ta_state (switch_in c now t) = Running"
  "ta_context (switch_in c now t) = ta_context t" "ta_stack (switch_in c now t) = ta_stack t"
  "ta_fpu (switch_in c now t) = ta_fpu t"
  by (simp_all add: switch_in_def Let_def)

lemma switch_out_fields [simp]:
  "ta_cpu (switch_out why now t) = ta_cpu t" "ta_context (switch_out why now t) = ta_context t"
  "ta_stack (switch_out why now t) = ta_stack t" "ta_fpu (switch_out why now t) = ta_fpu t"
  "ta_state (switch_out why now t) = (if ta_state t = Running then Ready else ta_state t)"
  by (simp_all add: switch_out_def Let_def)

lemma save_vectors_fields [simp]:
  "ta_cpu (save_vectors v t) = ta_cpu t" "ta_context (save_vectors v t) = ta_context t"
  "ta_stack (save_vectors v t) = ta_stack t" "ta_state (save_vectors v t) = ta_state t"
  "ta_fpu (save_vectors v t) = (if ta_fpu t = None then None else Some v)"
  by (simp_all add: save_vectors_def)

text \<open>The state the choice is made in: stacks reaped, deadlines looked at.\<close>

definition tidied :: "nat \<Rightarrow> 'r sched \<Rightarrow> 'r sched" where
  "tidied now s = snd (wake_expired now (snd (reap s)))"

lemma tame_tidied: "tame s (tidied now s)"
  unfolding tidied_def by (rule tame_trans [OF tame_reap tame_wake_expired])

lemma schedule_Switch:
  assumes "schedule_with why c now later co s = (Switch from to tls, co', s')"
  obtains source target where "from = current_on c s" "pick_next c (tidied now s) = Some to"
    "task_at from (tidied now s) = Some source" "task_at to (tidied now s) = Some target"
    "tls = ta_tls target" "co' = load_machine target co"
    "s' = commit_switch why c later from to (co_vectors co) (tidied now s)" "se_running s"
  using assms tame_same(2) [OF tame_tidied, of c now s]
  by (auto simp: schedule_with_def Let_def tidied_def split: if_splits option.splits)

lemma schedule_Stay:
  assumes "schedule_with why c now later co s = (Stay, co', s')"
  shows "co' = co \<and> (s' = s \<or> s' = tidied now s \<or>
    s' = stay_on (current_on c (tidied now s)) (tidied now s))"
  using assms by (auto simp: schedule_with_def Let_def tidied_def split: if_splits option.splits)

lemma tame_stay_on:
  assumes "marked (current_on c s) c s"
  shows "tame s (stay_on (current_on c s) s)"
  using assms unfolding stay_on_def
  by (auto simp: tame_refl marked_def tame_task_def intro!: tame_change)

lemma tame_schedule_Stay:
  assumes "schedule_with why c now later co s = (Stay, co', s')" and "marked (current_on c s) c s"
  shows "tame s s'"
proof -
  have "tame (tidied now s) (stay_on (current_on c (tidied now s)) (tidied now s))"
    by (rule tame_stay_on) (simp add: tame_same(2,3) [OF tame_tidied] assms(2))
  then show ?thesis
    using schedule_Stay [OF assms(1)] tame_refl tame_tidied tame_trans by metis
qed

lemma machine_okI:
  assumes "length (se_tasks (mc_sched m)) = MAX_TASKS" and "length (se_cpus (mc_sched m)) = MAX_CPUS"
    and "marks_ok m" and "\<And>c. phase_ok m c"
    and "\<And>slot t. task_at slot (mc_sched m) = Some t \<Longrightarrow> task_ok (mc_sched m) slot t"
  shows "machine_ok m"
  using assms by (simp add: machine_ok_def)

lemma task_okD:
  assumes "machine_ok m" and "task_at slot (mc_sched m) = Some t"
  shows "task_ok (mc_sched m) slot t"
  using assms by (simp add: machine_ok_def)

lemma machine_ok_lengths:
  assumes "machine_ok m"
  shows "length (se_tasks (mc_sched m)) = MAX_TASKS" "length (se_cpus (mc_sched m)) = MAX_CPUS"
  using assms by (simp_all add: machine_ok_def)

text \<open>
  The committed switch in one place: \<open>m\<close> is the machine with the tidied scheduler, and
  \<open>m'\<close> the machine after the decision.
\<close>

lemma decided_ok:
  assumes ok: "machine_ok m" and st: "mc_phase m c = Steady"
    and cur: "current = current_on c (mc_sched m)" and pick: "pick_next c (mc_sched m) = Some nxt"
    and m': "mc_sched m' = commit_switch why c now current nxt v (mc_sched m)"
      "mc_phase m' = (mc_phase m)(c := Leaving current nxt tls)"
  shows "machine_ok m'"
proof -
  let ?s = "mc_sched m"
  let ?s' = "commit_switch why c now current nxt v ?s"
  have c: "c < MAX_CPUS" "c < length (se_cpus ?s)" and mk: "marked current c ?s" and home: "task_at c ?s \<noteq> None"
    using current_marked [OF ok, of c] st ok by (simp_all add: cur machine_ok_lengths)
  have prev: "previous_on c ?s = None"
    using phase_okD [OF ok, of c] st by (simp add: phase_ok_def Let_def)
  obtain target where nxt: "nxt \<noteq> current" "is_idle_slot nxt \<longrightarrow> nxt = c"
    and target: "task_at nxt ?s = Some target" "ta_cpu target = None"
    using pick_next_free [OF ok st pick] cur by auto
  obtain source where source: "task_at current ?s = Some source" "ta_cpu source = Some c"
    using mk by (auto simp: marked_def)
  note at = commit_task_at [OF nxt(1), of _ why c now v ?s]
  note cpus = commit_cpus [OF c(2)]
  have ctx: "ta_context target \<noteq> None"
    using task_okD [OF ok target(1)] target(2) by (simp add: task_ok_def)
  have marked': "marked slot d ?s' \<longleftrightarrow> marked slot d ?s \<or> slot = nxt \<and> d = c" for slot d
    using target by (auto simp: marked_def at split: if_splits)
  have context': "has_context slot ?s' = has_context slot ?s" for slot
    by (cases "task_at slot ?s") (auto simp: has_context_def at)
  have exist': "task_at slot ?s' = None \<longleftrightarrow> task_at slot ?s = None" for slot
    by (auto simp: at)
  show ?thesis
  proof (rule machine_okI)
    show "length (se_tasks (mc_sched m')) = MAX_TASKS" "length (se_cpus (mc_sched m')) = MAX_CPUS"
      using machine_ok_lengths [OF ok] by (simp_all add: m' cpus)
    show "marks_ok m'"
      unfolding marks_ok_def Let_def m'
    proof (intro allI impI, elim conjE)
      fix slot t d
      assume t: "task_at slot ?s' = Some t" "ta_cpu t = Some d"
      have d: "marked slot d ?s \<or> slot = nxt \<and> d = c"
        using t marked' [of slot d] by (simp add: marked_def)
      show "d < MAX_CPUS \<and> (is_idle_slot slot \<longrightarrow> slot = d) \<and>
        (if ((mc_phase m)(c := Leaving current nxt tls)) d = Off then slot = d
         else slot = current_on d ?s' \<or> previous_on d ?s' = Some slot)"
      proof (cases "slot = nxt \<and> d = c")
        case True
        then show ?thesis using c nxt(2) by (simp add: cpus)
      next
        case False
        then obtain u where u: "task_at slot ?s = Some u" "ta_cpu u = Some d"
          using d by (auto simp: marked_def)
        show ?thesis
        proof (cases "d = c")
          case True
          then have "slot = current \<or> previous_on c ?s = Some slot"
            using marks_okD(4) [OF ok u] st by (simp add: cur)
          then have "slot = current" using prev by simp
          then show ?thesis using marks_okD(1,2) [OF ok u] by (simp add: cpus True)
        next
          case other: False
          then have e: "((mc_phase m)(c := Leaving current nxt tls)) d = mc_phase m d" by simp
          show ?thesis
            unfolding e cpus if_not_P [OF other] by (rule marks_if [OF ok u])
        qed
      qed
    qed
    show "phase_ok m' d" for d
    proof (cases "d = c")
      case True
      have "has_context nxt ?s'" unfolding context' using ctx target by (simp add: has_context_def)
      moreover have "task_at c ?s' \<noteq> None" unfolding exist' using home .
      moreover have "marked current c ?s'" "marked nxt c ?s'" unfolding marked' using mk by simp_all
      ultimately show ?thesis
        unfolding True using c nxt by (intro phase_okI) (simp_all add: m' cpus, blast?)
    next
      case False
      show ?thesis
        by (rule phase_ok_keep [OF phase_okD [OF ok]]) (simp_all add: m' cpus False context' exist' marked')
    qed
    fix slot t
    assume "task_at slot (mc_sched m') = Some t"
    then have t: "task_at slot ?s' = Some t" by (simp add: m')
    then obtain u where u: "task_at slot ?s = Some u"
      using exist' [of slot] by (cases "task_at slot ?s") auto
    note uok = task_okD [OF ok u]
    consider "slot = nxt" | "slot = current" | "slot \<noteq> nxt" "slot \<noteq> current" by blast
    then show "task_ok (mc_sched m') slot t"
    proof cases
      case 1
      then show ?thesis
        using uok t u target pick_next_cases [OF pick] c nxt(2)
        by (auto simp: task_ok_def m' at cpus retired_def takes_def can_run_def is_idle_slot_def split: if_splits)
    next
      case 2
      then show ?thesis
        using uok t u source nxt by (auto simp: task_ok_def m' at cpus retired_def split: if_splits)
    next
      case 3
      then have "t = u" using t u at by simp
      moreover have "current_on d ?s' = slot" if "ta_cpu u = Some d" "current_on d ?s = slot" for d
        using that 3(2) by (auto simp: cpus cur)
      ultimately show ?thesis
        using uok by (auto simp: task_ok_def m')
    qed
  qed
qed

section \<open>The exchange and its end\<close>

lemma leaving_facts:
  assumes "machine_ok m" and "mc_phase m c = Leaving from to tls"
  shows "previous_on c (mc_sched m) = Some from" "current_on c (mc_sched m) = to" "has_context to (mc_sched m)"
    "marked from c (mc_sched m)" "marked to c (mc_sched m)" "from \<noteq> to" "c < MAX_CPUS"
  using phase_okD [OF assms(1), of c] assms(2) by (auto simp: phase_ok_def Let_def)

lemma swapped_ok:
  assumes ok: "machine_ok m" and ph: "mc_phase m c = Leaving from to tls"
    and m': "mc_sched m' = change_task from (\<lambda>t. t\<lparr>ta_context := Some r\<rparr>) (mc_sched m)"
      "mc_phase m' = (mc_phase m)(c := Arrived)"
  shows "machine_ok m'"
proof -
  let ?s = "mc_sched m"
  let ?s' = "change_task from (\<lambda>t. t\<lparr>ta_context := Some r\<rparr>) ?s"
  note lf = leaving_facts [OF ok ph]
  have marked': "marked slot d ?s' = marked slot d ?s" for slot d
    by (auto simp: marked_def)
  have context': "has_context slot ?s \<Longrightarrow> has_context slot ?s'" for slot
    by (cases "task_at slot ?s") (auto simp: has_context_def)
  have fromc: "has_context from ?s'"
    using lf(4) by (auto simp: has_context_def marked_def)
  have cpus: "se_cpus ?s' = se_cpus ?s" by simp
  have cur: "current_on d ?s' = current_on d ?s" for d by (simp add: current_on_def)
  have exist': "task_at slot ?s' = None \<longleftrightarrow> task_at slot ?s = None" for slot by simp
  show ?thesis
  proof (rule machine_okI)
    show "length (se_tasks (mc_sched m')) = MAX_TASKS" "length (se_cpus (mc_sched m')) = MAX_CPUS"
      using machine_ok_lengths [OF ok] by (simp_all add: m')
    show "marks_ok m'"
      unfolding marks_ok_def Let_def m' cpus cur
    proof (intro allI impI, elim conjE)
      fix slot t d
      assume t: "task_at slot ?s' = Some t" "ta_cpu t = Some d"
      then obtain u where u: "task_at slot ?s = Some u" "ta_cpu u = Some d"
        by (auto split: if_splits)
      have off: "((mc_phase m)(c := Arrived)) d = Off \<longleftrightarrow> mc_phase m d = Off"
        using ph by simp
      show "d < MAX_CPUS \<and> (is_idle_slot slot \<longrightarrow> slot = d) \<and>
          (if ((mc_phase m)(c := Arrived)) d = Off then slot = d
           else slot = current_on d ?s \<or> previous_on d ?s = Some slot)"
        unfolding off by (rule marks_if [OF ok u])
    qed
    show "phase_ok m' d" for d
    proof (cases "d = c")
      case True
      show ?thesis
        unfolding True
      proof (rule phase_okI, unfold m' cpus cur marked' exist')
        show "task_at c ?s \<noteq> None" using current_marked [OF ok, of c] ph by simp
        show "is_idle_slot (current_on c ?s) \<Longrightarrow> current_on c ?s = c" using home_idle [OF ok, of c] ph by simp
      qed (use lf fromc in simp_all)
    next
      case False
      show ?thesis
      proof (rule phase_ok_keep [OF phase_okD [OF ok]], unfold m' cpus cur marked' exist')
        show "((mc_phase m)(c := Arrived)) d = mc_phase m d" using False by simp
      qed (use context' in simp_all)
    qed
    show "task_ok (mc_sched m') slot t" if t: "task_at slot (mc_sched m') = Some t" for slot t
    proof -
      obtain u where u: "task_at slot ?s = Some u" using t by (auto simp: m' split: if_splits)
      then show ?thesis
        using t task_okD [OF ok u] by (auto simp: task_ok_def m' cur retired_def split: if_splits)
    qed
  qed
qed

lemma finished_ok:
  assumes ok: "machine_ok m" and ph: "mc_phase m c = Arrived"
    and m': "mc_sched m' = finish_switch c (mc_sched m)" "mc_phase m' = (mc_phase m)(c := Steady)"
  shows "machine_ok m'"
proof -
  let ?s = "mc_sched m"
  have c: "c < MAX_CPUS" "c < length (se_cpus ?s)" and home: "task_at c ?s \<noteq> None"
    and mk: "marked (current_on c ?s) c ?s"
    using current_marked [OF ok, of c] ph by (simp_all add: machine_ok_lengths [OF ok])
  obtain p where p: "previous_on c ?s = Some p" "has_context p ?s" "p \<noteq> current_on c ?s" "marked p c ?s"
    using phase_okD [OF ok, of c] ph by (auto simp: phase_ok_def Let_def)
  let ?s' = "change_task p (\<lambda>t. t\<lparr>ta_cpu := None\<rparr>) (change_cpu c (\<lambda>p. p\<lparr>cp_previous := None\<rparr>) ?s)"
  have s': "finish_switch c ?s = ?s'" by (simp add: finish_switch_def p(1))
  have cur: "current_on d ?s' = current_on d ?s" for d
    using c by (simp add: current_on_def change_cpu_at)
  have prev: "previous_on d ?s' = (if d = c then None else previous_on d ?s)" for d
    using c by (simp add: change_cpu_at)
  have marked': "marked slot d ?s' \<longleftrightarrow> marked slot d ?s \<and> slot \<noteq> p" for slot d
    by (auto simp: marked_def)
  have context': "has_context slot ?s' = has_context slot ?s" for slot
    by (cases "task_at slot ?s") (auto simp: has_context_def)
  have exist': "task_at slot ?s' = None \<longleftrightarrow> task_at slot ?s = None" for slot by simp
  have other: "slot \<noteq> p" if "marked slot d ?s" "d \<noteq> c" for slot d
    using that p(4) marked_unique by metis
  show ?thesis
  proof (rule machine_okI)
    show "length (se_tasks (mc_sched m')) = MAX_TASKS" "length (se_cpus (mc_sched m')) = MAX_CPUS"
      using machine_ok_lengths [OF ok] by (simp_all add: m' s')
    show "marks_ok m'"
      unfolding marks_ok_def Let_def m' s' cur prev
    proof (intro allI impI, elim conjE)
      fix slot t d
      assume t: "task_at slot ?s' = Some t" "ta_cpu t = Some d"
      then have "slot \<noteq> p" and "marked slot d ?s" using marked' [of slot d] by (simp_all add: marked_def)
      then obtain u where u: "task_at slot ?s = Some u" "ta_cpu u = Some d" by (auto simp: marked_def)
      show "d < MAX_CPUS \<and> (is_idle_slot slot \<longrightarrow> slot = d) \<and>
          (if ((mc_phase m)(c := Steady)) d = Off then slot = d
           else slot = current_on d ?s \<or> (if d = c then None else previous_on d ?s) = Some slot)"
      proof (cases "d = c")
        case True
        then have "slot = current_on c ?s \<or> previous_on c ?s = Some slot"
          using marks_okD(4) [OF ok u] ph by simp
        then have "slot = current_on c ?s" using p(1) \<open>slot \<noteq> p\<close> by simp
        then show ?thesis using marks_okD(1,2) [OF ok u] True by simp
      next
        case False
        then have e: "((mc_phase m)(c := Steady)) d = mc_phase m d" by simp
        show ?thesis
          unfolding e if_not_P [OF False] by (rule marks_if [OF ok u])
      qed
    qed
    show "phase_ok m' d" for d
    proof (cases "d = c")
      case True
      show ?thesis
        unfolding True
      proof (rule phase_okI, unfold m' s' cur prev marked' exist')
        show "is_idle_slot (current_on c ?s) \<Longrightarrow> current_on c ?s = c" using home_idle [OF ok, of c] ph by simp
      qed (use c home mk p(3) in simp_all)
    next
      case False
      show ?thesis
      proof (rule phase_ok_keep [OF phase_okD [OF ok]], unfold m' s' cur prev marked' context' exist')
        show "marked slot d ?s \<and> slot \<noteq> p" if "marked slot d ?s" for slot
          using that other [OF _ False] by blast
      qed (use False in simp_all)
    qed
    show "task_ok (mc_sched m') slot t" if t: "task_at slot (mc_sched m') = Some t" for slot t
    proof (cases "slot = p")
      case False
      then have "task_at slot ?s = Some t" using t by (simp add: m' s')
      from task_okD [OF ok this] show ?thesis by (auto simp: task_ok_def m' s' cur)
    next
      case True
      obtain u where u: "task_at p ?s = Some u" "t = u\<lparr>ta_cpu := None\<rparr>" "ta_cpu u = Some c"
        using t p(4) by (auto simp: m' s' True marked_def)
      have "ta_state u \<noteq> Running"
        using task_okD [OF ok u(1)] u(3) p(3) by (auto simp: task_ok_def)
      moreover have "ta_context u \<noteq> None" using p(2) u(1) by (simp add: has_context_def)
      ultimately show ?thesis
        using task_okD [OF ok u(1)] u(2,3) True by (auto simp: task_ok_def retired_def)
    qed
  qed
qed

section \<open>New tasks and new processors\<close>

text \<open>A slot that no live processor uses is given another task.\<close>

lemma put_ok:
  assumes ok: "machine_ok m" and ph: "mc_phase m' = mc_phase m"
    and len: "length (se_tasks (mc_sched m')) = MAX_TASKS" "length (se_cpus (mc_sched m')) = MAX_CPUS"
    and cur: "\<And>d. current_on d (mc_sched m') = current_on d (mc_sched m)"
    and prev: "\<And>d. previous_on d (mc_sched m') = previous_on d (mc_sched m)"
    and other: "\<And>j. j \<noteq> i \<Longrightarrow> task_at j (mc_sched m') = task_at j (mc_sched m)"
    and unused: "\<And>c. mc_phase m c \<noteq> Off \<Longrightarrow> \<not> marked i c (mc_sched m) \<and> i \<noteq> c"
    and new: "\<And>t. task_at i (mc_sched m') = Some t \<Longrightarrow>
      task_ok (mc_sched m') i t \<and> (ta_cpu t = None \<and> MAX_CPUS \<le> i \<or> ta_cpu t = Some i \<and> i < MAX_CPUS \<and> mc_phase m i = Off)"
  shows "machine_ok m'"
proof (rule machine_okI [OF len])
  let ?s = "mc_sched m"
  show "marks_ok m'"
    unfolding marks_ok_def Let_def ph cur prev
  proof (intro allI impI, elim conjE)
    fix slot t c
    assume t: "task_at slot (mc_sched m') = Some t" "ta_cpu t = Some c"
    show "c < MAX_CPUS \<and> (is_idle_slot slot \<longrightarrow> slot = c) \<and>
        (if mc_phase m c = Off then slot = c else slot = current_on c ?s \<or> previous_on c ?s = Some slot)"
    proof (cases "slot = i")
      case True
      then show ?thesis using new [of t] t by simp
    next
      case False
      then have "task_at slot ?s = Some t" using t other by simp
      from marks_if [OF ok this t(2)] show ?thesis .
    qed
  qed
  show "phase_ok m' d" for d
  proof (cases "mc_phase m d = Off")
    case True
    have "task_at d (mc_sched m') \<noteq> None \<longrightarrow> marked d d (mc_sched m')" if "d < MAX_CPUS"
    proof (cases "d = i")
      case same: True
      show ?thesis using new that unfolding same by (fastforce simp: marked_def)
    next
      case False
      then show ?thesis
        using phase_okD [OF ok, of d] True that other by (simp add: phase_ok_def Let_def marked_def)
    qed
    then show ?thesis
      using phase_okD [OF ok, of d] True by (simp add: phase_ok_def Let_def ph cur prev)
  next
    case False
    have away: "slot \<noteq> i" if "marked slot d ?s" for slot
      using that unused [OF False] by blast
    have same: "task_at slot (mc_sched m') = task_at slot ?s" if "marked slot d ?s" for slot
      using other away that by blast
    show ?thesis
    proof (rule phase_ok_keep [OF phase_okD [OF ok]])
      show "task_at d (mc_sched m') = None \<longleftrightarrow> task_at d ?s = None"
        using other unused [OF False] by metis
      show "marked slot d (mc_sched m')" if "marked slot d ?s" for slot
        using that same [OF that] by (simp add: marked_def)
      show "has_context slot (mc_sched m')" if "marked slot d ?s" "has_context slot ?s" for slot
        using that(2) same [OF that(1)] by (simp add: has_context_def)
    qed (simp_all add: ph cur prev)
  qed
  show "task_ok (mc_sched m') slot t" if t: "task_at slot (mc_sched m') = Some t" for slot t
  proof (cases "slot = i")
    case True
    then show ?thesis using new t by simp
  next
    case False
    then have "task_at slot ?s = Some t" using t other by simp
    from task_okD [OF ok this] show ?thesis by (simp add: task_ok_def cur)
  qed
qed

text \<open>What tasks in other slots see does not change.\<close>

lemma put_views:
  assumes ph: "mc_phase m' = mc_phase m" and cores: "mc_cores m' = mc_cores m"
    and cur: "\<And>d. current_on d (mc_sched m') = current_on d (mc_sched m)"
    and other: "\<And>j. j \<noteq> i \<Longrightarrow> task_at j (mc_sched m') = task_at j (mc_sched m)"
    and ok: "machine_ok m" and unused: "\<And>c. mc_phase m c \<noteq> Off \<Longrightarrow> \<not> marked i c (mc_sched m)"
  shows "task_regs m' = (task_regs m)(i := saved_regs m' i)"
    and "task_vectors m' = (task_vectors m)(i := saved_vectors m' i)"
proof -
  have own: "regs_owner m' = regs_owner m" "vectors_owner m' = vectors_owner m"
    by (auto simp: fun_eq_iff regs_owner_def vectors_owner_def ph cur split: phase.splits)
  have live: "mc_phase m c \<noteq> Off" if "regs_owner m c = Some slot \<or> vectors_owner m c = Some slot" for c slot
    using that by (auto simp: regs_owner_def vectors_owner_def)
  have none: "regs_owner m c \<noteq> Some i" "vectors_owner m c \<noteq> Some i" for c
    using live unused owner_marked [OF ok] by blast+
  have saved: "saved_regs m' j = saved_regs m j" "saved_vectors m' j = saved_vectors m j" if "j \<noteq> i" for j
    using other [OF that] by (simp_all add: saved_regs_def saved_vectors_def)
  show "task_regs m' = (task_regs m)(i := saved_regs m' i)"
  proof
    fix slot
    show "task_regs m' slot = ((task_regs m)(i := saved_regs m' i)) slot"
      by (cases "slot = i") (simp_all add: task_regs_off own none, simp add: task_regs_def own cores saved cong: option.case_cong)
  qed
  show "task_vectors m' = (task_vectors m)(i := saved_vectors m' i)"
  proof
    fix slot
    show "task_vectors m' slot = ((task_vectors m)(i := saved_vectors m' i)) slot"
      by (cases "slot = i") (simp_all add: task_vectors_off own none, simp add: task_vectors_def own cores saved cong: option.case_cong)
  qed
qed

lemma free_task_slot_facts:
  assumes "free_task_slot s = Some slot"
  shows "MAX_CPUS \<le> slot \<and> slot < MAX_TASKS \<and> (\<forall>t. task_at slot s = Some t \<longrightarrow> retired t)"
  using assms
  by (auto simp: free_task_slot_def find_range_Some split: option.splits dest!: min_by_key_Some)

lemma spawn_raw_born:
  assumes "spawn_raw c name bytes entry arg heap boxed fpu mk s = (Inr ident, s')"
    and "free_task_slot s = Some slot" and "stack_allocate bytes heap = Some stk"
    and "length (se_tasks s) = MAX_TASKS"
  shows "task_at slot s' = Some ((task_new ident name stk (mk (stack_top stk) slot) fpu)
      \<lparr>ta_entry := Some entry, ta_arg := arg\<rparr>)"
    and "\<And>j. j \<noteq> slot \<Longrightarrow> task_at j s' = task_at j s" and "se_cpus s' = se_cpus s"
    and "length (se_tasks s') = MAX_TASKS" and "ident = se_next_id s"
  using assms free_task_slot_facts [OF assms(2)]
  by (auto simp: spawn_raw_def Let_def task_at_def split: if_splits)

lemma born_ok:
  assumes ok: "machine_ok m" and sp: "spawn_raw c name bytes entry arg heap boxed fpu mk (mc_sched m) = (Inr ident, s')"
    and free: "free_task_slot (mc_sched m) = Some slot" and stk: "stack_allocate bytes heap = Some stk"
  shows "machine_ok (m\<lparr>mc_sched := s'\<rparr>)"
    and "task_regs (m\<lparr>mc_sched := s'\<rparr>) = (task_regs m)(slot := Some (mk (stack_top stk) slot))"
    and "task_vectors (m\<lparr>mc_sched := s'\<rparr>) = (task_vectors m)(slot := fpu)"
proof -
  note born = spawn_raw_born [OF sp free stk machine_ok_lengths(1) [OF ok]]
  have free': "\<not> marked slot d (mc_sched m)" for d
    using free_task_slot_facts [OF free] by (auto simp: marked_def retired_def)
  have home: "slot \<noteq> d" if "mc_phase m d \<noteq> Off" for d
    using free_task_slot_facts [OF free] current_marked(2) [OF ok that] by simp
  show "machine_ok (m\<lparr>mc_sched := s'\<rparr>)"
  proof (rule put_ok [OF ok, where i = slot])
    fix t
    assume "task_at slot (mc_sched (m\<lparr>mc_sched := s'\<rparr>)) = Some t"
    then show "task_ok (mc_sched (m\<lparr>mc_sched := s'\<rparr>)) slot t \<and>
        (ta_cpu t = None \<and> MAX_CPUS \<le> slot \<or> ta_cpu t = Some slot \<and> slot < MAX_CPUS \<and> mc_phase m slot = Off)"
      using born(1) free_task_slot_facts [OF free] by (auto simp: task_ok_def task_new_def retired_def is_idle_slot_def)
  qed (use born machine_ok_lengths [OF ok] free' home in \<open>simp_all add: current_on_def\<close>)
  have views: "task_regs (m\<lparr>mc_sched := s'\<rparr>) = (task_regs m)(slot := saved_regs (m\<lparr>mc_sched := s'\<rparr>) slot)"
    "task_vectors (m\<lparr>mc_sched := s'\<rparr>) = (task_vectors m)(slot := saved_vectors (m\<lparr>mc_sched := s'\<rparr>) slot)"
    by (rule put_views; use born ok free' in \<open>simp add: current_on_def\<close>)+
  then show "task_regs (m\<lparr>mc_sched := s'\<rparr>) = (task_regs m)(slot := Some (mk (stack_top stk) slot))"
    "task_vectors (m\<lparr>mc_sched := s'\<rparr>) = (task_vectors m)(slot := fpu)"
    using born(1) by (simp_all add: saved_regs_def saved_vectors_def task_new_def)
qed

lemma boot_task:
  assumes ok: "machine_ok m" and off: "mc_phase m c = Off" and c: "c < MAX_CPUS"
    and e: "e = None \<or> (\<exists>stk. e = Some ((task_idle c)\<lparr>ta_stack := stk\<rparr>))"
    and s': "se_tasks s' = (se_tasks (mc_sched m))[c := e]"
      "\<And>d. current_on d s' = current_on d (mc_sched m)" "\<And>d. previous_on d s' = previous_on d (mc_sched m)"
      "length (se_cpus s') = MAX_CPUS"
  shows "machine_ok (m\<lparr>mc_sched := s'\<rparr>)"
    and "task_regs (m\<lparr>mc_sched := s'\<rparr>) = (task_regs m)(c := None)"
    and "task_vectors (m\<lparr>mc_sched := s'\<rparr>) = (task_vectors m)(c := None)"
proof -
  have big: "c < length (se_tasks (mc_sched m))"
    using c machine_ok_lengths(1) [OF ok] by (simp add: MAX_TASKS_def)
  have at: "task_at c s' = e" "\<And>j. j \<noteq> c \<Longrightarrow> task_at j s' = task_at j (mc_sched m)"
    using big by (simp_all add: task_at_def s'(1))
  have cur: "current_on c (mc_sched m) = c"
    using phase_okD [OF ok, of c] off c by (simp add: phase_ok_def Let_def)
  have unused: "\<not> marked c d (mc_sched m)" if "mc_phase m d \<noteq> Off" for d
  proof
    assume "marked c d (mc_sched m)"
    then obtain t where "task_at c (mc_sched m) = Some t" "ta_cpu t = Some d" by (auto simp: marked_def)
    from marks_okD(2) [OF ok this] c have "c = d" by (simp add: is_idle_slot_def)
    then show False using off that by simp
  qed
  show "machine_ok (m\<lparr>mc_sched := s'\<rparr>)"
  proof (rule put_ok [OF ok, where i = c])
    fix t
    assume "task_at c (mc_sched (m\<lparr>mc_sched := s'\<rparr>)) = Some t"
    then show "task_ok (mc_sched (m\<lparr>mc_sched := s'\<rparr>)) c t \<and>
        (ta_cpu t = None \<and> MAX_CPUS \<le> c \<or> ta_cpu t = Some c \<and> c < MAX_CPUS \<and> mc_phase m c = Off)"
      using at(1) e c off s'(2) cur by (auto simp: task_ok_def task_idle_def is_idle_slot_def)
  qed (use at(2) s' machine_ok_lengths [OF ok] unused off in auto)
  have views: "task_regs (m\<lparr>mc_sched := s'\<rparr>) = (task_regs m)(c := saved_regs (m\<lparr>mc_sched := s'\<rparr>) c)"
    "task_vectors (m\<lparr>mc_sched := s'\<rparr>) = (task_vectors m)(c := saved_vectors (m\<lparr>mc_sched := s'\<rparr>) c)"
    by (rule put_views; use at(2) s' ok unused in simp)+
  then show "task_regs (m\<lparr>mc_sched := s'\<rparr>) = (task_regs m)(c := None)"
    "task_vectors (m\<lparr>mc_sched := s'\<rparr>) = (task_vectors m)(c := None)"
    using at(1) e by (auto simp: saved_regs_def saved_vectors_def task_idle_def)
qed

text \<open>A processor begins with its idle task, which was waiting for it.\<close>

lemma idle_waiting:
  assumes ok: "machine_ok m" and off: "mc_phase m c = Off" and c: "c < MAX_CPUS"
    and ex: "task_at c (mc_sched m) \<noteq> None"
    and m': "mc_sched m' = mc_sched m" "mc_phase m' = (mc_phase m)(c := Steady)" "mc_cores m' = mc_cores m"
  shows "machine_ok m'" and "task_regs m' = (task_regs m)(c := Some (co_regs (mc_cores m c)))"
    and "task_vectors m' = (task_vectors m)(c := if saved_vectors m c = None then None
        else Some (co_vectors (mc_cores m c)))"
proof -
  let ?s = "mc_sched m"
  have cur: "current_on c ?s = c" "previous_on c ?s = None" and mk: "marked c c ?s"
    using phase_okD [OF ok, of c] off c ex by (simp_all add: phase_ok_def Let_def)
  show ok': "machine_ok m'"
  proof (rule machine_okI)
    show "length (se_tasks (mc_sched m')) = MAX_TASKS" "length (se_cpus (mc_sched m')) = MAX_CPUS"
      using machine_ok_lengths [OF ok] by (simp_all add: m')
    show "marks_ok m'"
      unfolding marks_ok_def Let_def m'
    proof (intro allI impI, elim conjE)
      fix slot u d
      assume u: "task_at slot ?s = Some u" "ta_cpu u = Some d"
      show "d < MAX_CPUS \<and> (is_idle_slot slot \<longrightarrow> slot = d) \<and> (if ((mc_phase m)(c := Steady)) d = Off then slot = d
          else slot = current_on d ?s \<or> previous_on d ?s = Some slot)"
      proof (cases "d = c")
        case True
        then have "slot = c" using marks_okD(3) [OF ok u] off by simp
        then show ?thesis using True c cur by simp
      next
        case False
        then have e: "((mc_phase m)(c := Steady)) d = mc_phase m d" by simp
        show ?thesis unfolding e by (rule marks_if [OF ok u])
      qed
    qed
    show "phase_ok m' d" for d
    proof (cases "d = c")
      case True
      show ?thesis
        unfolding True using c cur ex mk by (intro phase_okI) (simp_all add: m')
    next
      case False
      show ?thesis
        by (rule phase_ok_keep [OF phase_okD [OF ok]]) (simp_all add: m' False)
    qed
  qed (use task_okD [OF ok] in \<open>simp add: m'\<close>)
  have own: "regs_owner m' d = (if d = c then Some c else regs_owner m d)"
    "vectors_owner m' d = (if d = c then Some c else vectors_owner m d)" for d
    by (auto simp: regs_owner_def vectors_owner_def m' cur split: phase.splits)
  have saved: "saved_regs m' = saved_regs m" "saved_vectors m' = saved_vectors m"
    by (auto simp: fun_eq_iff saved_regs_def saved_vectors_def m')
  have none: "regs_owner m c = None" "vectors_owner m c = None"
    using off by (simp_all add: regs_owner_def vectors_owner_def)
  show "task_regs m' = (task_regs m)(c := Some (co_regs (mc_cores m c)))"
  proof
    fix slot
    show "task_regs m' slot = ((task_regs m)(c := Some (co_regs (mc_cores m c)))) slot"
    proof (cases "slot = c")
      case True
      then show ?thesis using task_regs_on [OF ok', of c c] own by (simp add: m')
    next
      case False
      then have "(\<lambda>d. regs_owner m' d = Some slot) = (\<lambda>d. regs_owner m d = Some slot)"
        by (auto simp: fun_eq_iff own none split: if_splits)
      then show ?thesis using False by (simp add: task_regs_def saved m' cong: option.case_cong)
    qed
  qed
  show "task_vectors m' = (task_vectors m)(c := if saved_vectors m c = None then None
      else Some (co_vectors (mc_cores m c)))"
  proof
    fix slot
    show "task_vectors m' slot = ((task_vectors m)(c := if saved_vectors m c = None then None
      else Some (co_vectors (mc_cores m c)))) slot"
    proof (cases "slot = c")
      case True
      then show ?thesis using task_vectors_on [OF ok', of c c] own by (simp add: m' saved)
    next
      case False
      then have "(\<lambda>d. vectors_owner m' d = Some slot) = (\<lambda>d. vectors_owner m d = Some slot)"
        by (auto simp: fun_eq_iff own none split: if_splits)
      then show ?thesis using False by (simp add: task_vectors_def saved m' cong: option.case_cong)
    qed
  qed
qed

section \<open>Every step\<close>

lemma task_regs_other:
  assumes "machine_ok m" and "machine_ok m'" and "regs_owner m c \<noteq> Some slot" and "regs_owner m' c \<noteq> Some slot"
    and "\<And>d. d \<noteq> c \<Longrightarrow> regs_owner m' d = regs_owner m d \<and> co_regs (mc_cores m' d) = co_regs (mc_cores m d)"
    and "saved_regs m' slot = saved_regs m slot"
  shows "task_regs m' slot = task_regs m slot"
proof (cases "\<exists>d. regs_owner m d = Some slot")
  case True
  then obtain d where d: "regs_owner m d = Some slot" "d \<noteq> c" using assms(3) by metis
  have d': "regs_owner m' d = Some slot" using assms(5) [OF d(2)] d(1) by simp
  show ?thesis
    using task_regs_on [OF assms(1) d(1)] task_regs_on [OF assms(2) d'] assms(5) [OF d(2)] by simp
next
  case False
  then have "regs_owner m' d \<noteq> Some slot" for d using assms(4,5) by (cases "d = c") auto
  then show ?thesis using False assms(6) by (simp add: task_regs_off)
qed

lemma task_vectors_other:
  assumes "machine_ok m" and "machine_ok m'" and "vectors_owner m c \<noteq> Some slot" and "vectors_owner m' c \<noteq> Some slot"
    and "\<And>d. d \<noteq> c \<Longrightarrow> vectors_owner m' d = vectors_owner m d \<and> co_vectors (mc_cores m' d) = co_vectors (mc_cores m d)"
    and "saved_vectors m' slot = saved_vectors m slot"
  shows "task_vectors m' slot = task_vectors m slot"
proof (cases "\<exists>d. vectors_owner m d = Some slot")
  case True
  then obtain d where d: "vectors_owner m d = Some slot" "d \<noteq> c" using assms(3) by metis
  have d': "vectors_owner m' d = Some slot" using assms(5) [OF d(2)] d(1) by simp
  show ?thesis
    using task_vectors_on [OF assms(1) d(1)] task_vectors_on [OF assms(2) d'] assms(5) [OF d(2)] assms(6) by simp
next
  case False
  then have "vectors_owner m' d \<noteq> Some slot" for d using assms(4,5) by (cases "d = c") auto
  then show ?thesis using False assms(6) by (simp add: task_vectors_off)
qed

lemma owner_unique:
  assumes "machine_ok m"
  shows "regs_owner m c = Some slot \<Longrightarrow> regs_owner m d = Some slot \<Longrightarrow> d = c"
    and "vectors_owner m c = Some slot \<Longrightarrow> vectors_owner m d = Some slot \<Longrightarrow> d = c"
  using owner_marked [OF assms] marked_unique by blast+

text \<open>What a step means to the registers the tasks see.\<close>

definition seen :: "'r event \<Rightarrow> 'r machine \<Rightarrow> 'r machine \<Rightarrow> bool" where
  "seen e m m' =
     (case e of
        Compute c r v \<Rightarrow>
          (case regs_owner m c of None \<Rightarrow> False
           | Some slot \<Rightarrow> task_regs m' = (task_regs m)(slot := Some r)) \<and>
          (case vectors_owner m c of None \<Rightarrow> False
           | Some slot \<Rightarrow> task_vectors m' = (task_vectors m)(slot := if task_vectors m slot = None then None else Some v))
      | Born slot r f \<Rightarrow> task_regs m' = (task_regs m)(slot := Some r) \<and> task_vectors m' = (task_vectors m)(slot := f)
      | Online c \<Rightarrow> task_regs m' = (task_regs m)(c := Some (co_regs (mc_cores m c))) \<and>
                   task_vectors m' = (task_vectors m)(c := None)
      | Reset c \<Rightarrow> task_regs m' = (task_regs m)(c := None) \<and> task_vectors m' = (task_vectors m)(c := None)
      | Hidden \<Rightarrow> task_regs m' = task_regs m \<and> task_vectors m' = task_vectors m)"

lemma machine_ok_cong:
  assumes "mc_sched m' = mc_sched m" and "mc_phase m' = mc_phase m"
  shows "machine_ok m' = machine_ok m"
  using assms by (simp add: machine_ok_def marks_ok_def phase_ok_def)

lemma compute_seen:
  assumes ok: "machine_ok m" and live: "mc_phase m c \<noteq> Off"
    and m': "m' = m\<lparr>mc_cores := (mc_cores m)(c := (mc_cores m c)\<lparr>co_regs := r, co_vectors := v\<rparr>)\<rparr>"
  shows "seen (Compute c r v) m m'"
proof -
  have ok': "machine_ok m'" using ok machine_ok_cong [of m' m] by (simp add: m')
  have own: "regs_owner m' = regs_owner m" "vectors_owner m' = vectors_owner m"
    by (simp_all add: fun_eq_iff regs_owner_def vectors_owner_def m' cong: phase.case_cong)
  have saved: "saved_regs m' = saved_regs m" "saved_vectors m' = saved_vectors m"
    by (simp_all add: fun_eq_iff saved_regs_def saved_vectors_def m')
  obtain i j where i: "regs_owner m c = Some i" and j: "vectors_owner m c = Some j"
    using live by (cases "mc_phase m c") (auto simp: regs_owner_def vectors_owner_def)
  have "task_regs m' slot = ((task_regs m)(i := Some r)) slot" for slot
  proof (cases "slot = i")
    case True
    then show ?thesis using task_regs_on [OF ok', of c i] i own by (simp add: m')
  next
    case False
    then show ?thesis
      using task_regs_other [OF ok ok', of c slot] i own saved by (simp add: m')
  qed
  moreover have "task_vectors m' slot =
      ((task_vectors m)(j := if task_vectors m j = None then None else Some v)) slot" for slot
  proof (cases "slot = j")
    case True
    then show ?thesis
      using task_vectors_on [OF ok', of c j] task_vectors_on [OF ok, of c j] j own saved by (simp add: m')
  next
    case False
    then show ?thesis
      using task_vectors_other [OF ok ok', of c slot] j own saved by (simp add: m')
  qed
  ultimately show ?thesis using i j by (simp add: seen_def fun_eq_iff)
qed

lemma tame_hidden:
  assumes ok: "machine_ok m" and t: "tame (mc_sched m) (mc_sched m')" and ph: "mc_phase m' = mc_phase m"
    and cores: "\<And>d. co_regs (mc_cores m' d) = co_regs (mc_cores m d) \<and> co_vectors (mc_cores m' d) = co_vectors (mc_cores m d)"
  shows "machine_ok m' \<and> seen Hidden m m'"
  using tame_machine_ok [OF ok t ph refl] tame_views [OF t ph cores] by (simp add: seen_def)

lemma decide_hidden:
  assumes ok: "machine_ok m" and st: "mc_phase m c = Steady"
    and sw: "schedule_with why c now later (mc_cores m c) (mc_sched m) = (Switch from to tls, co, s')"
    and eq: "m' = m\<lparr>mc_sched := s', mc_cores := (mc_cores m)(c := co), mc_phase := (mc_phase m)(c := Leaving from to tls)\<rparr>"
  shows "machine_ok m' \<and> seen Hidden m m'"
proof -
  have m': "mc_sched m' = s'" "mc_cores m' = (mc_cores m)(c := co)"
    "mc_phase m' = (mc_phase m)(c := Leaving from to tls)"
    by (simp_all add: eq)
  let ?m1 = "m\<lparr>mc_sched := tidied now (mc_sched m)\<rparr>"
  let ?t = "tidied now (mc_sched m)"
  have first: "machine_ok ?m1 \<and> seen Hidden m ?m1"
    by (rule tame_hidden [OF ok]) (simp_all add: tame_tidied)
  then have ok1: "machine_ok ?m1" and views1: "task_regs ?m1 = task_regs m" "task_vectors ?m1 = task_vectors m"
    by (simp_all add: seen_def)
  obtain source target where sched: "from = current_on c (mc_sched m)" "pick_next c ?t = Some to"
      "task_at from ?t = Some source" "task_at to ?t = Some target" "tls = ta_tls target"
      "co = load_machine target (mc_cores m c)"
      "s' = commit_switch why c later from to (co_vectors (mc_cores m c)) ?t"
    using schedule_Switch [OF sw] by metis
  have cur: "from = current_on c (mc_sched ?m1)"
    by (simp add: sched(1) tame_same(2) [OF tame_tidied])
  have ok': "machine_ok m'"
    by (rule decided_ok [OF ok1 _ cur]) (use st sched m' in simp_all)
  have free: "to \<noteq> from" "ta_cpu target = None"
    using pick_next_free [OF ok1, of c to] st sched(2,4) cur by simp_all
  have c: "c < length (se_cpus ?t)"
    using machine_ok_lengths(2) [OF ok1] current_marked(2) [OF ok1, of c] st by simp
  note at = commit_task_at [OF free(1), of _ why c later "co_vectors (mc_cores m c)" ?t]
  note cpus = commit_cpus [OF c]
  have own: "regs_owner m' d = regs_owner ?m1 d" for d
    using st cur by (simp add: regs_owner_def m' sched(7) cpus cong: phase.case_cong)
  have vown: "vectors_owner m' d = (if d = c then Some to else vectors_owner ?m1 d)" for d
    by (simp add: vectors_owner_def m' sched(7) cpus)
  have vown1: "vectors_owner ?m1 c = Some from" using st cur by (simp add: vectors_owner_def)
  have regs: "task_regs m' = task_regs ?m1"
  proof (rule task_regs_same)
    show "saved_regs m' slot = saved_regs ?m1 slot" for slot
      by (cases "task_at slot ?t") (auto simp: saved_regs_def m' sched(7) at)
  qed (auto simp: own m' sched(6) load_machine_def)
  have vectors: "task_vectors m' slot = task_vectors ?m1 slot" for slot
  proof -
    consider "slot = to" | "slot = from" | "slot \<noteq> to" "slot \<noteq> from" by blast
    then show ?thesis
    proof cases
      case 1
      have none: "vectors_owner ?m1 d \<noteq> Some to" for d
        using owner_marked(2) [OF ok1, of d to] sched(4) free(2) by (auto simp: marked_def)
      have "task_vectors m' to = (if saved_vectors m' to = None then None else Some (co_vectors co))"
        using task_vectors_on [OF ok', of c to] vown by (simp add: m')
      also have "\<dots> = ta_fpu target"
        using sched(4) by (simp add: saved_vectors_def m' sched(6,7) at load_machine_def split: option.splits)
      finally show ?thesis
        using none sched(4) by (simp add: 1 task_vectors_off saved_vectors_def)
    next
      case 2
      have "vectors_owner m' d \<noteq> Some from" for d
        using owner_unique(2) [OF ok1 vown1, of d] vown [of d] free(1) by auto
      then have "task_vectors m' from = saved_vectors m' from" by (rule task_vectors_off)
      also have "\<dots> = task_vectors ?m1 from"
        using task_vectors_on [OF ok1 vown1] sched(3) free(1) by (simp add: saved_vectors_def m' sched(7) at)
      finally show ?thesis by (simp add: 2)
    next
      case 3
      show ?thesis
      proof (rule task_vectors_other [OF ok1 ok', of c])
        show "saved_vectors m' slot = saved_vectors ?m1 slot"
          using 3 by (simp add: saved_vectors_def m' sched(7) at)
      qed (use 3 vown vown1 in \<open>auto simp: m'\<close>)
    qed
  qed
  show ?thesis using ok' regs vectors views1 by (simp add: seen_def fun_eq_iff)
qed

lemma swap_hidden:
  assumes ok: "machine_ok m" and ph: "mc_phase m c = Leaving from to tls"
    and sw: "swap_context from to tls (mc_cores m c) (mc_sched m) = Some (co, s')"
    and eq: "m' = m\<lparr>mc_sched := s', mc_cores := (mc_cores m)(c := co), mc_phase := (mc_phase m)(c := Arrived)\<rparr>"
  shows "machine_ok m' \<and> seen Hidden m m'"
proof -
  have m': "mc_sched m' = s'" "mc_cores m' = (mc_cores m)(c := co)" "mc_phase m' = (mc_phase m)(c := Arrived)"
    by (simp_all add: eq)
  let ?s = "mc_sched m"
  note lf = leaving_facts [OF ok ph]
  obtain r where r: "Option.bind (task_at to ?s) ta_context = Some r"
      "co = (mc_cores m c)\<lparr>co_tls := tls, co_regs := r\<rparr>"
      "s' = change_task from (\<lambda>t. t\<lparr>ta_context := Some (co_regs (mc_cores m c))\<rparr>) ?s"
    using sw by (auto simp: swap_context_def split: option.splits)
  have ok': "machine_ok m'" by (rule swapped_ok [OF ok ph]) (simp_all add: m' r(3))
  have cur: "current_on d s' = current_on d ?s" for d by (simp add: r(3) current_on_def)
  have own: "regs_owner m' d = (if d = c then Some to else regs_owner m d)" for d
    using lf(2) by (simp add: regs_owner_def m' cur cong: phase.case_cong)
  have own1: "regs_owner m c = Some from" by (simp add: regs_owner_def ph)
  have vown: "vectors_owner m' = vectors_owner m"
    using ph by (simp add: fun_eq_iff vectors_owner_def m' cur)
  obtain source where source: "task_at from ?s = Some source" using lf(4) by (auto simp: marked_def)
  have regs: "task_regs m' slot = task_regs m slot" for slot
  proof -
    consider "slot = to" | "slot = from" | "slot \<noteq> to" "slot \<noteq> from" by blast
    then show ?thesis
    proof cases
      case 1
      have "regs_owner m d \<noteq> Some to" for d
      proof
        assume to: "regs_owner m d = Some to"
        then have "d = c" using owner_marked(1) [OF ok to] lf(5) marked_unique by blast
        then show False using to own1 lf(6) by simp
      qed
      then have "task_regs m to = saved_regs m to" by (rule task_regs_off)
      then show ?thesis
        using task_regs_on [OF ok', of c to] own r(1,2) by (simp add: 1 m' saved_regs_def)
    next
      case 2
      have "regs_owner m' d \<noteq> Some from" for d
        using owner_unique(1) [OF ok own1, of d] own [of d] lf(6) by auto
      then have "task_regs m' from = saved_regs m' from" by (rule task_regs_off)
      then show ?thesis
        using task_regs_on [OF ok own1] source by (simp add: 2 saved_regs_def m' r(3))
    next
      case 3
      show ?thesis
      proof (rule task_regs_other [OF ok ok', of c])
        show "saved_regs m' slot = saved_regs m slot" using 3 by (simp add: saved_regs_def m' r(3))
      qed (use 3 own own1 in \<open>auto simp: m'\<close>)
    qed
  qed
  have "task_vectors m' = task_vectors m"
  proof (rule task_vectors_same)
    show "saved_vectors m' slot = saved_vectors m slot" for slot
      by (cases "task_at slot ?s") (auto simp: saved_vectors_def m' r(3))
  qed (auto simp: vown m' r(2))
  then show ?thesis using ok' regs by (simp add: seen_def fun_eq_iff)
qed

lemma finish_hidden:
  assumes ok: "machine_ok m" and ph: "mc_phase m c = Arrived"
    and eq: "m' = m\<lparr>mc_sched := finish_switch c (mc_sched m), mc_phase := (mc_phase m)(c := Steady)\<rparr>"
  shows "machine_ok m' \<and> seen Hidden m m'"
proof -
  have m': "mc_sched m' = finish_switch c (mc_sched m)" "mc_cores m' = mc_cores m"
    "mc_phase m' = (mc_phase m)(c := Steady)"
    by (simp_all add: eq)
  have ok': "machine_ok m'" by (rule finished_ok [OF ok ph]) (simp_all add: m')
  have c: "c < length (se_cpus (mc_sched m))"
    using current_marked(2) [OF ok, of c] ph machine_ok_lengths(2) [OF ok] by simp
  have cur: "current_on d (finish_switch c (mc_sched m)) = current_on d (mc_sched m)" for d
    using c by (auto simp: finish_switch_def current_on_def change_cpu_at split: option.splits)
  have own: "regs_owner m' = regs_owner m" "vectors_owner m' = vectors_owner m"
    using ph by (auto simp: fun_eq_iff regs_owner_def vectors_owner_def m' cur split: phase.splits)
  have saved: "saved_regs m' slot = saved_regs m slot" "saved_vectors m' slot = saved_vectors m slot" for slot
    by (cases "task_at slot (mc_sched m)";
        auto simp: saved_regs_def saved_vectors_def m' finish_switch_def split: option.splits)+
  have "task_regs m' = task_regs m" by (rule task_regs_same) (simp_all add: own saved m')
  moreover have "task_vectors m' = task_vectors m" by (rule task_vectors_same) (simp_all add: own saved m')
  ultimately show ?thesis using ok' by (simp add: seen_def)
qed

lemma idle_no_vectors:
  assumes "machine_ok m" and "is_idle_slot slot"
  shows "saved_vectors m slot = None" "task_vectors m slot = None"
proof -
  show "saved_vectors m slot = None"
    using task_okD [OF assms(1), of slot] assms(2)
    by (cases "task_at slot (mc_sched m)") (auto simp: saved_vectors_def task_ok_def)
  then show "task_vectors m slot = None" by (simp add: task_vectors_def)
qed

lemma online_seen:
  assumes ok: "machine_ok m" and "mc_phase m c = Off" and c: "c < MAX_CPUS" and "task_at c (mc_sched m) \<noteq> None"
    and m': "mc_sched m' = mc_sched m" "mc_phase m' = (mc_phase m)(c := Steady)" "mc_cores m' = mc_cores m"
  shows "machine_ok m' \<and> seen (Online c) m m'"
proof -
  have "saved_vectors m c = None" "task_vectors m c = None"
    using idle_no_vectors [OF ok, of c] c by (simp_all add: is_idle_slot_def)
  then show ?thesis
    using idle_waiting [OF assms] by (simp add: seen_def fun_upd_idem)
qed

lemma boot_seen:
  assumes ok: "machine_ok m" and off: "mc_phase m 0 = Off" and r: "run_start (mc_sched m) = Some s'"
    and m': "m' = m\<lparr>mc_sched := s', mc_phase := (mc_phase m)(0 := Steady)\<rparr>"
  shows "machine_ok m' \<and> seen (Online 0) m m'"
proof -
  let ?m1 = "m\<lparr>mc_sched := s'\<rparr>"
  have c: "0 < length (se_cpus (mc_sched m))" "0 < length (se_tasks (mc_sched m))" "(0::nat) < MAX_CPUS"
    using machine_ok_lengths [OF ok] by (simp_all add: MAX_CPUS_def MAX_TASKS_def)
  have cur: "current_on 0 (mc_sched m) = 0"
    using phase_okD [OF ok, of 0] off c(3) by (simp add: phase_ok_def Let_def)
  have s': "s' = change_cpu 0 (\<lambda>p. p\<lparr>cp_current := 0\<rparr>)
      ((mc_sched m)\<lparr>se_tasks := (se_tasks (mc_sched m))[0 := Some (task_idle 0)], se_running := True, se_ticking := True\<rparr>)"
    using r by (auto simp: run_start_def split: if_splits)
  have cpus: "current_on d s' = current_on d (mc_sched m)" "previous_on d s' = previous_on d (mc_sched m)" for d
    using c cur by (auto simp: s' current_on_def change_cpu_def nth_list_update)
  have tasks: "se_tasks s' = (se_tasks (mc_sched m))[0 := Some ((task_idle 0)\<lparr>ta_stack := None\<rparr>)]"
    "length (se_cpus s') = MAX_CPUS"
    by (simp_all add: s' task_idle_def machine_ok_lengths [OF ok])
  have e: "Some ((task_idle 0)\<lparr>ta_stack := None\<rparr>) = None \<or>
      (\<exists>stk. Some ((task_idle 0)\<lparr>ta_stack := None\<rparr>) = Some ((task_idle 0)\<lparr>ta_stack := stk\<rparr>))"
    by blast
  note boot = boot_task [OF ok off c(3) e tasks(1) cpus tasks(2)]
  have "machine_ok m' \<and> seen (Online 0) ?m1 m'"
  proof (rule online_seen [OF boot(1)])
    show "task_at 0 (mc_sched ?m1) \<noteq> None" using c by (simp add: tasks(1) task_at_def)
  qed (use off c in \<open>simp_all add: m'\<close>)
  then show ?thesis using boot(2,3) by (simp add: seen_def)
qed

lemma prepare_seen:
  assumes ok: "machine_ok m" and off: "mc_phase m c = Off"
    and p: "prepare_cpu c heap boxed (mc_sched m) = (Some top_address, s')"
  shows "machine_ok (m\<lparr>mc_sched := s'\<rparr>) \<and> seen (Reset c) m (m\<lparr>mc_sched := s'\<rparr>)"
proof -
  obtain stk where c: "c < MAX_CPUS" and s': "s' = change_cpu c (\<lambda>p. p\<lparr>cp_current := c\<rparr>)
      ((mc_sched m)\<lparr>se_tasks := (se_tasks (mc_sched m))[c := Some ((task_idle c)\<lparr>ta_stack := Some stk\<rparr>)]\<rparr>)"
    using p by (auto simp: prepare_cpu_def split: if_splits option.splits)
  have cur: "current_on c (mc_sched m) = c"
    using phase_okD [OF ok, of c] off c by (simp add: phase_ok_def Let_def)
  have cpus: "current_on d s' = current_on d (mc_sched m)" "previous_on d s' = previous_on d (mc_sched m)" for d
    using c cur machine_ok_lengths(2) [OF ok] by (auto simp: s' current_on_def change_cpu_def nth_list_update)
  have tasks: "se_tasks s' = (se_tasks (mc_sched m))[c := Some ((task_idle c)\<lparr>ta_stack := Some stk\<rparr>)]"
    "length (se_cpus s') = MAX_CPUS"
    by (simp_all add: s' machine_ok_lengths [OF ok])
  have e: "Some ((task_idle c)\<lparr>ta_stack := Some stk\<rparr>) = None \<or>
      (\<exists>k. Some ((task_idle c)\<lparr>ta_stack := Some stk\<rparr>) = Some ((task_idle c)\<lparr>ta_stack := k\<rparr>))"
    by blast
  show ?thesis
    using boot_task [OF ok off c e tasks(1) cpus tasks(2)] by (simp add: seen_def)
qed

lemma forget_seen:
  assumes ok: "machine_ok m" and off: "mc_phase m c = Off" and c: "0 < c" "c < MAX_CPUS"
  shows "machine_ok (m\<lparr>mc_sched := forget_cpu c (mc_sched m)\<rparr>) \<and>
    seen (Reset c) m (m\<lparr>mc_sched := forget_cpu c (mc_sched m)\<rparr>)"
proof -
  let ?s' = "forget_cpu c (mc_sched m)"
  have "machine_ok (m\<lparr>mc_sched := ?s'\<rparr>)" "task_regs (m\<lparr>mc_sched := ?s'\<rparr>) = (task_regs m)(c := None)"
    "task_vectors (m\<lparr>mc_sched := ?s'\<rparr>) = (task_vectors m)(c := None)"
    by (rule boot_task [OF ok off c(2), of None];
        use c in \<open>simp add: forget_cpu_def current_on_def machine_ok_lengths [OF ok]\<close>)+
  then show ?thesis by (simp add: seen_def)
qed

theorem machine_step_sound:
  assumes "machine_ok m" and "machine_step e m m'"
  shows "machine_ok m' \<and> seen e m m'"
  using assms(2,1)
proof cases
  case (compute c v r)
  have "machine_ok m'"
    using assms(1) machine_ok_cong [of m' m] by (simp add: compute(2))
  then show ?thesis using compute_seen [OF assms(1) compute(3) compute(2)] by (simp add: compute(1))
next
  case (call c s')
  have "tame (mc_sched m) s'"
  proof (rule tame_call [OF call(4)], rule impI)
    assume leave: "may_leave c (mc_sched m)"
    then have "\<not> is_idle_slot (current_on c (mc_sched m))" by (simp add: may_leave_def)
    then have "mc_phase m c \<noteq> Off"
      using phase_okD [OF assms(1), of c] call(3) by (auto simp: phase_ok_def Let_def is_idle_slot_def)
    then show "marked (current_on c (mc_sched m)) c (mc_sched m)" by (rule current_marked [OF assms(1)])
  qed
  then show ?thesis
    unfolding call(1) by (intro tame_hidden [OF assms(1)]) (simp_all add: call(2))
next
  case (tls c base co s')
  then show ?thesis
    unfolding tls(1) by (intro tame_hidden [OF assms(1)])
      (auto simp: set_current_tls_def tame_task_def intro!: tame_change)
next
  case (trap c stk co s')
  then show ?thesis
    unfolding trap(1) by (intro tame_hidden [OF assms(1)])
      (auto simp: remember_return_stack_def tame_task_def intro!: tame_change)
next
  case (stay c why now later co s')
  have "tame (mc_sched m) s'"
    by (rule tame_schedule_Stay [OF stay(4)]) (use current_marked [OF assms(1), of c] stay(3) in simp)
  then show ?thesis
    using schedule_Stay [OF stay(4)] unfolding stay(1) by (intro tame_hidden [OF assms(1)]) (simp_all add: stay(2))
next
  case (decide c why now later origin dest tls co s')
  then show ?thesis using decide_hidden [OF assms(1)] by simp
next
  case (swap c origin dest tls co s')
  then show ?thesis using swap_hidden [OF assms(1)] by simp
next
  case (finish c)
  then show ?thesis using finish_hidden [OF assms(1)] by simp
next
  case (born c name bytes entry arg heap boxed fpu mk ident s' slot stk)
  show ?thesis
    unfolding born(1,2) using born_ok [OF assms(1) born(4-6)] by (simp add: seen_def)
next
  case (prepare c heap boxed top_address s')
  then show ?thesis using prepare_seen [OF assms(1)] by simp
next
  case (forget c)
  then show ?thesis using forget_seen [OF assms(1)] by simp
next
  case (boot s')
  then show ?thesis using boot_seen [OF assms(1)] by simp
next
  case (online c)
  then show ?thesis using online_seen [OF assms(1), of c m'] by simp
qed

lemma machine_off_ok: "machine_ok (machine_off cores)"
proof -
  have none: "task_at slot sched_new = None" for slot
    by (simp add: task_at_def sched_new_def)
  have cpus: "current_on c sched_new = c" "previous_on c sched_new = None" if "c < MAX_CPUS" for c
    using that by (simp_all add: current_on_def sched_new_def)
  show ?thesis
    by (rule machine_okI)
      (simp_all add: machine_off_def none cpus marks_ok_def phase_ok_def, simp_all add: sched_new_def)
qed

lemma reachable_ok: "reachable m \<Longrightarrow> machine_ok m"
  by (induction rule: reachable.induct) (auto simp: machine_off_ok dest: machine_step_sound)

end
