(* ===== verification/Scheduling.thy ===== *)
theory Scheduling
  imports Machine
begin

text \<open>
  What the scheduler promises to tasks: registers of their own however they are moved between
  processors, a turn within one round of the table, no lost wake-up, and the exit code of the task
  they waited for.
\<close>

section \<open>Registers of their own\<close>

text \<open>
  C34. Switching is transparent.  In every reachable state of any number of processors up to eight,
  whatever a processor does changes only the registers of the task it holds, and a decision, an
  exchange of registers, the end of a switch and every call under the lock change no task's
  registers, general or vector: each task sees a register file of its own.  The vector registers
  are those of the tasks that have an area for them; for a task that got none, because memory was
  short, nothing is said of them.
\<close>

theorem switch_transparent:
  assumes "reachable m" and "machine_step e m m'"
  shows "seen e m m'"
  using machine_step_sound [OF reachable_ok [OF assms(1)] assms(2)] by blast

text \<open>
  C35. One processor per task.  In every reachable state no two processors hold the registers of
  one task; the stack of a task that a processor still uses has not been freed, even after the
  task has exited; the context a switch is about to load has been saved; and a task is called
  running exactly when some processor, and only one, is on it.
\<close>

theorem one_processor_per_task:
  assumes "reachable m"
  shows "(\<forall>c d slot. regs_owner m c = Some slot \<and> regs_owner m d = Some slot \<longrightarrow> c = d) \<and>
    (\<forall>c slot. regs_owner m c = Some slot \<or> vectors_owner m c = Some slot \<longrightarrow>
      (\<exists>t. task_at slot (mc_sched m) = Some t \<and> ta_cpu t = Some c \<and> (\<not> is_idle_slot slot \<longrightarrow> ta_stack t \<noteq> None))) \<and>
    (\<forall>c from to tls. mc_phase m c = Leaving from to tls \<longrightarrow>
      swap_context from to tls (mc_cores m c) (mc_sched m) \<noteq> None) \<and>
    (\<forall>slot t. task_at slot (mc_sched m) = Some t \<and> ta_state t = Running \<longrightarrow>
      (\<exists>!c. c < MAX_CPUS \<and> current_on c (mc_sched m) = slot))"
proof (intro conjI)
  note ok = reachable_ok [OF assms]
  show "\<forall>c d slot. regs_owner m c = Some slot \<and> regs_owner m d = Some slot \<longrightarrow> c = d"
    using owner_unique(1) [OF ok] by metis
  show "\<forall>c slot. regs_owner m c = Some slot \<or> vectors_owner m c = Some slot \<longrightarrow>
      (\<exists>t. task_at slot (mc_sched m) = Some t \<and> ta_cpu t = Some c \<and> (\<not> is_idle_slot slot \<longrightarrow> ta_stack t \<noteq> None))"
  proof (intro allI impI)
    fix c slot
    assume "regs_owner m c = Some slot \<or> vectors_owner m c = Some slot"
    then have "marked slot c (mc_sched m)" using owner_marked [OF ok] by blast
    then obtain t where t: "task_at slot (mc_sched m) = Some t" "ta_cpu t = Some c"
      by (auto simp: marked_def)
    then show "\<exists>t. task_at slot (mc_sched m) = Some t \<and> ta_cpu t = Some c \<and> (\<not> is_idle_slot slot \<longrightarrow> ta_stack t \<noteq> None)"
      using task_okD [OF ok t(1)] by (auto simp: task_ok_def retired_def)
  qed
  show "\<forall>c from to tls. mc_phase m c = Leaving from to tls \<longrightarrow>
      swap_context from to tls (mc_cores m c) (mc_sched m) \<noteq> None"
  proof (intro allI impI)
    fix c origin dest tls
    assume "mc_phase m c = Leaving origin dest tls"
    from leaving_facts(3) [OF ok this]
    show "swap_context origin dest tls (mc_cores m c) (mc_sched m) \<noteq> None"
      by (auto simp: has_context_def swap_context_def split: option.splits)
  qed
  show "\<forall>slot t. task_at slot (mc_sched m) = Some t \<and> ta_state t = Running \<longrightarrow>
      (\<exists>!c. c < MAX_CPUS \<and> current_on c (mc_sched m) = slot)"
  proof (intro allI impI, elim conjE)
    fix slot t
    assume t: "task_at slot (mc_sched m) = Some t" "ta_state t = Running"
    then obtain c where c: "ta_cpu t = Some c" "current_on c (mc_sched m) = slot"
      using task_okD [OF ok t(1)] by (auto simp: task_ok_def)
    have "d = c" if d: "d < MAX_CPUS" "current_on d (mc_sched m) = slot" for d
    proof -
      have "marked slot d (mc_sched m)"
        using phase_okD [OF ok, of d] d t(1) by (cases "mc_phase m d = Off") (auto simp: phase_ok_def Let_def)
      then show ?thesis using t(1) c(1) by (simp add: marked_def)
    qed
    then show "\<exists>!c. c < MAX_CPUS \<and> current_on c (mc_sched m) = slot"
      using c marks_okD(1) [OF ok t(1) c(1)] by blast
  qed
qed

subsection \<open>A machine in the middle of a switch\<close>

definition blank_core :: "nat core" where
  "blank_core = \<lparr>co_regs = 7, co_vectors = 0, co_trap_stack = 0, co_space = None, co_tls = 0\<rparr>"

definition example_stack :: stack where
  "example_stack = \<lparr>sk_base = 4096, sk_size = STACK_GUARD_SIZE + TASK_STACK_SIZE, sk_guard = paint_guard\<rparr>"

definition example_task :: "nat task" where
  "example_task = (task_new 1 ''alpha'' example_stack 42 (Some 5))\<lparr>ta_entry := Some 0, ta_arg := 0\<rparr>"

definition booted :: "nat sched" where
  "booted = sched_new\<lparr>se_tasks := (replicate MAX_TASKS None)[0 := Some (task_idle 0)], se_running := True, se_ticking := True\<rparr>"

definition with_task :: "nat sched" where
  "with_task = booted\<lparr>se_next_id := 2, se_tasks := (replicate MAX_TASKS None)[0 := Some (task_idle 0), 8 := Some example_task]\<rparr>"

lemma booted_at: "task_at i booted = (if i = 0 then Some (task_idle 0) else None)"
  by (simp add: task_at_def booted_def MAX_TASKS_def MAX_CPUS_def nth_list_update)

lemma with_task_at:
  "task_at i with_task = (if i = 8 then Some example_task else if i = 0 then Some (task_idle 0) else None)"
  by (simp add: task_at_def with_task_def MAX_TASKS_def MAX_CPUS_def nth_list_update)

lemma example_boot: "run_start sched_new = Some booted"
proof -
  have "(se_cpus sched_new)[0 := (se_cpus sched_new ! 0)\<lparr>cp_current := 0\<rparr>] = se_cpus sched_new"
    by (rule nth_equalityI) (simp_all add: sched_new_def nth_list_update)
  then show ?thesis
    by (simp add: run_start_def booted_def change_cpu_def) (simp add: sched_new_def)
qed

lemma example_born:
  "spawn_raw 0 ''alpha'' TASK_STACK_SIZE 0 0 (Some 4096) True (Some 5) (\<lambda>top slot. 42) booted = (Inr 1, with_task)"
  "free_task_slot booted = Some 8" "stack_allocate TASK_STACK_SIZE (Some 4096) = Some example_stack"
proof -
  show slot: "free_task_slot booted = Some 8"
  proof -
    have "find_range (\<lambda>i. task_at i booted = None) MAX_CPUS MAX_TASKS = Some 8"
      by (auto simp: find_range_Some booted_at MAX_CPUS_def MAX_TASKS_def)
    then show ?thesis by (simp add: free_task_slot_def)
  qed
  show stk: "stack_allocate TASK_STACK_SIZE (Some 4096) = Some example_stack"
    by (simp add: stack_allocate_def example_stack_def checked_add64_def layout_ok_def STACK_GUARD_SIZE_def
        STACK_PAGE_def TASK_STACK_SIZE_def STACK_ALIGN_def)
  have "(se_session booted)[8 := se_session booted ! current_on 0 booted] = se_session booted"
    by (rule nth_equalityI)
      (auto simp: booted_def sched_new_def current_on_def MAX_CPUS_def MAX_TASKS_def nth_list_update)
  then show "spawn_raw 0 ''alpha'' TASK_STACK_SIZE 0 0 (Some 4096) True (Some 5) (\<lambda>top slot. 42) booted = (Inr 1, with_task)"
    by (simp add: spawn_raw_def slot stk Let_def with_task_def example_task_def)
      (simp add: booted_def sched_new_def list_update_swap)
qed

lemma ring_0: "ring_after 0 = [1..<MAX_TASKS]"
  by (rule nth_equalityI) (simp_all add: ring_after_def)

lemma example_pick: "pick_next 0 with_task = Some 8"
proof -
  have cur: "current_on 0 with_task = 0"
    by (simp add: with_task_def booted_def sched_new_def current_on_def MAX_CPUS_def)
  have "find_range (takes (\<lambda>t. ta_boost t \<and> can_run t) with_task) 1 MAX_TASKS = None"
    by (auto simp: find_range_None takes_def with_task_at example_task_def task_new_def task_idle_def)
  moreover have "find_range (takes can_run with_task) 1 MAX_TASKS = Some 8"
    by (auto simp: find_range_Some takes_def with_task_at example_task_def task_new_def task_idle_def
        can_run_def is_idle_slot_def MAX_CPUS_def MAX_TASKS_def)
  ultimately show ?thesis
    by (simp add: pick_next_def cur ring_0 find_range_def)
qed

lemma example_tidied: "tidied 5 with_task = with_task"
proof -
  have "reap_entry i (task_at i with_task) = task_at i with_task" for i
    by (simp add: with_task_at reap_entry_def example_task_def task_new_def reapable_def retired_def task_idle_def)
  then have "reap_entry i (se_tasks with_task ! i) = se_tasks with_task ! i" if "i < length (se_tasks with_task)" for i
    using that by (metis task_at_def)
  then have "snd (reap with_task) = with_task"
    by (auto simp: reap_def nth_enumerate_eq intro!: sched.equality nth_equalityI)
  moreover have "map_option (wake_when (due 5)) (task_at i with_task) = task_at i with_task" for i
    by (simp add: with_task_at wake_when_def due_def example_task_def task_new_def task_idle_def)
  then have "map_option (wake_when (due 5)) (se_tasks with_task ! i) = se_tasks with_task ! i"
    if "i < length (se_tasks with_task)" for i
    using that by (metis task_at_def)
  then have "snd (wake_expired 5 with_task) = with_task"
    by (auto simp: wake_expired_def change_tasks_def intro!: sched.equality nth_equalityI)
  ultimately show ?thesis by (simp add: tidied_def)
qed

definition example_booted :: "nat machine" where
  "example_booted = \<lparr>mc_sched = booted, mc_cores = (\<lambda>c. blank_core), mc_phase = (\<lambda>c. Off)(0 := Steady)\<rparr>"

definition example_waiting :: "nat machine" where
  "example_waiting = example_booted\<lparr>mc_sched := with_task\<rparr>"

definition example_leaving :: "nat machine" where
  "example_leaving = example_waiting\<lparr>mc_sched := commit_switch Voluntary 0 6 0 8 0 with_task,
     mc_cores := (\<lambda>c. blank_core)(0 := load_machine example_task blank_core),
     mc_phase := (mc_phase example_waiting)(0 := Leaving 0 8 0)\<rparr>"

lemma example_waiting_reachable: "reachable example_waiting"
proof -
  have "machine_step (Online 0) (machine_off (\<lambda>c. blank_core)) ((machine_off (\<lambda>c. blank_core))
      \<lparr>mc_sched := booted, mc_phase := (mc_phase (machine_off (\<lambda>c. blank_core)))(0 := Steady)\<rparr>)"
    by (rule machine_step.boot) (simp_all add: machine_off_def example_boot)
  then have "reachable example_booted"
    using reachable.intros by (metis (no_types, lifting) machine_off_def example_booted_def machine.simps)
  moreover have "machine_step (Born 8 42 (Some 5)) example_booted example_waiting"
    using machine_step.born [of 0 "''alpha''" TASK_STACK_SIZE 0 0 "Some 4096" True "Some 5" "\<lambda>top slot. 42"
        example_booted 1 with_task 8 example_stack] example_born
    by (simp add: example_booted_def example_waiting_def MAX_CPUS_def)
  ultimately show ?thesis by (rule reachable.step)
qed

lemma example_decide: "machine_step Hidden example_waiting example_leaving"
proof -
  have cur: "current_on 0 with_task = 0"
    by (simp add: with_task_def booted_def sched_new_def current_on_def MAX_CPUS_def)
  have "schedule_with Voluntary 0 5 6 blank_core with_task =
      (Switch 0 8 0, load_machine example_task blank_core, commit_switch Voluntary 0 6 0 8 0 with_task)"
    using example_tidied
    by (simp add: schedule_with_def tidied_def Let_def cur example_pick with_task_at task_idle_def blank_core_def)
      (simp add: with_task_def booted_def example_task_def task_new_def)
  then show ?thesis
    using machine_step.decide [of example_waiting 0 Voluntary 5 6]
    by (simp add: example_waiting_def example_booted_def example_leaving_def)
qed

theorem switch_transparent_witness: "seen Hidden example_waiting example_leaving"
  by (rule switch_transparent [OF example_waiting_reachable example_decide])

theorem one_processor_per_task_witness:
  "reachable example_leaving \<and> mc_phase example_leaving 0 = Leaving 0 8 0 \<and>
   swap_context 0 8 0 (mc_cores example_leaving 0) (mc_sched example_leaving) \<noteq> None"
proof -
  have r: "reachable example_leaving"
    by (rule reachable.step [OF example_waiting_reachable example_decide])
  have "mc_phase example_leaving 0 = Leaving 0 8 0" by (simp add: example_leaving_def)
  then show ?thesis using one_processor_per_task [OF r] r by blast
qed

section \<open>A turn within one round\<close>

text \<open>How many slots after \<open>a\<close> the slot \<open>b\<close> comes, around the table.\<close>

definition ring_distance :: "nat \<Rightarrow> nat \<Rightarrow> nat" where
  "ring_distance a b = (b + MAX_TASKS - a) mod MAX_TASKS"

lemma MAX_TASKS_pos: "0 < MAX_TASKS" by (simp add: MAX_TASKS_def)

lemma ring_distance_less: "ring_distance a b < MAX_TASKS"
  by (simp add: ring_distance_def MAX_TASKS_pos)

lemma ring_distance_step:
  assumes "a < MAX_TASKS" and "k < MAX_TASKS"
  shows "ring_distance a ((a + k) mod MAX_TASKS) = k"
proof (cases "a + k < MAX_TASKS")
  case True
  then show ?thesis using assms by (simp add: ring_distance_def)
next
  case False
  then have "(a + k) mod MAX_TASKS = a + k - MAX_TASKS" using assms by (simp add: mod_if)
  then show ?thesis using assms False by (simp add: ring_distance_def)
qed

lemma ring_reach:
  assumes "a < MAX_TASKS" and "b < MAX_TASKS"
  shows "(a + ring_distance a b) mod MAX_TASKS = b"
proof (cases "a \<le> b")
  case True
  then have "ring_distance a b = b - a" using assms by (simp add: ring_distance_def mod_if)
  then show ?thesis using True assms by simp
next
  case False
  then have "ring_distance a b = b + MAX_TASKS - a" using assms by (simp add: ring_distance_def)
  then show ?thesis using False assms by simp
qed

text \<open>The first in the ring that satisfies \<open>p\<close> is no farther than any that does.\<close>

lemma find_ring:
  assumes "a < MAX_TASKS" and "b < MAX_TASKS" and "b \<noteq> a" and "p b"
  shows "\<exists>x. find p (ring_after a) = Some x \<and> p x \<and> x < MAX_TASKS \<and> x \<noteq> a \<and> ring_distance a x \<le> ring_distance a b"
proof -
  let ?d = "ring_distance a b"
  have d: "0 < ?d" "?d < MAX_TASKS"
    using ring_reach [OF assms(1,2)] assms(1,3) ring_distance_less by (auto intro: ccontr)
  have b: "b \<in> set (ring_after a)"
    unfolding ring_after_def set_map using ring_reach [OF assms(1,2)] d by (auto intro!: image_eqI [where x = ?d])
  then obtain x where x: "find p (ring_after a) = Some x"
    using assms(4) by (cases "find p (ring_after a)") (auto simp: find_None_iff)
  then obtain i where i: "i < length (ring_after a)" "p x" "x = ring_after a ! i" "\<forall>j<i. \<not> p (ring_after a ! j)"
    by (auto simp: find_Some_iff)
  have x': "x = (a + Suc i) mod MAX_TASKS" and i': "Suc i < MAX_TASKS"
    using i(1,3) by (simp_all add: ring_after_def)
  have dx: "ring_distance a x = Suc i"
    unfolding x' by (rule ring_distance_step [OF assms(1) i'])
  have "\<not> ?d - 1 < i"
  proof
    assume less: "?d - 1 < i"
    obtain e where e: "?d = Suc e" using d(1) by (cases "?d") simp_all
    then have "ring_after a ! (?d - 1) = b"
      using d ring_reach [OF assms(1,2)] by (simp add: ring_after_def)
    then show False using i(4) less assms(4) by metis
  qed
  moreover have "x \<noteq> a"
  proof
    assume "x = a"
    then have "ring_distance a x = 0" using assms(1) by (simp add: ring_distance_def)
    then show False using dx by simp
  qed
  moreover have "x < MAX_TASKS" by (simp add: x' MAX_TASKS_pos)
  ultimately show ?thesis using x i(2) dx d by auto
qed

text \<open>The choice, when a task can run and no task woken by input or a device is before it.\<close>

lemma pick_next_nearer:
  assumes "takes can_run s b" and "b < MAX_TASKS" and "current_on c s < MAX_TASKS" and "b \<noteq> current_on c s"
    and "\<And>slot. \<not> takes (\<lambda>t. ta_boost t \<and> can_run t) s slot"
  shows "\<exists>x. pick_next c s = Some x \<and> x < MAX_TASKS \<and> x \<noteq> current_on c s \<and>
    ring_distance (current_on c s) x \<le> ring_distance (current_on c s) b"
proof -
  have "find (takes (\<lambda>t. ta_boost t \<and> can_run t) s) (ring_after (current_on c s)) = None"
    using assms(5) by (simp add: find_None_iff)
  then show ?thesis
    using find_ring [of "current_on c s" b "takes can_run s"] assms by (auto simp: pick_next_def)
qed

text \<open>While a boosted task is ready elsewhere in the ring, the choice is a boosted one.\<close>

lemma boosted_first:
  assumes "takes (\<lambda>t. ta_boost t \<and> can_run t) s b" and "b \<in> set (ring_after (current_on c s))"
  shows "\<exists>x t. pick_next c s = Some x \<and> task_at x s = Some t \<and> ta_boost t"
proof -
  obtain x where x: "find (takes (\<lambda>t. ta_boost t \<and> can_run t) s) (ring_after (current_on c s)) = Some x"
    using assms by (cases "find (takes (\<lambda>t. ta_boost t \<and> can_run t) s) (ring_after (current_on c s))")
      (auto simp: find_None_iff)
  then have "takes (\<lambda>t. ta_boost t \<and> can_run t) s x"
    by (auto simp: find_Some_iff)
  then show ?thesis
    using x by (auto simp: pick_next_def takes_def split: option.splits)
qed

lemma ring_distance_closer:
  assumes "a < MAX_TASKS" and "b < MAX_TASKS" and "x < MAX_TASKS" and "x \<noteq> a" and "x \<noteq> b"
    and "ring_distance a x \<le> ring_distance a b"
  shows "ring_distance x b < ring_distance a b"
  using assms by (auto simp: ring_distance_def mod_if split: if_splits)

text \<open>
  C36. Every task gets its turn within one round of choices at which no task woken by input or by
  a device is ready.  Let a processor switch again and again while a task is ready to run and no
  task with that boost is: the task is chosen after fewer switches than the table has slots,
  whichever tasks come, go, block and wake meanwhile.  Nothing is claimed while boosted tasks are
  ready: each choice then goes to one of them (\<open>boosted_first\<close>), so that with boosts that keep
  coming the others wait without a bound.
\<close>

theorem turn_within_a_round:
  assumes slot: "b < MAX_TASKS"
    and ready: "\<forall>i<k. takes can_run (s i) b \<and> (\<forall>slot. \<not> takes (\<lambda>t. ta_boost t \<and> can_run t) (s i) slot)"
    and turns: "\<forall>i<k. current_on c (s i) < MAX_TASKS \<and> current_on c (s i) \<noteq> b \<and>
      pick_next c (s i) = Some (current_on c (s (Suc i)))"
    and others: "\<forall>i<k. current_on c (s (Suc i)) \<noteq> b"
  shows "k < MAX_TASKS"
proof -
  have "ring_distance (current_on c (s i)) b + i < MAX_TASKS" if "i \<le> k" for i
    using that
  proof (induction i)
    case 0
    then show ?case using ring_distance_less by simp
  next
    case (Suc i)
    then have i: "i < k" by simp
    obtain x where x: "pick_next c (s i) = Some x" "x < MAX_TASKS" "x \<noteq> current_on c (s i)"
        "ring_distance (current_on c (s i)) x \<le> ring_distance (current_on c (s i)) b"
      using pick_next_nearer [of "s i" b c] ready turns slot i by auto
    have xs: "x = current_on c (s (Suc i))" using x(1) turns i by simp
    have "ring_distance x b < ring_distance (current_on c (s i)) b"
      using ring_distance_closer [OF _ slot x(2,3) _ x(4)] turns others i xs by auto
    then show ?case using Suc.IH i xs by simp
  qed
  from this [of k] show ?thesis by simp
qed

definition two_tasks :: "nat sched" where
  "two_tasks = booted\<lparr>se_tasks := (replicate MAX_TASKS None)[0 := Some (task_idle 0), 8 := Some example_task,
     9 := Some (example_task\<lparr>ta_id := 2\<rparr>)]\<rparr>"

lemma two_tasks_at:
  "task_at i two_tasks = (if i = 9 then Some (example_task\<lparr>ta_id := 2\<rparr>)
     else if i = 8 then Some example_task else if i = 0 then Some (task_idle 0) else None)"
  by (simp add: task_at_def two_tasks_def MAX_TASKS_def MAX_CPUS_def nth_list_update)

theorem turn_within_a_round_witness: "pick_next 0 two_tasks = Some 8 \<and> (1::nat) < MAX_TASKS"
proof -
  let ?s = "\<lambda>i::nat. if i = 0 then two_tasks else change_cpu 0 (\<lambda>p. p\<lparr>cp_current := 8\<rparr>) two_tasks"
  have cur: "current_on 0 two_tasks = 0" "current_on 0 (change_cpu 0 (\<lambda>p. p\<lparr>cp_current := 8\<rparr>) two_tasks) = 8"
    by (simp_all add: two_tasks_def booted_def sched_new_def current_on_def change_cpu_def MAX_CPUS_def)
  have boost: "\<not> takes (\<lambda>t. ta_boost t \<and> can_run t) two_tasks slot" for slot
    by (simp add: takes_def two_tasks_at example_task_def task_new_def task_idle_def)
  have "find_range (takes can_run two_tasks) 1 MAX_TASKS = Some 8"
    by (auto simp: find_range_Some takes_def two_tasks_at example_task_def task_new_def task_idle_def
        can_run_def is_idle_slot_def MAX_CPUS_def MAX_TASKS_def)
  moreover have "find (takes (\<lambda>t. ta_boost t \<and> can_run t) two_tasks) xs = None" for xs
    using boost by (simp add: find_None_iff)
  ultimately have pick: "pick_next 0 two_tasks = Some 8"
    by (simp add: pick_next_def cur ring_0 find_range_def)
  have "takes can_run two_tasks 9"
    by (simp add: takes_def two_tasks_at example_task_def task_new_def can_run_def is_idle_slot_def MAX_CPUS_def)
  then have "(1::nat) < MAX_TASKS"
    using turn_within_a_round [of 9 1 ?s 0] boost pick cur by (simp add: MAX_TASKS_def)
  then show ?thesis using pick by simp
qed

section \<open>No lost wake-up\<close>

text \<open>How many tasks sleep on a key.\<close>

definition asleep_entry :: "nat \<Rightarrow> 'r task option \<Rightarrow> bool" where
  "asleep_entry key e \<longleftrightarrow> (case e of None \<Rightarrow> False | Some t \<Rightarrow> awaits_futex key (ta_state t))"

definition asleep :: "nat \<Rightarrow> 'r sched \<Rightarrow> nat" where
  "asleep key s = length (filter (asleep_entry key) (se_tasks s))"

lemma asleep_entry_simps [simp]:
  "\<not> asleep_entry key None" "asleep_entry key (Some t) = awaits_futex key (ta_state t)"
  by (simp_all add: asleep_entry_def)

lemma asleep_none: "asleep key s = 0 \<longleftrightarrow> (\<forall>slot t. task_at slot s = Some t \<longrightarrow> \<not> awaits_futex key (ta_state t))"
proof -
  have "asleep key s = 0 \<longleftrightarrow> (\<forall>i<length (se_tasks s). \<not> asleep_entry key (se_tasks s ! i))"
    by (simp add: asleep_def filter_empty_conv all_set_conv_all_nth)
  also have "\<dots> \<longleftrightarrow> (\<forall>i. \<not> asleep_entry key (task_at i s))"
    by (auto simp: task_at_def)
  also have "\<dots> \<longleftrightarrow> (\<forall>slot t. task_at slot s = Some t \<longrightarrow> \<not> awaits_futex key (ta_state t))"
    by (simp add: asleep_entry_def split: option.split)
  finally show ?thesis .
qed

text \<open>
  One or more wait on a key until a flag is set; another sets the flag and then wakes the key, once or
  several times, at most \<open>limit\<close> sleepers each time or all of them when it is 0.  Between these,
  anything else may happen under the lock that puts no further task to sleep on the key.  The
  state is the flag, how many slept on the key when it was set, the limits of the wakers that are
  through, and the scheduler.
\<close>

inductive rendezvous :: "nat \<Rightarrow> bool \<times> nat \<times> nat list \<times> 'r sched \<Rightarrow> bool \<times> nat \<times> nat list \<times> 'r sched \<Rightarrow> bool" for key where
  wait: "rendezvous key (flag, k, ws, s) (flag, k, ws, snd (block_on_futex c key until flag s))"
| set_flag: "rendezvous key (flag, k, ws, s) (True, if flag then k else asleep key s, ws, s)"
| wake: "rendezvous key (True, k, ws, s) (True, k, ws @ [limit], snd (wake_futex key limit s))"
| other: "call c s s' \<Longrightarrow> asleep key s' \<le> asleep key s \<Longrightarrow> rendezvous key (flag, k, ws, s) (flag, k, ws, s')"

lemma wake_futex_loop_asleep:
  "length (filter (asleep_entry key) (snd (wake_futex_loop key limit woken ts))) =
     length (filter (asleep_entry key) ts) -
       (if limit = 0 then length (filter (asleep_entry key) ts) else limit - woken) \<and>
   fst (wake_futex_loop key limit woken ts) =
     woken + (if limit = 0 then length (filter (asleep_entry key) ts)
              else min (limit - woken) (length (filter (asleep_entry key) ts)))"
proof (induction ts arbitrary: woken)
  case (Cons e es)
  obtain a b where ab: "wake_futex_loop key limit woken es = (a, b)" by fastforce
  obtain a' b' where ab': "wake_futex_loop key limit (woken + 1) es = (a', b')" by fastforce
  show ?case
  proof (cases e)
    case None
    then show ?thesis using Cons.IH [of woken] by (simp add: ab)
  next
    case (Some t)
    show ?thesis
    proof (cases "limit \<noteq> 0 \<and> limit \<le> woken")
      case False
      then show ?thesis
        using Cons.IH [of woken] Cons.IH [of "woken + 1"] ab ab'
        by (cases "awaits_futex key (ta_state t)"; cases "limit = 0") (auto simp: Some)
    qed (simp add: Some)
  qed
qed simp

lemma wake_futex_asleep:
  "asleep key (snd (wake_futex key limit s)) = asleep key s - (if limit = 0 then asleep key s else limit)"
  "fst (wake_futex key limit s) = (if limit = 0 then asleep key s else min limit (asleep key s))"
proof -
  obtain w ts where "wake_futex_loop key limit 0 (se_tasks s) = (w, ts)" by fastforce
  with wake_futex_loop_asleep [of key limit 0 "se_tasks s"]
  show "asleep key (snd (wake_futex key limit s)) = asleep key s - (if limit = 0 then asleep key s else limit)"
    "fst (wake_futex key limit s) = (if limit = 0 then asleep key s else min limit (asleep key s))"
    by (simp_all add: wake_futex_def asleep_def)
qed

text \<open>
  C37. No wake-up is lost.  The condition of a wait is looked at under the scheduler's lock, and the
  waker sets it before it wakes under the same lock.  Then, in whatever order the steps of waiters,
  wakers and everybody else fall, every waker takes its share: once the flag is set, no more tasks
  sleep on the key than slept there when it was set less the sum of the limits of the wakers that
  are through; and none does once a waker had no limit, or the limits add up to the sleepers.
\<close>

theorem no_lost_wakeup:
  assumes "(rendezvous key)\<^sup>*\<^sup>* (False, 0, [], s) (flag, k, ws, s')"
  shows "(ws \<noteq> [] \<longrightarrow> flag) \<and> (flag \<longrightarrow> asleep key s' \<le> k - sum_list ws) \<and> (0 \<in> set ws \<longrightarrow> asleep key s' = 0) \<and>
    (0 \<in> set ws \<or> flag \<and> k \<le> sum_list ws \<longrightarrow>
       (\<forall>slot t. task_at slot s' = Some t \<longrightarrow> \<not> awaits_futex key (ta_state t)))"
proof -
  have "case q of (flag, k, ws, s) \<Rightarrow> (ws \<noteq> [] \<longrightarrow> flag) \<and> (flag \<longrightarrow> asleep key s \<le> k - sum_list ws) \<and>
      (0 \<in> set ws \<longrightarrow> asleep key s = 0)"
    if "(rendezvous key)\<^sup>*\<^sup>* (False, 0, [], s) q" for q
    using that
  proof (induction rule: rtranclp_induct)
    case (step p q)
    from step.hyps(2) step.IH show ?case
    proof cases
      case (wait flag k ws s c until)
      then show ?thesis using step.IH by (cases flag) (auto simp: block_on_futex_def block_on_def)
    next
      case (wake k ws s limit)
      then show ?thesis using step.IH by (auto simp: wake_futex_asleep)
    qed auto
  qed simp
  from this [OF assms] show ?thesis by (auto simp: asleep_none [symmetric])
qed

definition sleeping_pair :: "nat sched" where
  "sleeping_pair = booted\<lparr>se_tasks := (replicate MAX_TASKS None)
     [8 := Some (example_task\<lparr>ta_state := Blocked (Futex 64)\<rparr>), 9 := Some (example_task\<lparr>ta_state := Blocked (Futex 64)\<rparr>)]\<rparr>"

text \<open>Two sleep; one waker wakes one of them, a second the other.\<close>

theorem no_lost_wakeup_witness:
  "asleep 64 sleeping_pair = 2 \<and> asleep 64 (snd (wake_futex 64 1 sleeping_pair)) = 1 \<and>
   asleep 64 (snd (wake_futex 64 1 (snd (wake_futex 64 1 sleeping_pair)))) = 0"
proof -
  let ?s1 = "snd (wake_futex 64 1 sleeping_pair)"
  let ?s2 = "snd (wake_futex 64 1 ?s1)"
  have two: "asleep 64 sleeping_pair = 2"
    by (simp add: asleep_def sleeping_pair_def MAX_TASKS_def asleep_entry_def numeral_eq_Suc)
  have "rendezvous 64 (False, 0, [], sleeping_pair) (True, asleep 64 sleeping_pair, [], sleeping_pair)"
    using rendezvous.set_flag [of 64 False 0 "[]" sleeping_pair] by simp
  moreover have "rendezvous 64 (True, asleep 64 sleeping_pair, [], sleeping_pair) (True, asleep 64 sleeping_pair, [1], ?s1)"
    using rendezvous.wake [of 64 _ "[]" sleeping_pair 1] by simp
  moreover have "rendezvous 64 (True, asleep 64 sleeping_pair, [1], ?s1) (True, asleep 64 sleeping_pair, [1, 1], ?s2)"
    using rendezvous.wake [of 64 _ "[1]" ?s1 1] by simp
  ultimately have "(rendezvous 64)\<^sup>*\<^sup>* (False, 0, [], sleeping_pair) (True, asleep 64 sleeping_pair, [1, 1], ?s2)"
    by (meson rtranclp.rtrancl_into_rtrancl rtranclp.rtrancl_refl)
  from no_lost_wakeup [OF this] two show ?thesis
    by (simp add: wake_futex_asleep)
qed

section \<open>Waiting for a task to end\<close>

lemma task_at_waiters: "task_at i (wake_waiters ident s) = map_option (wake_when (waits_for (WaitTask ident))) (task_at i s)"
  by (simp add: wake_waiters_def)

text \<open>
  C38. The exit code reaches whoever waits.  When a task exits, no task is left waiting for it, all
  that waited are ready, and whoever asks for it in the state right after, on any processor, is told
  the code it exited with, at once.
\<close>

theorem exit_answers_wait:
  assumes "find_plain ident s = Some slot" and "current_on c s = slot"
  shows "let s' = exit_current_with c code s in
    wait_turn d ident s' = (Some (Some code), s') \<and>
    (\<forall>i t. task_at i s' = Some t \<longrightarrow> ta_state t \<noteq> Blocked (WaitTask ident)) \<and>
    (\<forall>i t. i \<noteq> slot \<and> task_at i s = Some t \<longrightarrow>
      task_at i s' = Some (if ta_state t = Blocked (WaitTask ident) then t\<lparr>ta_state := Ready\<rparr> else t))"
proof -
  obtain t where slot: "MAX_CPUS \<le> slot" "slot < length (se_tasks s)" and t: "task_at slot s = Some t" "ta_id t = ident"
    and first: "\<forall>j. MAX_CPUS \<le> j \<and> j < slot \<longrightarrow> (\<forall>u. task_at j s = Some u \<longrightarrow> ta_id u \<noteq> ident)"
    using assms(1) by (auto simp: find_plain_def find_range_Some split: option.splits)
  let ?f = "\<lambda>t. t\<lparr>ta_state := Finished, ta_result := code, ta_user := user_default\<rparr>"
  have s': "exit_current_with c code s = wake_waiters ident (change_task slot ?f s)"
    using assms(2) t by (simp add: exit_current_with_def Let_def)
  have at: "task_at i (exit_current_with c code s) =
      (if i = slot then Some (?f t) else map_option (wake_when (waits_for (WaitTask ident))) (task_at i s))" for i
    using t by (simp add: s' task_at_waiters wake_when_def waits_for_def)
  have len: "length (se_tasks (exit_current_with c code s)) = length (se_tasks s)"
    by (simp add: s' wake_waiters_def)
  have ids: "ta_id (wake_when p u) = ta_id u" for p and u :: "'a task" by (simp add: wake_when_def)
  have woken: "ta_state (wake_when (waits_for w) u) \<noteq> Blocked w" for w and u :: "'a task"
    by (simp add: wake_when_def waits_for_def)
  have "find_plain ident (exit_current_with c code s) = Some slot"
    using slot first t by (auto simp: find_plain_def find_range_Some len at ids split: option.splits)
  then have "wait_turn d ident (exit_current_with c code s) = (Some (Some code), exit_current_with c code s)"
    by (simp add: wait_turn_def at)
  moreover have "ta_state u \<noteq> Blocked (WaitTask ident)" if "task_at i (exit_current_with c code s) = Some u" for i u
    using that woken by (auto simp: at split: if_splits)
  moreover have "task_at i (exit_current_with c code s) =
      Some (if ta_state u = Blocked (WaitTask ident) then u\<lparr>ta_state := Ready\<rparr> else u)"
    if "i \<noteq> slot" "task_at i s = Some u" for i u
    using that by (simp add: at wake_when_def waits_for_def)
  ultimately show ?thesis unfolding Let_def by blast
qed

theorem exit_answers_wait_witness:
  "fst (wait_turn 0 1 (exit_current_with 0 5 (change_cpu 0 (\<lambda>p. p\<lparr>cp_current := 8\<rparr>) with_task))) = Some (Some 5)"
proof -
  let ?s = "change_cpu 0 (\<lambda>p. p\<lparr>cp_current := 8\<rparr>) with_task"
  have "find_plain 1 ?s = Some 8"
    by (auto simp: find_plain_def find_range_Some with_task_at example_task_def task_new_def MAX_CPUS_def)
      (simp add: with_task_def MAX_TASKS_def MAX_CPUS_def)
  moreover have "current_on 0 ?s = 8"
    by (simp add: with_task_def booted_def sched_new_def current_on_def change_cpu_def MAX_CPUS_def)
  ultimately show ?thesis using exit_answers_wait [of 1 ?s 8 0 5 0] by (simp add: Let_def)
qed

section \<open>The time slice\<close>

lemma tick_other:
  "se_ticking (on_timer_tick c s) = se_ticking s" "se_preemption (on_timer_tick c s) = se_preemption s"
  "length (se_slice_left (on_timer_tick c s)) = length (se_slice_left s)"
  "length (se_need_resched (on_timer_tick c s)) = length (se_need_resched s)"
  by (simp_all add: on_timer_tick_def Let_def)

lemma tick_left:
  assumes "se_ticking s" and "c < length (se_slice_left s)" and "c < length (se_need_resched s)"
    and "se_slice_left s ! c \<le> Suc k" and "Suc k \<le> SLICE_TICKS"
  shows "se_need_resched (on_timer_tick c s) ! c \<or> se_slice_left (on_timer_tick c s) ! c \<le> k \<and> 0 < k"
  using assms by (auto simp: on_timer_tick_def Let_def)

lemma tick_flag:
  assumes "se_need_resched s ! c" and "c < length (se_need_resched s)"
  shows "se_need_resched (on_timer_tick c s) ! c"
  using assms by (auto simp: on_timer_tick_def Let_def)

text \<open>
  C39. A slice ends.  However long a task keeps a processor, ten ticks of the processor's timer
  after any moment its flag is up; the next preemption point answers that it is time to switch, and
  takes the flag down, so that it answers once.
\<close>

theorem slice_ends:
  assumes "se_ticking s" and "se_preemption s" and "c < length (se_slice_left s)" and "c < length (se_need_resched s)"
    and "se_slice_left s ! c \<le> SLICE_TICKS"
  shows "let s' = (on_timer_tick c ^^ SLICE_TICKS) s in
    fst (preempt_point c s') \<and> \<not> fst (preempt_point c (snd (preempt_point c s')))"
proof -
  let ?s = "\<lambda>k. (on_timer_tick c ^^ k) s"
  have same: "se_ticking (?s k) = se_ticking s" "se_preemption (?s k) = se_preemption s"
    "length (se_slice_left (?s k)) = length (se_slice_left s)"
    "length (se_need_resched (?s k)) = length (se_need_resched s)" for k
    by (induction k) (simp_all add: tick_other)
  have "se_need_resched (?s k) ! c \<or> se_slice_left (?s k) ! c \<le> SLICE_TICKS - k \<and> k < SLICE_TICKS" if "k \<le> SLICE_TICKS" for k
    using that
  proof (induction k)
    case 0
    then show ?case using assms(5) by (simp add: SLICE_TICKS_def)
  next
    case (Suc k)
    show ?case
    proof (cases "se_need_resched (?s k) ! c")
      case True
      then show ?thesis using tick_flag [of "?s k" c] assms(4) by (simp add: same)
    next
      case False
      then have "se_slice_left (?s k) ! c \<le> SLICE_TICKS - k" using Suc by auto
      then have "se_need_resched (on_timer_tick c (?s k)) ! c \<or>
          se_slice_left (on_timer_tick c (?s k)) ! c \<le> SLICE_TICKS - Suc k \<and> 0 < SLICE_TICKS - Suc k"
        using Suc.prems assms(1,3,4) by (intro tick_left) (simp_all add: same)
      then show ?thesis by auto
    qed
  qed
  from this [of SLICE_TICKS] have "se_need_resched (?s SLICE_TICKS) ! c" by simp
  then show ?thesis
    using assms(2,4) by (simp add: preempt_point_def same Let_def)
qed

theorem slice_ends_witness:
  "fst (preempt_point 0 ((on_timer_tick 0 ^^ SLICE_TICKS) (booted\<lparr>se_preemption := True\<rparr>)))"
  using slice_ends [of "booted\<lparr>se_preemption := True\<rparr>" 0]
  by (simp add: booted_def sched_new_def MAX_CPUS_def Let_def)

end
