(* ===== verification/Spec2Isabelle.thy ===== *)
theory Spec2Isabelle
  imports Slots PageCache Pipe Block Reliable Hazards Delivery Scheduling
begin

text \<open>
  Verification of FossAi, an operating system written in Rust: a kernel for x86-64 and AArch64 with its
  boot loader, its network stack, its file systems and a desktop. The development models the parts that
  carry the logic of the system and that other parts rest on, and states what makes each correct. This
  theory imports all others; a property is named C1, C2, ... in the text before its theorem.

  \<^bold>\<open>The program and its model.\<close> The boot loader (\<^verbatim>\<open>crates/boot-uefi\<close>) chooses one of two system slots and
  starts the kernel (\<^verbatim>\<open>crates/kernel\<close>). The kernel hands out frames of memory, runs tasks on several
  processors, joins programs by pipes, reads disks through a cache and speaks IPv4 with UDP and TCP. An
  update writes the other slot. Theories by part, with the functions they follow:

  \<^item> Prelude, Interfaces and Text hold what the parts share: integers of fixed width, slices, searches
    and sums as the standard library of Rust has them, UTF-8 and numbers in text; and the contracts
    between parts as locales, each interpreted in the theory of the part that provides it (a coder with
    its decoder, a pool of frames with owners, a first-in first-out channel, a block device, a table
    whose slots have owners).
  \<^item> Slots: \<^verbatim>\<open>crates/slots\<close>, \<^verbatim>\<open>boot-uefi/slot.rs\<close>, \<^verbatim>\<open>kernel/slot.rs\<close>. The record of the slots as text with a
    checksum (\<open>slots_write\<close>, \<open>slots_parse\<close>), the choice at boot (\<open>choose_slot\<close>), the confirmation
    (\<open>kernel_confirm\<close>), the switch at the end of an update (\<open>apply_switch\<close>). The record reads back as
    written (C1); what is left of it when a write is cut short (C2); a new system that is never
    confirmed is given up after its attempts and the old one started (C3, C4), a confirmed one stays
    (C5), over all sequences of boots, confirmations and updates (C6); which slot an update writes to
    (C7), and two runs in which the code fails its aim (C8, C9).
  \<^item> Frames: \<^verbatim>\<open>mm/frame.rs\<close>. The bitmap of frames: what it is built to hold (C10), runs of frames and
    aligned runs (C11, C12), frames with several owners (C13).
  \<^item> PageCache: \<^verbatim>\<open>mm/pagecache.rs\<close>, over any pool that keeps the contract of frames (C14, C15).
  \<^item> Pipe: \<^verbatim>\<open>user/pipe.rs\<close>. A pipe is a bounded channel (C16), what its ends answer (C17), and that it
    wakes who waits for it (C18).
  \<^item> Block: \<^verbatim>\<open>disk/mem.rs\<close>, \<^verbatim>\<open>block/cache.rs\<close>, \<^verbatim>\<open>block/mod.rs\<close>. A device behind the cache answers like the
    device alone (C19) and is not asked twice (C20).
  \<^item> Wire: \<^verbatim>\<open>net/{ipv4,eth,arp,icmp,udp,tcp}.rs\<close>. Parsers and writers (C21), addresses as text (C22), the
    ARP table (C23).
  \<^item> Streams, Sockets, Stack: \<^verbatim>\<open>net/stream.rs\<close>, \<^verbatim>\<open>net/socket.rs\<close>, \<^verbatim>\<open>net/mod.rs\<close>. The tables of connections and of
    sockets, the handlers of received frames (\<open>handle\<close>), the output path (\<open>send_ipv4\<close>, \<open>tcp_pump\<close>),
    the timers (\<open>tcp_tick\<close>), the calls of programs. The properties of the whole are in
    \<^item> Transport: an invariant of all reachable states of the stack (C25), what the output loop has sent
      when it stops (C26);
    \<^item> Reliable: two ends of a connection over a network that loses, repeats and reorders (C24), and how
      a connection comes to be (C27);
    \<^item> Delivery: a frame from one host to another, for a datagram (C29) and an echo request (C30);
    \<^item> Hazards: a silent peer (C28), and lemmas about situations the code does not get right;
    \<^item> Sockets: ports, queues and owners of UDP sockets (C31 to C33).
  \<^item> Sched, Machine, Scheduling: \<^verbatim>\<open>sched/task.rs\<close>, \<^verbatim>\<open>sched/mod.rs\<close>. The table of tasks and every operation on it
    (Sched); processors as an inductive step relation in which a decision under the lock, the exchange of
    registers and the end of a switch are steps of their own (Machine). Each task keeps its registers
    (C34), no two processors hold one task (C35), a ready task gets its turn within a round of choices
    with no boosted task ready (C36), no wake-up is lost (C37), an exit code reaches who waits (C38),
    a time slice ends (C39).

  \<^bold>\<open>How the code is represented.\<close> Structures are records, enumerations datatypes, \<^verbatim>\<open>Result\<close> a sum with the
  error on the left and \<^verbatim>\<open>Option\<close> an option. Integers that the code lets wrap are words of their width;
  sizes, indices and block numbers are naturals, with the comparison against \<open>2 ^ 64\<close> where the code
  writes \<^verbatim>\<open>checked_add\<close> and the bound where it saturates. Loops are recursion over the list or the range
  they walk, with a measure where they do not (\<open>pump_left\<close> for the output loop). No definition takes
  fuel. Global tables behind a lock are a state that is passed on: one call under the lock is one step.

  \<^bold>\<open>Arguments of the model.\<close> What lies below a modelled part is an argument: the card under the stack
  (\<open>transmit\<close>: what it answers to a frame and how it changes; \<open>recording\<close> is the card that takes and
  keeps all frames), the outcome of each write of a sector (\<open>Written\<close>, or \<open>Failed\<close> with what it left),
  the registers that a switch exchanges (of any type), the pool under the page cache, the device under the
  cache, whether the heap had room and whether a lock was free. Hypotheses about them state only documented behaviour: a
  read returns what was written, a card takes a frame.

  \<^bold>\<open>What the properties do not say.\<close> C24 is about connections that neither end shuts down: the code
  sends \<open>FIN\<close> in front of queued data when the peer's window is closed (\<open>fin_before_data\<close>,
  \<open>byte_lost_behind_fin\<close>). C25 says nothing of the bytes in flight, which an old acknowledgement can
  make wrap around (\<open>late_ack_stalls\<close>); C26 assumes they have not. C28 needs a neighbour that answers
  (\<open>unanswered_arp_resets_retries\<close>). C29 leaves out port zero (\<open>unbound_socket_hears_port_zero\<close>). C33
  does not hide what ports others have (\<open>bind_tells_foreign\<close>). C36 says nothing while boosted tasks
  are ready (\<open>boosted_first\<close>).

  \<^bold>\<open>What modelling found.\<close> Theorems about places where the code departs from its comments or from what it
  means to do stand beside the properties: C2, C7, C8 and C9 in Slots, the lemmas of Hazards, and
  \<open>bind_tells_foreign\<close> and \<open>unbound_socket_hears_port_zero\<close> in Sockets.

  \<^bold>\<open>Not modelled.\<close> Drivers, processor support and the start of the machine: they consist of accesses to
  registers whose meaning is outside the code. The virtual file system and the file systems, partition
  tables, the loading of programs and their address spaces, certificates, TLS, SSH and the update
  archives. The desktop, the graphics library and the programs. The memory order of the locks: the models
  take a call under a lock as one step. Of the modelled parts: the printing of tables for the shell, the
  sleeping loops around calls that wait (their outcome is modelled, the waking by Sched), the discovery of
  devices, and of the update everything but the choice of the slot and the switch.
\<close>

end
